(* ===== verification/Prelude.thy ===== *)
theory Prelude
  imports Main "HOL-Library.Word"
begin

text \<open>
  Shared vocabulary of the development.

  \<^item> A Go call either returns or panics: \<open>'a go\<close> with \<open>Ok\<close> and \<open>Panic\<close>, sequenced by
    \<open>gbind\<close>.  Run-time panics of the language (slice bounds, integer division by zero) and the
    kernel's own \<open>panic("...")\<close> calls are both values of this type.
  \<^item> Errors that the kernel returns to its caller are values of \<open>err_t\<close> (\<open>defs.Err_t\<close>): zero is
    success and the codes of \<open>defs/errno.go\<close> are returned negated.
  \<^item> Bytes are \<open>8 word\<close>; a Go slice of bytes is a \<open>byte list\<close>.
  \<^item> Go's \<open>int\<close> has 64 bits: \<open>i64\<close> is its wrap-around, written where an operation can reach it.
\<close>

named_theorems go_simps \<open>unfolding rules for calls that return or panic\<close>
named_theorems layout_simps \<open>equations of on-disk and in-memory layouts\<close>

subsection \<open>Calls that return or panic\<close>

datatype 'a go = Ok 'a | Panic string

primrec gbind :: "'a go \<Rightarrow> ('a \<Rightarrow> 'b go) \<Rightarrow> 'b go" where
  "gbind (Ok x) f = f x"
| "gbind (Panic s) f = Panic s"

primrec is_Ok :: "'a go \<Rightarrow> bool" where
  "is_Ok (Ok x) = True"
| "is_Ok (Panic s) = False"

lemma gbind_cong [fundef_cong]:
  "m = m' \<Longrightarrow> (\<And>x. m' = Ok x \<Longrightarrow> f x = g x) \<Longrightarrow> gbind m f = gbind m' g"
  by (cases m') auto

lemma gbind_eq_Ok [simp]: "gbind m f = Ok y \<longleftrightarrow> (\<exists>x. m = Ok x \<and> f x = Ok y)"
  by (cases m) auto

lemma gbind_assoc [simp]: "gbind (gbind m f) g = gbind m (\<lambda>x. gbind (f x) g)"
  by (cases m) auto

lemma gbind_Ok_right [simp]: "gbind m Ok = m"
  by (cases m) auto

lemma is_Ok_iff: "is_Ok m \<longleftrightarrow> (\<exists>x. m = Ok x)"
  by (cases m) auto

text \<open>The loops over a slice whose body may panic: collecting results, and updating a state.\<close>

fun gmap :: "('a \<Rightarrow> 'b go) \<Rightarrow> 'a list \<Rightarrow> 'b list go" where
  "gmap f [] = Ok []"
| "gmap f (x # xs) = gbind (f x) (\<lambda>y. gbind (gmap f xs) (\<lambda>ys. Ok (y # ys)))"

fun gfold :: "('a \<Rightarrow> 's \<Rightarrow> 's go) \<Rightarrow> 'a list \<Rightarrow> 's \<Rightarrow> 's go" where
  "gfold f [] s = Ok s"
| "gfold f (x # xs) s = gbind (f x s) (gfold f xs)"

lemma gmap_Ok: "gmap f xs = Ok ys \<longleftrightarrow> list_all2 (\<lambda>x y. f x = Ok y) xs ys"
  by (induction xs arbitrary: ys) (auto simp: list_all2_Cons1)

lemma gmap_all_Ok: "(\<And>x. x \<in> set xs \<Longrightarrow> f x = Ok (g x)) \<Longrightarrow> gmap f xs = Ok (map g xs)"
  by (induction xs) auto

lemma gmap_total: "(\<And>x. x \<in> set xs \<Longrightarrow> \<exists>y. f x = Ok y) \<Longrightarrow> \<exists>ys. gmap f xs = Ok ys"
proof (induction xs)
  case (Cons x xs)
  then show ?case by (metis gbind.simps(1) gmap.simps(2) list.set_intros)
qed simp

lemma gmap_cong: "(\<And>x. x \<in> set xs \<Longrightarrow> f x = g x) \<Longrightarrow> gmap f xs = gmap g xs"
  by (induction xs) auto

lemma gfold_append: "gfold f (xs @ ys) s = gbind (gfold f xs s) (gfold f ys)"
proof (induction xs arbitrary: s)
  case (Cons x xs)
  then show ?case by (cases "f x s") auto
qed simp

lemma gfold_inv:
  "gfold f xs s = Ok s' \<Longrightarrow> P s \<Longrightarrow> (\<And>x s s'. x \<in> set xs \<Longrightarrow> P s \<Longrightarrow> f x s = Ok s' \<Longrightarrow> P s') \<Longrightarrow> P s'"
proof (induction xs arbitrary: s)
  case (Cons x xs)
  obtain s1 where s1: "f x s = Ok s1" "gfold f xs s1 = Ok s'" using Cons.prems(1) by auto
  then show ?case using Cons.IH [OF s1(2)] Cons.prems(2,3) by auto
qed simp

subsection \<open>Error codes and machine integers\<close>

type_synonym err_t = int
type_synonym byte = "8 word"

text \<open>The wrap-around of a 64-bit signed \<open>int\<close>.\<close>

definition i64 :: "int \<Rightarrow> int" where
  "i64 k = signed_take_bit 63 k"

abbreviation in_i64 :: "int \<Rightarrow> bool" where
  "in_i64 k \<equiv> - (2 ^ 63) \<le> k \<and> k < 2 ^ 63"

lemma i64_id: "in_i64 k \<Longrightarrow> i64 k = k"
  unfolding i64_def by (subst signed_take_bit_int_eq_self_iff) simp

lemma i64_range: "in_i64 (i64 k)"
  unfolding i64_def
  using signed_take_bit_int_greater_eq_minus_exp [of 63 k] signed_take_bit_int_less_exp [of 63 k]
  by simp

lemma i64_take_bit: "i64 (take_bit 64 k) = i64 k"
  unfolding i64_def by (simp add: signed_take_bit_take_bit)

subsection \<open>Little-endian byte strings\<close>

text \<open>
  amd64 stores integers little-endian; \<open>le_bytes n v\<close> are the \<open>n\<close> bytes of \<open>v\<close> and \<open>le_val\<close>
  reads a byte string as an unsigned number.
\<close>

fun le_bytes :: "nat \<Rightarrow> int \<Rightarrow> byte list" where
  "le_bytes 0 v = []"
| "le_bytes (Suc n) v = word_of_int v # le_bytes n (v div 256)"

fun le_val :: "byte list \<Rightarrow> int" where
  "le_val [] = 0"
| "le_val (b # bs) = uint b + 256 * le_val bs"

lemma length_le_bytes [simp]: "length (le_bytes n v) = n"
  by (induction n arbitrary: v) auto

lemma le_val_nonneg: "0 \<le> le_val bs"
  by (induction bs) auto

lemma le_val_bound: "le_val bs < 256 ^ length bs"
proof (induction bs)
  case (Cons b bs)
  have "uint b < 256" using uint_bounded [of b] by simp
  with Cons show ?case by simp
qed simp

lemma uint_byte_of_int: "uint (word_of_int v :: byte) = v mod 256"
  by (simp add: uint_word_of_int)

lemma le_val_le_bytes: "le_val (le_bytes n v) = v mod 256 ^ n"
proof (induction n arbitrary: v)
  case (Suc n)
  have "v mod (256 * 256 ^ n) = 256 * (v div 256 mod 256 ^ n) + v mod 256"
    by (subst zmod_zmult2_eq) simp_all
  with Suc show ?case by (simp add: uint_byte_of_int)
qed simp

lemma le_bytes_le_val: "length bs = n \<Longrightarrow> le_bytes n (le_val bs) = bs"
proof (induction n arbitrary: bs)
  case (Suc n)
  then obtain b cs where bs: "bs = b # cs" "length cs = n" by (cases bs) auto
  have "0 \<le> uint b" "uint b < 256" using uint_bounded [of b] by simp_all
  then have "(uint b + 256 * le_val cs) div 256 = le_val cs" by simp
  moreover have "(word_of_int (uint b + 256 * le_val cs) :: byte) = b"
  proof -
    have "(word_of_int (uint b + 256 * le_val cs) :: byte) = word_of_int (uint b)"
      by (subst word_of_int_eq_iff) (simp add: take_bit_eq_mod)
    then show ?thesis by simp
  qed
  ultimately show ?case using Suc.IH bs by simp
qed simp

subsection \<open>Slices\<close>

text \<open>\<open>sub_list a lo hi\<close> is the slice \<open>a[lo:hi]\<close>; \<open>overlay\<close> is a copy into \<open>a[off:]\<close>.\<close>

definition sub_list :: "'a list \<Rightarrow> nat \<Rightarrow> nat \<Rightarrow> 'a list" where
  "sub_list a lo hi = take (hi - lo) (drop lo a)"

definition overlay :: "'a list \<Rightarrow> nat \<Rightarrow> 'a list \<Rightarrow> 'a list" where
  "overlay a off src = take off a @ src @ drop (off + length src) a"

lemma length_sub_list [simp]: "hi \<le> length a \<Longrightarrow> length (sub_list a lo hi) = hi - lo"
  by (simp add: sub_list_def)

lemma length_overlay [simp]:
  "off + length src \<le> length a \<Longrightarrow> length (overlay a off src) = length a"
  by (simp add: overlay_def)

lemma nth_overlay:
  "off + length src \<le> length a \<Longrightarrow> i < length a \<Longrightarrow>
   overlay a off src ! i =
     (if off \<le> i \<and> i < off + length src then src ! (i - off) else a ! i)"
  by (auto simp: overlay_def nth_append min_def)

lemma nth_sub_list: "i < hi - lo \<Longrightarrow> hi \<le> length a \<Longrightarrow> sub_list a lo hi ! i = a ! (lo + i)"
  by (simp add: sub_list_def)

lemma sub_list_overlay_same:
  "off + length src \<le> length a \<Longrightarrow> sub_list (overlay a off src) off (off + length src) = src"
  by (simp add: sub_list_def overlay_def)

lemma sub_list_overlay_disjoint:
  assumes "off + length src \<le> length a" "hi \<le> length a" "hi \<le> off \<or> off + length src \<le> lo"
  shows "sub_list (overlay a off src) lo hi = sub_list a lo hi"
  using assms by (intro nth_equalityI) (auto simp: nth_sub_list nth_overlay)


lemma nth_take_last:
  assumes "take n xs = ys" "ys \<noteq> []" "n = length ys"
  shows "xs ! (n - 1) = last ys"
proof -
  have "last ys = ys ! (n - 1)" using assms by (simp add: last_conv_nth)
  also have "\<dots> = xs ! (n - 1)" using assms nth_take [of "n - 1" n xs] by simp
  finally show ?thesis by simp
qed

lemma take_butlast_prefix:
  assumes "take n xs = ys" "n = length ys"
  shows "take (n - 1) xs = butlast ys"
  unfolding butlast_conv_take assms(2) [symmetric] unfolding assms(1) [symmetric]
  by (simp add: min_def)

end
