(* ===== verification/Util_Model.thy ===== *)
theory Util_Model
  imports Prelude "HOL-Library.Signed_Division"
begin

text \<open>
  \<^verbatim>\<open>biscuit/src/util/util.go\<close>: minimum, rounding to multiples, and the little-endian accessors
  \<open>Readn\<close> and \<open>Writen\<close> that every on-disk structure of the file system goes through.

  The generic functions are modelled at \<open>T = int\<close> (64-bit signed), the only instance whose
  rounding the kernel uses on values that are not addresses.  \<open>smod\<close> is Go's remainder, which
  truncates towards zero.
\<close>

definition Min_int :: "int \<Rightarrow> int \<Rightarrow> int" where
  "Min_int a b = (if a < b then a else b)"

definition Rounddown :: "int \<Rightarrow> int \<Rightarrow> int go" where
  "Rounddown v b = (if b = 0 then Panic ''integer divide by zero'' else Ok (i64 (v - v smod b)))"

definition Roundup :: "int \<Rightarrow> int \<Rightarrow> int go" where
  "Roundup v b = Rounddown (i64 (v + b - 1)) b"

definition Readn :: "byte list \<Rightarrow> int \<Rightarrow> int \<Rightarrow> int go" where
  "Readn a n off =
     (if off < 0 \<or> off + n > int (length a) then Panic ''Readn out of bounds''
      else if off \<ge> int (length a) then Panic ''index out of range''
      else let v = le_val (sub_list a (nat off) (nat (off + n))) in
        if n = 8 then Ok (i64 v)
        else if n = 4 \<or> n = 2 \<or> n = 1 then Ok v
        else Panic ''unsupported size'')"

definition Writen :: "byte list \<Rightarrow> int \<Rightarrow> int \<Rightarrow> int \<Rightarrow> byte list go" where
  "Writen a sz off val =
     (if off < 0 \<or> off + sz > int (length a) then Panic ''Writen out of bounds''
      else if off \<ge> int (length a) then Panic ''index out of range''
      else if sz = 8 \<or> sz = 4 \<or> sz = 2 \<or> sz = 1
           then Ok (overlay a (nat off) (le_bytes (nat sz) val))
      else Panic ''unsupported size'')"

subsection \<open>Rounding\<close>

lemma smod_nonneg: "0 \<le> v \<Longrightarrow> 0 < b \<Longrightarrow> v smod b = v mod (b::int)"
  by (cases "v = 0") (simp_all add: signed_modulo_int_def)

lemma Rounddown_nonneg:
  assumes "0 \<le> v" "v < 2 ^ 63" "0 < b"
  shows "Rounddown v b = Ok (b * (v div b))"
proof -
  have "v - v mod b = b * (v div b)" by (simp add: minus_mod_eq_mult_div)
  moreover have "0 \<le> v - v mod b" using assms by (simp add: zmod_le_nonneg_dividend)
  moreover have "v - v mod b \<le> v" using assms by simp
  ultimately have "i64 (v - v mod b) = b * (v div b)" using assms by (simp add: i64_id)
  then show ?thesis using assms by (simp add: Rounddown_def smod_nonneg)
qed

text \<open>
  \<open>Roundup\<close> gives the least multiple of \<open>b\<close> that is not below \<open>v\<close>; a positive sum \<open>v + b - 1\<close>
  past the 64-bit range is excluded, since it wraps.
\<close>

lemma Roundup_nonneg:
  assumes "0 \<le> v" "0 < b" "v + b - 1 < 2 ^ 63"
  shows "Roundup v b = Ok (b * ((v + b - 1) div b))"
  using assms Rounddown_nonneg [of "v + b - 1" b] by (simp add: Roundup_def i64_id)

lemma Roundup_least:
  assumes "0 \<le> v" "0 < b" "v + b - 1 < 2 ^ 63" "Roundup v b = Ok r"
  shows "v \<le> r" "r < v + b" "b dvd r"
proof -
  have r: "r = b * ((v + b - 1) div b)" using Roundup_nonneg [OF assms(1-3)] assms(4) by simp
  have "(v + b - 1) = b * ((v + b - 1) div b) + (v + b - 1) mod b" by simp
  moreover have "0 \<le> (v + b - 1) mod b" "(v + b - 1) mod b < b" using assms(2) by simp_all
  ultimately show "v \<le> r" "r < v + b" using r by linarith+
  show "b dvd r" using r by simp
qed

subsection \<open>Reading back what was written\<close>

lemma Writen_Ok:
  "sz \<in> {8, 4, 2, 1} \<Longrightarrow> 0 \<le> off \<Longrightarrow> off + sz \<le> int (length a) \<Longrightarrow>
   Writen a sz off val = Ok (overlay a (nat off) (le_bytes (nat sz) val))"
  by (auto simp: Writen_def)

lemma Writen_length: "Writen a sz off val = Ok a' \<Longrightarrow> length a' = length a"
  by (auto simp: Writen_def split: if_splits)

lemma Readn_8:
  "0 \<le> off \<Longrightarrow> off + 8 \<le> int (length a) \<Longrightarrow>
   Readn a 8 off = Ok (i64 (le_val (sub_list a (nat off) (nat off + 8))))"
  by (simp add: Readn_def Let_def nat_add_distrib)

lemma Readn_small:
  "n \<in> {4, 2, 1} \<Longrightarrow> 0 \<le> off \<Longrightarrow> off + n \<le> int (length a) \<Longrightarrow>
   Readn a n off = Ok (le_val (sub_list a (nat off) (nat off + nat n)))"
  by (auto simp: Readn_def Let_def nat_add_distrib)

lemma i64_mod [simp]: "i64 (v mod 18446744073709551616) = i64 v"
  using i64_take_bit [of v] by (simp add: take_bit_eq_mod)

text \<open>A value written with \<open>sz\<close> bytes reads back truncated to \<open>sz\<close> bytes, sign-extended only at 8.\<close>

lemma Readn_Writen_8:
  assumes "Writen a 8 off val = Ok a'"
  shows "Readn a' 8 off = Ok (i64 val)"
proof -
  from assms have b: "0 \<le> off" "off + 8 \<le> int (length a)" by (auto simp: Writen_def split: if_splits)
  then have a': "a' = overlay a (nat off) (le_bytes 8 val)" using assms by (simp add: Writen_Ok)
  have fit: "nat off + length (le_bytes 8 val) \<le> length a" using b by simp
  have "sub_list a' (nat off) (nat off + 8) = le_bytes 8 val"
    using sub_list_overlay_same [OF fit] a' by simp
  moreover have "Readn a' 8 off = Ok (i64 (le_val (sub_list a' (nat off) (nat off + 8))))"
    using b Writen_length [OF assms] by (intro Readn_8) simp_all
  ultimately show ?thesis by (simp add: le_val_le_bytes)
qed

lemma Readn_Writen_small:
  assumes "n \<in> {4, 2, 1}" "Writen a n off val = Ok a'"
  shows "Readn a' n off = Ok (val mod 256 ^ nat n)"
proof -
  from assms have b: "0 \<le> off" "off + n \<le> int (length a)" by (auto simp: Writen_def split: if_splits)
  then have a': "a' = overlay a (nat off) (le_bytes (nat n) val)" using assms by (simp add: Writen_Ok)
  have fit: "nat off + length (le_bytes (nat n) val) \<le> length a" using b assms(1) by auto
  have "sub_list a' (nat off) (nat off + nat n) = le_bytes (nat n) val"
    using sub_list_overlay_same [OF fit] a' by simp
  moreover have "Readn a' n off = Ok (le_val (sub_list a' (nat off) (nat off + nat n)))"
    using b Writen_length [OF assms(2)] assms(1) by (intro Readn_small) simp_all
  ultimately show ?thesis by (simp add: le_val_le_bytes)
qed

text \<open>A write leaves every disjoint 8-byte field as it was.\<close>

lemma Readn_Writen_disjoint:
  assumes "Writen a 8 off val = Ok a'" "off + 8 \<le> off' \<or> off' + 8 \<le> off"
  shows "Readn a' 8 off' = Readn a 8 off'"
proof (cases "0 \<le> off' \<and> off' + 8 \<le> int (length a)")
  case True
  from assms(1) have b: "0 \<le> off" "off + 8 \<le> int (length a)" by (auto simp: Writen_def split: if_splits)
  then have a': "a' = overlay a (nat off) (le_bytes 8 val)" using assms(1) by (simp add: Writen_Ok)
  have "sub_list a' (nat off') (nat off' + 8) = sub_list a (nat off') (nat off' + 8)"
    unfolding a' using b True assms(2) by (intro sub_list_overlay_disjoint) auto
  then show ?thesis using True Writen_length [OF assms(1)] by (simp add: Readn_8)
next
  case False
  then show ?thesis using Writen_length [OF assms(1)] by (auto simp: Readn_def)
qed

end
