(* ===== verification/Defs_Model.thy ===== *)
theory Defs_Model
  imports Prelude
begin

unbundle bit_operations_syntax

text \<open>
  \<^verbatim>\<open>biscuit/src/defs\<close>: the error numbers the modelled operations return (negated) and the encoding
  of device numbers, at 64 bits.
\<close>

abbreviation (input) EPERM :: err_t where "EPERM \<equiv> 1"
abbreviation (input) ENOENT :: err_t where "ENOENT \<equiv> 2"
abbreviation (input) ESRCH :: err_t where "ESRCH \<equiv> 3"
abbreviation (input) EINTR :: err_t where "EINTR \<equiv> 4"
abbreviation (input) EIO :: err_t where "EIO \<equiv> 5"
abbreviation (input) EBADF :: err_t where "EBADF \<equiv> 9"
abbreviation (input) ECHILD :: err_t where "ECHILD \<equiv> 10"
abbreviation (input) EAGAIN :: err_t where "EAGAIN \<equiv> 11"
abbreviation (input) ENOMEM :: err_t where "ENOMEM \<equiv> 12"
abbreviation (input) EFAULT :: err_t where "EFAULT \<equiv> 14"
abbreviation (input) EBUSY :: err_t where "EBUSY \<equiv> 16"
abbreviation (input) EEXIST :: err_t where "EEXIST \<equiv> 17"
abbreviation (input) ENOTDIR :: err_t where "ENOTDIR \<equiv> 20"
abbreviation (input) EISDIR :: err_t where "EISDIR \<equiv> 21"
abbreviation (input) EINVAL :: err_t where "EINVAL \<equiv> 22"
abbreviation (input) EMFILE :: err_t where "EMFILE \<equiv> 24"
abbreviation (input) ENOSPC :: err_t where "ENOSPC \<equiv> 28"
abbreviation (input) ESPIPE :: err_t where "ESPIPE \<equiv> 29"
abbreviation (input) EPIPE :: err_t where "EPIPE \<equiv> 32"
abbreviation (input) ENAMETOOLONG :: err_t where "ENAMETOOLONG \<equiv> 36"
abbreviation (input) ENOTEMPTY :: err_t where "ENOTEMPTY \<equiv> 39"
abbreviation (input) ENOHEAP :: err_t where "ENOHEAP \<equiv> 511"

definition Mkdev :: "int \<Rightarrow> int \<Rightarrow> 64 word go" where
  "Mkdev maj0 min0 =
     (let maj = word_of_int maj0 :: 64 word;
          mn = word_of_int min0 :: 64 word
      in if mn > 255 then Panic ''bad minor''
         else Ok (push_bit 32 (push_bit 8 maj OR mn)))"

definition Unmkdev :: "64 word \<Rightarrow> int \<times> int" where
  "Unmkdev d = (sint (drop_bit 40 d), uint (ucast (drop_bit 32 d) :: 8 word))"

lemma take_bit_word_small: "uint w < 2 ^ n \<Longrightarrow> take_bit n w = (w :: 'a::len word)"
  by (rule word_uint_eqI) (simp add: unsigned_take_bit_eq take_bit_int_eq_self)

lemma Mkdev_or:
  fixes maj mn :: "64 word"
  assumes "mn \<le> 255"
  shows "drop_bit 40 (push_bit 32 (push_bit 8 maj OR mn)) = take_bit 24 maj"
    and "(ucast (drop_bit 32 (push_bit 32 (push_bit 8 maj OR mn))) :: 8 word) = ucast mn"
proof -
  have "take_bit 8 mn = mn"
    using assms by (intro take_bit_word_small) (simp add: word_le_def)
  then have hi: "\<not> bit mn n" if "8 \<le> n" for n
    using that by (metis bit_take_bit_iff not_less)
  show "drop_bit 40 (push_bit 32 (push_bit 8 maj OR mn)) = take_bit 24 maj"
    by (rule bit_word_eqI) (auto simp: bit_simps hi)
  show "(ucast (drop_bit 32 (push_bit 32 (push_bit 8 maj OR mn))) :: 8 word) = ucast mn"
    by (rule bit_word_eqI) (auto simp: bit_simps)
qed

lemma sint_word_of_int64: "in_i64 k \<Longrightarrow> sint (word_of_int k :: 64 word) = k"
  by (simp add: sint_sbintrunc' signed_take_bit_int_eq_self)


lemma Mkdev_bad_minor:
  assumes "in_i64 mn" "mn < 0 \<or> 255 < mn"
  shows "Mkdev maj mn = Panic ''bad minor''"
proof -
  have "(255 :: 64 word) < word_of_int mn"
  proof (cases "mn < 0")
    case True
    then have "mn mod 2 ^ 64 = mn + 2 ^ 64" using assms by (intro int_mod_pos_eq [of _ _ "-1"]) simp_all
    then show ?thesis using assms by (simp add: word_less_def uint_word_of_int)
  next
    case False
    then show ?thesis using assms by (simp add: word_less_def uint_word_of_int)
  qed
  then show ?thesis by (simp add: Mkdev_def Let_def)
qed

subsection \<open>Properties\<close>

text \<open>
  A device number decodes to the major and minor it was made from, for every major of at most
  24 bits and every minor that \<open>Mkdev\<close> accepts.
\<close>

theorem Mkdev_unmkdev:
  assumes "0 \<le> maj" "maj < 2 ^ 24" "0 \<le> mn" "mn \<le> 255"
  shows "\<exists>d. Mkdev maj mn = Ok d \<and> Unmkdev d = (maj, mn)"
proof -
  have le: "(word_of_int mn :: 64 word) \<le> 255" using assms by (simp add: word_le_def uint_word_of_int)
  have "take_bit 24 (word_of_int maj :: 64 word) = word_of_int maj"
    using assms by (intro take_bit_word_small) (simp add: uint_word_of_int)
  moreover have "uint (ucast (word_of_int mn :: 64 word) :: 8 word) = mn"
    using assms by (simp add: unsigned_ucast_eq uint_word_of_int take_bit_eq_mod)
  ultimately have "Unmkdev (push_bit 32 (push_bit 8 (word_of_int maj) OR word_of_int mn)) = (maj, mn)"
    using assms by (simp only: Unmkdev_def Mkdev_or [OF le]) (simp add: sint_word_of_int64)
  then show ?thesis using le by (simp only: Mkdev_def Let_def) auto
qed

theorem Mkdev_unmkdev_witness: "\<exists>d. Mkdev 3 200 = Ok d \<and> Unmkdev d = (3, 200)"
  by (rule Mkdev_unmkdev) simp_all

end
