(* ===== verification/Paths.thy ===== *)
theory Paths
  imports Util_Model
begin

text \<open>
  \<^verbatim>\<open>biscuit/src/ustr/ustr.go\<close> and \<^verbatim>\<open>biscuit/src/bpath/bpath.go\<close>: kernel strings, the iterator over the
  components of a path, the directory/file split and the in-place canonicalisation of a path.

  A \<open>Ustr\<close> is a byte list.  \<open>Canonicalize\<close> overwrites the slice it ranges over, so its model keeps
  the array in the state and reads each character from the current array, as the \<open>range\<close> loop
  does.
\<close>

type_synonym ustr = "byte list"

abbreviation SLASH :: byte where "SLASH \<equiv> 47"
abbreviation DOT :: byte where "DOT \<equiv> 46"

subsection \<open>Ustr\<close>

definition Isdot :: "ustr \<Rightarrow> bool" where
  "Isdot us \<longleftrightarrow> length us = 1 \<and> us ! 0 = DOT"

definition Isdotdot :: "ustr \<Rightarrow> bool" where
  "Isdotdot us \<longleftrightarrow> length us = 2 \<and> us ! 0 = DOT \<and> us ! 1 = DOT"

definition Ustr_Eq :: "ustr \<Rightarrow> ustr \<Rightarrow> bool" where
  "Ustr_Eq us s = (if length us \<noteq> length s then False else list_all (\<lambda>(v, w). v = w) (zip us s))"

definition MkUstr :: ustr where "MkUstr = []"

definition MkUstrDot :: ustr where "MkUstrDot = [DOT]"

definition MkUstrRoot :: ustr where "MkUstrRoot = [SLASH]"

definition DotDot :: ustr where "DotDot = [DOT, DOT]"

fun MkUstrSlice :: "byte list \<Rightarrow> ustr" where
  "MkUstrSlice [] = []"
| "MkUstrSlice (b # bs) = (if b = 0 then [] else b # MkUstrSlice bs)"

definition Extend :: "ustr \<Rightarrow> ustr \<Rightarrow> ustr" where
  "Extend us p = (us @ [SLASH]) @ p"

definition IsAbsolute :: "ustr \<Rightarrow> bool" where
  "IsAbsolute us = (if length us = 0 then False else us ! 0 = SLASH)"

fun IndexByte_from :: "ustr \<Rightarrow> byte \<Rightarrow> int \<Rightarrow> int" where
  "IndexByte_from [] b i = -1"
| "IndexByte_from (v # us) b i = (if v = b then i else IndexByte_from us b (i + 1))"

definition IndexByte :: "ustr \<Rightarrow> byte \<Rightarrow> int" where
  "IndexByte us b = IndexByte_from us b 0"

subsection \<open>Pathparts\<close>

record pathparts =
  pp_path :: ustr
  pp_loc :: nat

definition Pp_init :: "ustr \<Rightarrow> pathparts" where
  "Pp_init p = \<lparr>pp_path = p, pp_loc = 0\<rparr>"

function Next :: "pathparts \<Rightarrow> (ustr \<times> bool \<times> pathparts) go" where
  "Next pp =
     (if pp_loc pp = length (pp_path pp) then Ok (MkUstr, False, pp)
      else if pp_loc pp > length (pp_path pp) then Panic ''slice bounds out of range''
      else let ret = drop (pp_loc pp) (pp_path pp); nloc = IndexByte ret SLASH in
        if nloc \<noteq> -1
        then let ret' = take (nat nloc) ret; pp' = pp\<lparr>pp_loc := pp_loc pp + nat nloc + 1\<rparr> in
          if length ret' = 0 then Next pp' else Ok (ret', True, pp')
        else Ok (ret, True, pp\<lparr>pp_loc := pp_loc pp + length ret\<rparr>))"
  by pat_completeness auto
termination
  by (relation "measure (\<lambda>pp. length (pp_path pp) - pp_loc pp)") auto

declare Next.simps [simp del]

subsection \<open>Sdirname\<close>

fun sd_strip :: "ustr \<Rightarrow> nat \<Rightarrow> ustr" where
  "sd_strip fn 0 = fn"
| "sd_strip fn (Suc i) = (if fn ! i \<noteq> SLASH then fn else sd_strip (take i fn) i)"

fun sd_split :: "ustr \<Rightarrow> nat \<Rightarrow> ustr \<times> ustr" where
  "sd_split fn 0 = ([], fn)"
| "sd_split fn (Suc i) =
     (if fn ! i = SLASH
      then (if i = 0 then take 1 fn else take i fn, drop (i + 1) fn)
      else sd_split fn i)"

definition Sdirname :: "ustr \<Rightarrow> ustr \<times> ustr" where
  "Sdirname path =
     (let fn = sd_strip path (length path) in sd_split fn (length fn))"

subsection \<open>Canonicalize\<close>

definition MaxSlash :: nat where "MaxSlash = 60"

record canonicalize_t =
  cn_path :: ustr
  cn_slash :: "nat list"
  cn_d :: int
  cn_index :: nat

definition cn_reset :: "canonicalize_t \<Rightarrow> int \<Rightarrow> canonicalize_t go" where
  "cn_reset c d =
     (if d \<ge> 0
      then if nat d < length (cn_slash c)
           then Ok (c\<lparr>cn_index := cn_slash c ! nat d + 1, cn_d := d\<rparr>)
           else Panic ''index out of range''
      else if length (cn_path c) = 0 then Panic ''index out of range''
      else if cn_path c ! 0 = SLASH then Ok (c\<lparr>cn_index := 1, cn_d := 1\<rparr>)
      else Ok (c\<lparr>cn_d := 0, cn_index := 0\<rparr>))"

definition cn_add :: "canonicalize_t \<Rightarrow> byte \<Rightarrow> canonicalize_t go" where
  "cn_add c r =
     (if cn_index c < length (cn_path c)
      then Ok (c\<lparr>cn_path := (cn_path c)[cn_index c := r], cn_index := cn_index c + 1\<rparr>)
      else Panic ''index out of range'')"

definition cn_addslash :: "canonicalize_t \<Rightarrow> canonicalize_t go" where
  "cn_addslash c =
     (if cn_index c > 0 \<and> cn_path c ! (cn_index c - 1) = SLASH then Ok c
      else if 0 \<le> cn_d c \<and> nat (cn_d c) < length (cn_slash c)
      then cn_add (c\<lparr>cn_slash := (cn_slash c)[nat (cn_d c) := cn_index c], cn_d := cn_d c + 1\<rparr>) SLASH
      else Panic ''index out of range'')"

definition cn_deltrailingslash :: "canonicalize_t \<Rightarrow> canonicalize_t" where
  "cn_deltrailingslash c =
     (if cn_index c > 1 \<and> cn_path c ! (cn_index c - 1) = SLASH
      then c\<lparr>cn_index := cn_index c - 1\<rparr> else c)"

text \<open>One iteration of the loop: the character, then \<open>lastisdot\<close> and \<open>lastisdotdot\<close>.\<close>

definition cn_iter :: "byte \<Rightarrow> canonicalize_t \<times> bool \<times> bool \<Rightarrow> (canonicalize_t \<times> bool \<times> bool) go" where
  "cn_iter u = (\<lambda>(c, lastisdot, lastisdotdot).
     if u = SLASH then
       gbind (if lastisdot then cn_reset c (cn_d c - 1) else Ok c) (\<lambda>c.
       gbind (if lastisdotdot then cn_reset c (cn_d c - 2) else Ok c) (\<lambda>c.
       gbind (cn_addslash c) (\<lambda>c. Ok (c, False, False))))
     else if u = DOT then
       (if lastisdot then Ok (c, False, True) else Ok (c, True, lastisdotdot))
     else
       gbind (if lastisdot then cn_add c DOT else Ok c) (\<lambda>c.
       gbind (if lastisdotdot then gbind (cn_add c DOT) (\<lambda>c. cn_add c DOT) else Ok c) (\<lambda>c.
       gbind (cn_add c u) (\<lambda>c. Ok (c, False, False)))))"

text \<open>The \<open>range\<close> loop from position \<open>i\<close> with \<open>n\<close> characters left, reading the current array.\<close>

fun cn_loop :: "nat \<Rightarrow> nat \<Rightarrow> canonicalize_t \<times> bool \<times> bool \<Rightarrow> (canonicalize_t \<times> bool \<times> bool) go" where
  "cn_loop 0 i st = Ok st"
| "cn_loop (Suc n) i st = gbind (cn_iter (cn_path (fst st) ! i) st) (cn_loop n (Suc i))"

definition Canonicalize :: "ustr \<Rightarrow> ustr go" where
  "Canonicalize path =
     (let canon = \<lparr>cn_path = path, cn_slash = replicate MaxSlash 0, cn_d = 0, cn_index = 0\<rparr> in
      gbind (cn_loop (length path) 0 (canon, False, False)) (\<lambda>(c, lastisdot, lastisdotdot).
      gbind (if lastisdotdot then cn_reset c (cn_d c - 2) else Ok c) (\<lambda>c.
      let c = cn_deltrailingslash c in
      if cn_index c \<le> length (cn_path c) then Ok (take (cn_index c) (cn_path c))
      else Panic ''slice bounds out of range'')))"

subsection \<open>Strings\<close>

lemma Ustr_Eq_iff [simp]: "Ustr_Eq us s \<longleftrightarrow> us = s"
  by (auto simp: Ustr_Eq_def list_all_iff set_zip list_eq_iff_nth_eq)

lemma MkUstrSlice_prefix: "MkUstrSlice buf = takeWhile (\<lambda>b. b \<noteq> 0) buf"
  by (induction buf) auto

lemma IsAbsolute_iff: "IsAbsolute us \<longleftrightarrow> (\<exists>p. us = SLASH # p)"
  by (cases us) (auto simp: IsAbsolute_def)

lemma IndexByte_from_eq:
  "IndexByte_from us b i = (if b \<in> set us then i + int (length (takeWhile (\<lambda>v. v \<noteq> b) us)) else -1)"
  by (induction us arbitrary: i) auto

lemma IndexByte_eq:
  "IndexByte us b = (if b \<in> set us then int (length (takeWhile (\<lambda>v. v \<noteq> b) us)) else -1)"
  by (simp add: IndexByte_def IndexByte_from_eq)

subsection \<open>Components of a path\<close>

text \<open>The specification: the non-empty pieces between slashes, and their concatenation.\<close>

fun split_slash :: "ustr \<Rightarrow> ustr list" where
  "split_slash [] = [[]]"
| "split_slash (b # bs) =
     (if b = SLASH then [] # split_slash bs
      else (b # hd (split_slash bs)) # tl (split_slash bs))"

definition components :: "ustr \<Rightarrow> ustr list" where
  "components p = filter (\<lambda>c. c \<noteq> []) (split_slash p)"

fun join_slash :: "ustr list \<Rightarrow> ustr" where
  "join_slash [] = []"
| "join_slash [c] = c"
| "join_slash (c # cs) = c @ SLASH # join_slash cs"

lemma split_slash_nonempty [simp]: "split_slash p \<noteq> []"
  by (cases p) auto

lemma split_slash_append: "split_slash (p @ SLASH # q) = split_slash p @ split_slash q"
  by (induction p) auto

lemma split_slash_plain: "SLASH \<notin> set c \<Longrightarrow> split_slash c = [c]"
  by (induction c) auto

lemma components_Nil [simp]: "components [] = []"
  by (simp add: components_def)

lemma components_append: "components (p @ SLASH # q) = components p @ components q"
  by (simp add: components_def split_slash_append)

lemma components_slash [simp]: "components (SLASH # q) = components q"
  using components_append [of "[]" q] by simp

lemma components_snoc_slash [simp]: "components (p @ [SLASH]) = components p"
  using components_append [of p "[]"] by simp

lemma components_plain: "SLASH \<notin> set c \<Longrightarrow> components c = (if c = [] then [] else [c])"
  by (simp add: components_def split_slash_plain)

lemma takeWhile_to_slash: "SLASH \<notin> set ys \<Longrightarrow> takeWhile (\<lambda>v. v \<noteq> SLASH) (ys @ SLASH # zs) = ys"
  by (induction ys) auto

lemma components_first:
  assumes "SLASH \<in> set p"
  shows "components p =
    (let c = takeWhile (\<lambda>v. v \<noteq> SLASH) p; r = components (drop (Suc (length c)) p) in
     if c = [] then r else c # r)"
proof -
  obtain ys zs where p: "p = ys @ SLASH # zs" "SLASH \<notin> set ys"
    using assms by (meson split_list_first)
  then show ?thesis by (simp add: components_append components_plain takeWhile_to_slash Let_def)
qed

text \<open>
  The iterator against the specification: from a position inside the path it never panics, and
  it returns the first remaining component or reports that none is left.
\<close>

definition pp_rest :: "pathparts \<Rightarrow> ustr list" where
  "pp_rest pp = components (drop (pp_loc pp) (pp_path pp))"

definition pp_ok :: "pathparts \<Rightarrow> bool" where
  "pp_ok pp \<longleftrightarrow> pp_loc pp \<le> length (pp_path pp)"

lemma pp_rest_first:
  assumes "pp_loc pp < length (pp_path pp)" "IndexByte (drop (pp_loc pp) (pp_path pp)) SLASH \<noteq> -1"
  defines "nloc \<equiv> nat (IndexByte (drop (pp_loc pp) (pp_path pp)) SLASH)"
  defines "pp' \<equiv> pp\<lparr>pp_loc := pp_loc pp + nloc + 1\<rparr>"
  shows "pp_ok pp'" "pp_rest pp =
    (let c = take nloc (drop (pp_loc pp) (pp_path pp)) in
     if c = [] then pp_rest pp' else c # pp_rest pp')"
proof -
  let ?ret = "drop (pp_loc pp) (pp_path pp)"
  have mem: "SLASH \<in> set ?ret" using assms(2) by (simp add: IndexByte_eq split: if_splits)
  then have nloc: "nloc = length (takeWhile (\<lambda>v. v \<noteq> SLASH) ?ret)"
    by (simp add: nloc_def IndexByte_eq)
  have c: "take nloc ?ret = takeWhile (\<lambda>v. v \<noteq> SLASH) ?ret"
    by (simp add: nloc takeWhile_eq_take [symmetric])
  have "nloc < length ?ret" using mem unfolding nloc
    by (metis (mono_tags, lifting) length_takeWhile_le linorder_not_less nth_length_takeWhile order_less_le
        set_takeWhileD takeWhile_eq_all_conv takeWhile_eq_take take_all)
  then show "pp_ok pp'" by (simp add: pp_ok_def pp'_def)
  show "pp_rest pp =
    (let c = take nloc ?ret in if c = [] then pp_rest pp' else c # pp_rest pp')"
    using components_first [OF mem]
    by (simp add: pp_rest_def pp'_def Let_def nloc add.commute takeWhile_eq_take [symmetric])
qed

lemma Next_spec:
  assumes "pp_ok pp"
  shows "(\<exists>pp'. Next pp = Ok ([], False, pp') \<and> pp_rest pp = []) \<or>
    (\<exists>c pp'. Next pp = Ok (c, True, pp') \<and> pp_rest pp = c # pp_rest pp' \<and> pp_ok pp' \<and>
       pp_path pp' = pp_path pp \<and> pp_loc pp < pp_loc pp')"
  using assms
proof (induction pp rule: Next.induct)
  case (1 pp)
  let ?ret = "drop (pp_loc pp) (pp_path pp)"
  let ?nloc = "IndexByte ?ret SLASH"
  consider (fin) "pp_loc pp = length (pp_path pp)"
    | (more) "pp_loc pp < length (pp_path pp)" "?nloc \<noteq> -1"
    | (lst) "pp_loc pp < length (pp_path pp)" "?nloc = -1"
    using "1.prems" by (fastforce simp: pp_ok_def)
  then show ?case
  proof cases
    case fin
    then show ?thesis by (simp add: Next.simps [of pp] MkUstr_def pp_rest_def)
  next
    case more
    let ?pp' = "pp\<lparr>pp_loc := pp_loc pp + nat ?nloc + 1\<rparr>"
    note first = pp_rest_first [OF more]
    show ?thesis
    proof (cases "take (nat ?nloc) ?ret = []")
      case True
      then have "Next pp = Next ?pp'" using more by (simp add: Next.simps [of pp] Let_def)
      moreover have "pp_rest pp = pp_rest ?pp'" using first(2) True by (simp add: Let_def)
      moreover have "(\<exists>q. Next ?pp' = Ok ([], False, q) \<and> pp_rest ?pp' = []) \<or>
        (\<exists>c q. Next ?pp' = Ok (c, True, q) \<and> pp_rest ?pp' = c # pp_rest q \<and> pp_ok q \<and>
          pp_path q = pp_path ?pp' \<and> pp_loc ?pp' < pp_loc q)"
        using more True first(1) by (intro "1.IH") (auto simp: Let_def)
      ultimately show ?thesis by auto
    next
      case False
      then have "Next pp = Ok (take (nat ?nloc) ?ret, True, ?pp')"
        using more by (simp add: Next.simps [of pp] Let_def)
      then show ?thesis using first False by (auto simp: Let_def)
    qed
  next
    case lst
    let ?pp' = "pp\<lparr>pp_loc := pp_loc pp + length ?ret\<rparr>"
    have "SLASH \<notin> set ?ret" using lst by (simp add: IndexByte_eq split: if_splits)
    then have "pp_rest pp = [?ret]" using lst by (simp add: pp_rest_def components_plain)
    moreover have "Next pp = Ok (?ret, True, ?pp')" using lst by (simp add: Next.simps [of pp] Let_def)
    ultimately show ?thesis using lst by (auto simp: pp_ok_def pp_rest_def)
  qed
qed


text \<open>The loop of \<open>fs.namei\<close> over the iterator, with a bound on the number of calls.\<close>

fun pp_drain :: "nat \<Rightarrow> pathparts \<Rightarrow> ustr list go option" where
  "pp_drain 0 pp = None"
| "pp_drain (Suc n) pp =
     (case Next pp of
        Panic e \<Rightarrow> Some (Panic e)
      | Ok (c, ok, pp') \<Rightarrow>
          if \<not> ok then Some (Ok [])
          else map_option (\<lambda>r. gbind r (\<lambda>cs. Ok (c # cs))) (pp_drain n pp'))"

lemma pp_drain_rest:
  "pp_ok pp \<Longrightarrow> length (pp_path pp) - pp_loc pp < n \<Longrightarrow> pp_drain n pp = Some (Ok (pp_rest pp))"
proof (induction n arbitrary: pp)
  case (Suc n)
  from Next_spec [OF Suc.prems(1)] show ?case
  proof (elim disjE exE conjE)
    fix c pp'
    assume nx: "Next pp = Ok (c, True, pp')" "pp_rest pp = c # pp_rest pp'" "pp_ok pp'"
      and st: "pp_path pp' = pp_path pp" "pp_loc pp < pp_loc pp'"
    have "length (pp_path pp') - pp_loc pp' < n"
      using st nx(3) Suc.prems(2) by (simp add: pp_ok_def)
    then have "pp_drain n pp' = Some (Ok (pp_rest pp'))" using Suc.IH nx(3) by blast
    then show ?thesis using nx by simp
  qed simp
qed simp

subsection \<open>Sdirname splits off the last component\<close>

lemma sd_strip_eq:
  "n = length fn \<Longrightarrow> \<exists>k. fn = sd_strip fn n @ replicate k SLASH \<and>
     (sd_strip fn n = [] \<or> last (sd_strip fn n) \<noteq> SLASH)"
proof (induction fn n rule: sd_strip.induct)
  case (2 fn i)
  show ?case
  proof (cases "fn ! i = SLASH")
    case True
    obtain k where k: "take i fn = sd_strip (take i fn) i @ replicate k SLASH"
        "sd_strip (take i fn) i = [] \<or> last (sd_strip (take i fn) i) \<noteq> SLASH"
      using "2.IH" True "2.prems" by fastforce
    have "fn = take i fn @ [SLASH]"
      using True "2.prems" by (metis lessI take_Suc_conv_app_nth take_all_iff order_refl)
    also have "\<dots> = sd_strip (take i fn) i @ replicate (Suc k) SLASH"
      using k(1) by (metis append_assoc replicate_append_same replicate_Suc)
    finally show ?thesis using True k(2) by (intro exI [of _ "Suc k"]) simp
  next
    case False
    then have st: "sd_strip fn (Suc i) = fn" by simp
    have "last fn \<noteq> SLASH"
      using False "2.prems" by (metis last_conv_nth diff_Suc_1 list.size(3) nat.distinct(1))
    then show ?thesis unfolding st by (intro exI [of _ 0]) simp
  qed
qed simp

lemma sd_split_eq:
  "n \<le> length fn \<Longrightarrow> SLASH \<notin> set (drop n fn) \<Longrightarrow>
   sd_split fn n = (d, f) \<Longrightarrow>
   SLASH \<notin> set f \<and>
   (fn = f \<and> d = [] \<or> fn = d @ SLASH # f \<and> d \<noteq> [] \<or> fn = SLASH # f \<and> d = [SLASH])"
proof (induction fn n rule: sd_split.induct)
  case (2 fn i)
  have decomp: "drop i fn = fn ! i # drop (Suc i) fn"
    using "2.prems"(1) by (simp add: Cons_nth_drop_Suc)
  show ?case
  proof (cases "fn ! i = SLASH")
    case True
    have "fn = take i fn @ SLASH # drop (Suc i) fn"
      using decomp True by (metis append_take_drop_id)
    then show ?thesis using True "2.prems"
      by (auto split: if_splits)
  next
    case False
    then show ?thesis using "2.IH" "2.prems" decomp by simp
  qed
qed simp

lemma components_replicate_slash [simp]: "components (p @ replicate k SLASH) = components p"
proof (induction k)
  case (Suc k)
  have "p @ replicate (Suc k) SLASH = (p @ replicate k SLASH) @ [SLASH]"
    by (simp add: replicate_append_same)
  then show ?case using Suc components_snoc_slash by presburger
qed simp

lemma Sdirname_components:
  assumes "Sdirname p = (d, f)"
  shows "SLASH \<notin> set f" "components p = components d @ (if f = [] then [] else [f])"
    "f \<noteq> [] \<Longrightarrow> IsAbsolute d = IsAbsolute p" "f = [] \<Longrightarrow> components p = [] \<and> d = []"
proof -
  let ?fn = "sd_strip p (length p)"
  obtain k where k: "p = ?fn @ replicate k SLASH" "?fn = [] \<or> last ?fn \<noteq> SLASH"
    using sd_strip_eq by blast
  have sp: "SLASH \<notin> set f \<and> (?fn = f \<and> d = [] \<or> ?fn = d @ SLASH # f \<and> d \<noteq> [] \<or>
      ?fn = SLASH # f \<and> d = [SLASH])"
    using assms by (intro sd_split_eq [of "length ?fn"]) (simp_all add: Sdirname_def Let_def)
  have comp: "components p = components ?fn" using k(1) components_replicate_slash by metis
  show "SLASH \<notin> set f" using sp by simp
  show "components p = components d @ (if f = [] then [] else [f])"
    using sp comp by (auto simp: components_plain components_append)
  show "f = [] \<Longrightarrow> components p = [] \<and> d = []" using sp k(2) comp by auto
  show "IsAbsolute d = IsAbsolute p" if "f \<noteq> []"
  proof -
    have "IsAbsolute p = IsAbsolute ?fn"
      using that sp by (subst k(1)) (auto simp: IsAbsolute_def nth_append)
    then show ?thesis using sp that by (auto simp: IsAbsolute_def nth_append) (metis nth_mem length_greater_0_conv)
  qed
qed


subsection \<open>Canonicalize on paths without dots\<close>

text \<open>
  \<open>squeeze\<close> keeps one slash of every run of slashes.  On a path without a dot the loop computes
  it in place, as long as the 60 slots for slash positions suffice.
\<close>

definition squeeze_step :: "ustr \<Rightarrow> byte \<Rightarrow> ustr" where
  "squeeze_step acc u = (if u = SLASH \<and> acc \<noteq> [] \<and> last acc = SLASH then acc else acc @ [u])"

definition squeeze :: "ustr \<Rightarrow> ustr" where
  "squeeze p = foldl squeeze_step [] p"

definition slashes :: "ustr \<Rightarrow> nat" where
  "slashes p = length (filter (\<lambda>b. b = SLASH) p)"

lemma squeeze_snoc: "squeeze (p @ [u]) = squeeze_step (squeeze p) u"
  by (simp add: squeeze_def)

lemma length_squeeze: "length (squeeze p) \<le> length p"
  by (induction p rule: rev_induct) (auto simp: squeeze_snoc squeeze_step_def squeeze_def)

lemma slashes_squeeze_mono: "slashes (squeeze p) \<le> slashes (squeeze (p @ q))"
proof (induction q rule: rev_induct)
  case (snoc u q)
  have "slashes (squeeze (p @ q)) \<le> slashes (squeeze ((p @ q) @ [u]))"
    unfolding squeeze_snoc by (auto simp: squeeze_step_def slashes_def)
  with snoc show ?case by simp
qed simp

definition cn_inv :: "ustr \<Rightarrow> nat \<Rightarrow> canonicalize_t \<Rightarrow> bool" where
  "cn_inv p i c \<longleftrightarrow>
     length (cn_path c) = length p \<and> length (cn_slash c) = MaxSlash \<and>
     cn_index c = length (squeeze (take i p)) \<and>
     take (cn_index c) (cn_path c) = squeeze (take i p) \<and>
     drop i (cn_path c) = drop i p \<and> cn_d c = int (slashes (squeeze (take i p)))"

lemma cn_add_inv:
  assumes "cn_inv p i c" "i < length p" "p ! i \<noteq> SLASH"
  shows "\<exists>c'. cn_add c (p ! i) = Ok c' \<and> cn_inv p (Suc i) c'"
proof -
  let ?s = "squeeze (take i p)"
  have idx: "cn_index c = length ?s" "length ?s \<le> i" using assms(1) length_squeeze [of "take i p"]
    by (auto simp: cn_inv_def)
  have sq: "squeeze (take (Suc i) p) = ?s @ [p ! i]"
    using assms(2,3) by (simp add: take_Suc_conv_app_nth squeeze_snoc squeeze_step_def)
  show ?thesis using assms idx sq
    by (auto simp: cn_inv_def cn_add_def slashes_def take_Suc_conv_app_nth drop_update_cancel
        take_update_swap Cons_nth_drop_Suc [symmetric])
qed

lemma cn_addslash_inv:
  assumes "cn_inv p i c" "i < length p" "p ! i = SLASH" "slashes (squeeze (take (Suc i) p)) \<le> MaxSlash"
  shows "\<exists>c'. cn_addslash c = Ok c' \<and> cn_inv p (Suc i) c'"
proof -
  let ?s = "squeeze (take i p)"
  have inv: "length (cn_path c) = length p" "length (cn_slash c) = MaxSlash"
      "cn_index c = length ?s" "take (length ?s) (cn_path c) = ?s"
      "drop i (cn_path c) = drop i p" "cn_d c = int (slashes ?s)"
    using assms(1) by (auto simp: cn_inv_def)
  have le: "length ?s \<le> i" using length_squeeze [of "take i p"] by simp
  have sq: "squeeze (take (Suc i) p) = squeeze_step ?s SLASH"
    using assms(2,3) by (simp add: take_Suc_conv_app_nth squeeze_snoc)
  have dr: "drop (Suc i) (cn_path c) = drop (Suc i) p" using inv(5) by (metis drop_Suc tl_drop)
  show ?thesis
  proof (cases "?s \<noteq> [] \<and> last ?s = SLASH")
    case True
    then have "cn_path c ! (length ?s - 1) = SLASH" using nth_take_last [OF inv(4)] by simp
    then show ?thesis using True inv sq dr by (auto simp: cn_addslash_def cn_inv_def squeeze_step_def)
  next
    case False
    then have st: "squeeze_step ?s SLASH = ?s @ [SLASH]" by (auto simp: squeeze_step_def)
    have "\<not> (length ?s > 0 \<and> cn_path c ! (length ?s - 1) = SLASH)"
      using nth_take_last [OF inv(4)] False by auto
    moreover have "slashes ?s < MaxSlash" using assms(4) sq st by (simp add: slashes_def)
    moreover have "length ?s < length p" using le assms(2) by simp
    ultimately show ?thesis using inv sq st dr le
      by (auto simp: cn_addslash_def cn_add_def cn_inv_def slashes_def take_Suc_conv_app_nth
          drop_update_cancel)
  qed
qed

lemma cn_loop_squeeze:
  assumes "DOT \<notin> set p" "slashes (squeeze p) \<le> MaxSlash"
  shows "n = length p - i \<Longrightarrow> i \<le> length p \<Longrightarrow> cn_inv p i c \<Longrightarrow>
    \<exists>c'. cn_loop n i (c, False, False) = Ok (c', False, False) \<and> cn_inv p (length p) c'"
proof (induction n arbitrary: i c)
  case (Suc n)
  have i: "i < length p" using Suc.prems by simp
  have dr: "drop i (cn_path c) = drop i p" "length (cn_path c) = length p"
    using Suc.prems(3) by (simp_all add: cn_inv_def)
  have u: "cn_path c ! i = p ! i"
    using hd_drop_conv_nth [of i p] hd_drop_conv_nth [of i "cn_path c"] dr i by simp
  have nodot: "p ! i \<noteq> DOT" using assms(1) i nth_mem by metis
  have bnd: "slashes (squeeze (take (Suc i) p)) \<le> MaxSlash"
    using slashes_squeeze_mono [of "take (Suc i) p" "drop (Suc i) p"] assms(2) by simp
  have "\<exists>c'. cn_iter (p ! i) (c, False, False) = Ok (c', False, False) \<and> cn_inv p (Suc i) c'"
    using cn_add_inv [OF Suc.prems(3) i] cn_addslash_inv [OF Suc.prems(3) i _ bnd] nodot
    by (cases "p ! i = SLASH") (auto simp: cn_iter_def)
  then obtain c' where "cn_iter (p ! i) (c, False, False) = Ok (c', False, False)" "cn_inv p (Suc i) c'"
    by blast
  moreover have "\<exists>c''. cn_loop n (Suc i) (c', False, False) = Ok (c'', False, False) \<and>
      cn_inv p (length p) c''"
    using calculation(2) Suc.prems i by (intro Suc.IH) auto
  ultimately show ?case using u by auto
qed simp

lemma Canonicalize_squeeze:
  assumes "DOT \<notin> set p" "slashes (squeeze p) \<le> MaxSlash"
  shows "Canonicalize p = Ok (let s = squeeze p in
    if length s > 1 \<and> last s = SLASH then butlast s else s)"
proof -
  let ?c = "\<lparr>cn_path = p, cn_slash = replicate MaxSlash 0, cn_d = 0, cn_index = 0\<rparr>"
  have "cn_inv p 0 ?c" by (simp add: cn_inv_def squeeze_def slashes_def)
  then obtain c' where c': "cn_loop (length p) 0 (?c, False, False) = Ok (c', False, False)"
      "cn_inv p (length p) c'"
    using cn_loop_squeeze [OF assms, of "length p" 0 ?c] by auto
  then have st: "cn_index c' = length (squeeze p)" "take (length (squeeze p)) (cn_path c') = squeeze p"
      "length (cn_path c') = length p"
    by (auto simp: cn_inv_def)
  have lst: "length (squeeze p) > 1 \<Longrightarrow> cn_path c' ! (length (squeeze p) - 1) = last (squeeze p)"
    using nth_take_last [OF st(2)] by (cases "squeeze p = []") auto
  have bl: "length (squeeze p) > 1 \<Longrightarrow> take (length (squeeze p) - 1) (cn_path c') = butlast (squeeze p)"
    using take_butlast_prefix [OF st(2)] by simp
  show ?thesis using c'(1) st lst bl length_squeeze [of p]
    by (auto simp: Canonicalize_def cn_deltrailingslash_def Let_def)
qed


text \<open>What \<open>squeeze\<close> is, in terms of the components of the path.\<close>

lemma join_slash_snoc: "join_slash (cs @ [c]) = (if cs = [] then c else join_slash cs @ SLASH # c)"
  by (induction cs rule: join_slash.induct) auto

lemma join_slash_extend:
  "cs \<noteq> [] \<Longrightarrow> join_slash (butlast cs @ [last cs @ [u]]) = join_slash cs @ [u]"
  by (cases cs rule: rev_cases) (auto simp: join_slash_snoc)

lemma join_slash_last:
  "cs \<noteq> [] \<Longrightarrow> (\<And>c. c \<in> set cs \<Longrightarrow> c \<noteq> [] \<and> SLASH \<notin> set c) \<Longrightarrow>
   join_slash cs \<noteq> [] \<and> last (join_slash cs) \<noteq> SLASH"
  by (cases cs rule: rev_cases) (auto simp: join_slash_snoc, metis last_in_set)

lemma split_slash_elem: "c \<in> set (split_slash p) \<Longrightarrow> SLASH \<notin> set c"
proof (induction p arbitrary: c)
  case (Cons a q)
  have "hd (split_slash q) \<in> set (split_slash q)" "set (tl (split_slash q)) \<subseteq> set (split_slash q)"
    by (simp_all add: list.set_sel(2) subsetI)
  with Cons show ?case by (auto split: if_splits)
qed simp

lemma components_elem: "c \<in> set (components p) \<Longrightarrow> c \<noteq> [] \<and> SLASH \<notin> set c"
  using split_slash_elem by (auto simp: components_def)

lemma components_snoc:
  assumes "u \<noteq> SLASH"
  shows "components (p @ [u]) =
    (if p = [] \<or> last p = SLASH then components p @ [[u]]
     else butlast (components p) @ [last (components p) @ [u]])"
proof (cases "SLASH \<in> set p")
  case True
  then obtain q r where p: "p = q @ SLASH # r" "SLASH \<notin> set r"
    by (meson split_list_last)
  then have "components (p @ [u]) = components q @ [r @ [u]]"
    using components_append [of q "r @ [u]"] assms by (simp add: components_plain)
  moreover have "components p = components q @ (if r = [] then [] else [r])"
    using p by (simp add: components_append components_plain)
  moreover have "(p = [] \<or> last p = SLASH) \<longleftrightarrow> r = []" using p by (auto, metis last_in_set)
  ultimately show ?thesis by auto
next
  case False
  then have "last p \<noteq> SLASH \<or> p = []" using last_in_set by metis
  with False assms show ?thesis by (auto simp: components_plain)
qed

lemma components_empty_iff: "components p = [] \<longleftrightarrow> set p \<subseteq> {SLASH}"
proof (induction p rule: rev_induct)
  case (snoc u p)
  then show ?case by (cases "u = SLASH") (auto simp: components_snoc)
qed simp

lemma squeeze_components:
  "squeeze p = (if IsAbsolute p then [SLASH] else []) @ join_slash (components p) @
     (if components p \<noteq> [] \<and> last p = SLASH then [SLASH] else [])"
proof (induction p rule: rev_induct)
  case (snoc u p)
  let ?cs = "components p"
  have cs: "?cs \<noteq> [] \<Longrightarrow> join_slash ?cs \<noteq> [] \<and> last (join_slash ?cs) \<noteq> SLASH"
    using join_slash_last components_elem by blast
  have abs: "p \<noteq> [] \<Longrightarrow> IsAbsolute (p @ [u]) = IsAbsolute p" by (cases p) (auto simp: IsAbsolute_def)
  have all: "p \<noteq> [] \<Longrightarrow> ?cs = [] \<Longrightarrow> IsAbsolute p \<and> last p = SLASH"
    by (cases p) (auto simp: components_empty_iff IsAbsolute_def dest: last_in_set)
  show ?case
  proof (cases "u = SLASH")
    case True
    then show ?thesis using cs abs all snoc
      by (cases "p = []"; cases "?cs = []"; cases "last p = SLASH")
        (auto simp: squeeze_snoc squeeze_step_def IsAbsolute_def, simp_all add: squeeze_def squeeze_step_def)
  next
    case False
    consider (nil) "p = []" | (sl) "p \<noteq> []" "last p = SLASH" | (pl) "p \<noteq> []" "last p \<noteq> SLASH" by blast
    then show ?thesis
    proof cases
      case nil
      with False show ?thesis
        by (simp add: squeeze_def squeeze_step_def components_plain IsAbsolute_def)
    next
      case sl
      with False snoc abs show ?thesis
        by (simp add: squeeze_snoc squeeze_step_def components_snoc join_slash_snoc)
    next
      case pl
      then have "?cs \<noteq> []" using all by blast
      with pl False snoc abs show ?thesis
        by (simp add: squeeze_snoc squeeze_step_def components_snoc join_slash_extend)
    qed
  qed
qed (simp add: squeeze_def IsAbsolute_def)


subsection \<open>Properties\<close>

text \<open>
  C21: iterating \<open>Next\<close> over a path terminates and returns exactly its components, the non-empty
  segments between slashes, in order; no slice of the path goes out of bounds.  One call more than
  the path has bytes is enough.
\<close>

theorem Pp_init_drain: "pp_drain (Suc (length p)) (Pp_init p) = Some (Ok (components p))"
  using pp_drain_rest [of "Pp_init p" "Suc (length p)"]
  by (simp add: pp_ok_def Pp_init_def pp_rest_def)

text \<open>
  \<open>Sdirname\<close> splits a path into its directory and its last component: the file part has no
  slash, the components of the path are those of the directory followed by the file part, and the
  directory is absolute iff the path is.  The file part is empty only for a path with no components.
\<close>

theorem Sdirname_splits:
  "case Sdirname p of (d, f) \<Rightarrow>
     SLASH \<notin> set f \<and> components p = components d @ (if f = [] then [] else [f]) \<and>
     (if f = [] then components p = [] \<and> d = [] else IsAbsolute d = IsAbsolute p)"
  using Sdirname_components [of p] by (cases "Sdirname p") auto




end
