(* ===== verification/Limits_Model.thy ===== *)
theory Limits_Model
  imports Prelude "HOL-Library.Multiset"
begin

text \<open>
  \<^verbatim>\<open>biscuit/src/limits/limits.go\<close>: the table of system-wide limits and the counters that several
  CPUs decrement and increment without a lock.

  \<open>Taken\<close> is two atomic additions with a test between them, and other CPUs may run between the
  two.  The sequential functions model one call on its own; \<open>lim_step\<close> interleaves the atomic
  steps of any number of calls.
\<close>

record syslimit_t =
  Sysprocs :: int
  Vnodes :: int
  Futexes :: int
  Arpents :: int
  Routes :: int
  Tcpsegs :: int
  Socks :: int
  Pipes :: int
  Mfspgs :: int
  Blocks :: int

definition MkSysLimit :: syslimit_t where
  "MkSysLimit = \<lparr>Sysprocs = 10000, Vnodes = 20000, Futexes = 1024, Arpents = 1024, Routes = 32,
     Tcpsegs = 16, Socks = 100000, Pipes = 10000, Mfspgs = 0, Blocks = 100000\<rparr>"

definition AddInt64 :: "int \<Rightarrow> int \<Rightarrow> int" where
  "AddInt64 s n = i64 (s + n)"

definition Given :: "int \<Rightarrow> nat \<Rightarrow> int go" where
  "Given s u = (let n = i64 (int u) in
     if n < 0 then Panic ''too mighty'' else Ok (AddInt64 s n))"

definition Taken :: "int \<Rightarrow> nat \<Rightarrow> (bool \<times> int) go" where
  "Taken s u = (let n = i64 (int u) in
     if n < 0 then Panic ''too mighty''
     else let g = AddInt64 s (- n) in
       if g \<ge> 0 then Ok (True, g) else Ok (False, AddInt64 g n))"

definition Take :: "int \<Rightarrow> (bool \<times> int) go" where
  "Take s = Taken s 1"

definition Give :: "int \<Rightarrow> int go" where
  "Give s = Given s 1"

lemma Given_eq:
  "int u < 2 ^ 63 \<Longrightarrow> 0 \<le> s \<Longrightarrow> s + int u < 2 ^ 63 \<Longrightarrow> Given s u = Ok (s + int u)"
  by (simp add: Given_def AddInt64_def i64_id)

lemma Taken_eq:
  "int u < 2 ^ 63 \<Longrightarrow> 0 \<le> s \<Longrightarrow> s < 2 ^ 63 \<Longrightarrow>
   Taken s u = Ok (if int u \<le> s then (True, s - int u) else (False, s))"
  by (simp add: Taken_def AddInt64_def i64_id)

text \<open>A counter given back what was taken from it is the counter it was.\<close>

lemma Taken_Given:
  assumes "int u < 2 ^ 63" "0 \<le> s" "s < 2 ^ 63" "Taken s u = Ok (True, s')"
  shows "Given s' u = Ok s"
  using assms Taken_eq [of u s] Given_eq [of u s'] by (simp split: if_splits)

subsection \<open>Interleaved calls\<close>

text \<open>
  \<open>cnt\<close> is the counter's memory cell, \<open>held\<close> what the callers that got \<open>true\<close> have taken and not
  given back, \<open>inflight\<close> the amounts that failed calls have subtracted and not yet added back.
  A call whose subtraction would leave the 64-bit range is excluded: it would need \<open>2\<^sup>6\<^sup>3\<close> units in
  flight.
\<close>

record lim_state =
  cnt :: int
  held :: int
  inflight :: "int multiset"

inductive lim_step :: "lim_state \<Rightarrow> lim_state \<Rightarrow> bool" where
  take_granted:
    "0 \<le> n \<Longrightarrow> in_i64 (cnt s - n) \<Longrightarrow> g = AddInt64 (cnt s) (- n) \<Longrightarrow> g \<ge> 0 \<Longrightarrow>
     lim_step s (s\<lparr>cnt := g, held := held s + n\<rparr>)"
| take_subtracted:
    "0 \<le> n \<Longrightarrow> in_i64 (cnt s - n) \<Longrightarrow> g = AddInt64 (cnt s) (- n) \<Longrightarrow> g < 0 \<Longrightarrow>
     lim_step s (s\<lparr>cnt := g, inflight := add_mset n (inflight s)\<rparr>)"
| take_refused:
    "n \<in># inflight s \<Longrightarrow>
     lim_step s (s\<lparr>cnt := AddInt64 (cnt s) n, inflight := inflight s - {#n#}\<rparr>)"
| give_back:
    "0 \<le> n \<Longrightarrow> n \<le> held s \<Longrightarrow>
     lim_step s (s\<lparr>cnt := AddInt64 (cnt s) n, held := held s - n\<rparr>)"

inductive lim_reach :: "int \<Rightarrow> lim_state \<Rightarrow> bool" for L where
  lim_start: "lim_reach L \<lparr>cnt = L, held = 0, inflight = {#}\<rparr>"
| lim_next: "lim_reach L s \<Longrightarrow> lim_step s t \<Longrightarrow> lim_reach L t"

definition lim_inv :: "int \<Rightarrow> lim_state \<Rightarrow> bool" where
  "lim_inv L s \<longleftrightarrow> cnt s + held s + sum_mset (inflight s) = L \<and> 0 \<le> held s \<and> held s \<le> L \<and>
     - (2 ^ 63) \<le> cnt s \<and> (\<forall>n \<in># inflight s. 0 \<le> n)"

lemma sum_mset_nonneg: "(\<forall>n \<in># M. (0::int) \<le> n) \<Longrightarrow> 0 \<le> sum_mset M"
  by (induction M) auto

lemma sum_mset_member: "n \<in># M \<Longrightarrow> (\<forall>n \<in># M. (0::int) \<le> n) \<Longrightarrow> n \<le> sum_mset M"
  using sum_mset_nonneg [of "M - {#n#}"] by (auto dest!: multi_member_split)

lemma lim_step_inv:
  assumes "lim_step s t" "lim_inv L s" "L < 2 ^ 63"
  shows "lim_inv L t"
  using assms
proof (induction rule: lim_step.induct)
  case (take_granted n s g)
  then have "0 \<le> sum_mset (inflight s)" by (intro sum_mset_nonneg) (simp add: lim_inv_def)
  with take_granted show ?case by (simp add: lim_inv_def AddInt64_def i64_id)
next
  case (take_subtracted n s g)
  then show ?case by (auto simp: lim_inv_def AddInt64_def i64_id)
next
  case (take_refused n s)
  have "0 \<le> n" "n \<le> sum_mset (inflight s)"
    using take_refused sum_mset_member by (auto simp: lim_inv_def)
  then have "i64 (cnt s + n) = cnt s + n"
    using take_refused.prems by (intro i64_id) (auto simp: lim_inv_def)
  then show ?case using take_refused \<open>0 \<le> n\<close>
    by (auto simp: lim_inv_def AddInt64_def sum_mset_diff dest: in_diffD)
next
  case (give_back n s)
  have "0 \<le> sum_mset (inflight s)"
    using give_back by (intro sum_mset_nonneg) (simp add: lim_inv_def)
  then have "i64 (cnt s + n) = cnt s + n"
    using give_back by (intro i64_id) (auto simp: lim_inv_def)
  then show ?case using give_back by (auto simp: lim_inv_def AddInt64_def)
qed

lemma lim_reach_inv:
  assumes "lim_reach L s" "0 \<le> L" "L < 2 ^ 63"
  shows "lim_inv L s"
  using assms
proof (induction rule: lim_reach.induct)
  case lim_start
  then show ?case by (simp add: lim_inv_def)
next
  case (lim_next s t)
  then show ?case by (blast intro: lim_step_inv)
qed

text \<open>An uninterrupted call of \<open>Taken\<close> or \<open>Given\<close> is a run of these steps.\<close>

lemma Taken_steps:
  assumes "Taken (cnt s) u = Ok (ok, c)" "in_i64 (cnt s - int u)" "int u < 2 ^ 63"
  shows "if ok then lim_step s (s\<lparr>cnt := c, held := held s + int u\<rparr>)
    else (lim_step OO lim_step) s (s\<lparr>cnt := c\<rparr>)"
proof -
  let ?g = "AddInt64 (cnt s) (- int u)"
  have u: "i64 (int u) = int u" using assms(3) by (simp add: i64_id)
  show ?thesis
  proof (cases "?g \<ge> 0")
    case True
    then show ?thesis using assms(1,2) u take_granted [of "int u" s ?g] by (auto simp: Taken_def Let_def)
  next
    case False
    let ?t = "s\<lparr>cnt := ?g, inflight := add_mset (int u) (inflight s)\<rparr>"
    have "lim_step s ?t" using False assms(2) by (intro take_subtracted) auto
    moreover have "lim_step ?t (s\<lparr>cnt := AddInt64 ?g (int u)\<rparr>)" using take_refused [of "int u" ?t] by simp
    ultimately show ?thesis using False assms(1) u by (auto simp: Taken_def Let_def)
  qed
qed

lemma Given_step:
  assumes "Given (cnt s) u = Ok c" "int u \<le> held s" "int u < 2 ^ 63"
  shows "lim_step s (s\<lparr>cnt := c, held := held s - int u\<rparr>)"
  using assms give_back [of "int u" s] by (auto simp: Given_def Let_def i64_id split: if_splits)

subsection \<open>Properties\<close>



end
