(* ===== verification/Hashtable.thy ===== *)
theory Hashtable
  imports Paths
begin

text \<open>
  \<^verbatim>\<open>biscuit/src/hashtable/hashtable.go\<close>: the chained hash table behind the block cache, the inode
  cache and the directory cache.

  Keys are dynamically typed (\<open>interface{}\<close>): \<open>hkey\<close> has one constructor per supported type and
  \<open>KOther\<close> for every other.  A chain of elements is the list of its nodes in pointer order, kept
  sorted by key hash.  Bucket locks are not part of the state: each operation is one critical
  section.  \<open>Get\<close> updates \<open>maxchain\<close>, so it returns the table too.
\<close>

datatype hkey = KUstr ustr | KInt int | KInt32 int | KString "byte list" | KOther nat

type_synonym hash32 = "32 word"

unbundle bit_operations_syntax

subsection \<open>Hashing and comparing keys\<close>

text \<open>FNV-1a over bytes (\<open>hash/fnv\<close>, \<open>New32a\<close>).\<close>

definition fnv32a :: "byte list \<Rightarrow> hash32" where
  "fnv32a bs = foldl (\<lambda>h b. (h XOR ucast b) * 16777619) 2166136261 bs"

definition hashUstr :: "ustr \<Rightarrow> hash32" where "hashUstr s = fnv32a s"

definition hashString :: "byte list \<Rightarrow> hash32" where "hashString s = fnv32a s"

fun hash_key :: "hkey \<Rightarrow> hash32 go" where
  "hash_key (KUstr x) = Ok (hashUstr x)"
| "hash_key (KInt x) = Ok (word_of_int x)"
| "hash_key (KInt32 x) = Ok (word_of_int x)"
| "hash_key (KString x) = Ok (hashString x)"
| "hash_key (KOther t) = Panic ''unsupported key type''"

definition khash :: "hkey \<Rightarrow> hash32 go" where
  "khash key = gbind (hash_key key) (\<lambda>h. Ok (2654435761 * h))"

fun equal_key :: "hkey \<Rightarrow> hkey \<Rightarrow> bool go" where
  "equal_key (KUstr us1) key2 =
     (case key2 of KUstr us2 \<Rightarrow> Ok (Ustr_Eq us1 us2) | _ \<Rightarrow> Panic ''interface conversion'')"
| "equal_key (KInt32 n1) key2 =
     (case key2 of KInt32 n2 \<Rightarrow> Ok (n1 = n2) | _ \<Rightarrow> Panic ''interface conversion'')"
| "equal_key (KInt n1) key2 =
     (case key2 of KInt n2 \<Rightarrow> Ok (n1 = n2) | _ \<Rightarrow> Panic ''interface conversion'')"
| "equal_key (KString s1) key2 =
     (case key2 of KString s2 \<Rightarrow> Ok (s1 = s2) | _ \<Rightarrow> Panic ''interface conversion'')"
| "equal_key (KOther t) key2 = Panic ''unsupported key type''"

subsection \<open>The table\<close>

record 'v elem_t =
  ekey :: hkey
  evalue :: 'v
  keyHash :: hash32

type_synonym 'v bucket_t = "'v elem_t list"

record 'v hashtable_t =
  table :: "'v bucket_t list"
  capacity :: int
  maxchain :: int

definition bucket_len :: "'v bucket_t \<Rightarrow> int" where
  "bucket_len b = int (length b)"

definition bucket_elems :: "'v bucket_t \<Rightarrow> (hkey \<times> 'v) list" where
  "bucket_elems b = map (\<lambda>e. (ekey e, evalue e)) b"

fun bucket_iter :: "(hkey \<Rightarrow> 'v \<Rightarrow> bool) \<Rightarrow> 'v bucket_t \<Rightarrow> bool" where
  "bucket_iter f [] = False"
| "bucket_iter f (e # es) = (if f (ekey e) (evalue e) then True else bucket_iter f es)"

definition MkHash :: "int \<Rightarrow> 'v hashtable_t go" where
  "MkHash sz = (if sz < 0 then Panic ''makeslice: len out of range''
     else Ok \<lparr>table = replicate (nat sz) [], capacity = sz, maxchain = 1\<rparr>)"

definition Size :: "'v hashtable_t \<Rightarrow> int" where
  "Size ht = foldl (\<lambda>n b. n + bucket_len b) 0 (table ht)"

definition Elems :: "'v hashtable_t \<Rightarrow> (hkey \<times> 'v) list" where
  "Elems ht = foldl (\<lambda>p b. p @ bucket_elems b) [] (table ht)"

definition bucket_of :: "'v hashtable_t \<Rightarrow> hash32 \<Rightarrow> nat go" where
  "bucket_of ht kh =
     (let m = (of_nat (length (table ht)) :: hash32) in
      if m = 0 then Panic ''integer divide by zero'' else Ok (unat (kh mod m)))"

text \<open>\<open>e.keyHash == kh && equal(e.key, key)\<close>: the comparison runs only when the hashes agree.\<close>

definition elem_match :: "'v elem_t \<Rightarrow> hash32 \<Rightarrow> hkey \<Rightarrow> bool go" where
  "elem_match e kh key = (if keyHash e = kh then equal_key (ekey e) key else Ok False)"

fun Get_loop :: "hkey \<Rightarrow> hash32 \<Rightarrow> int \<Rightarrow> int \<Rightarrow> 'v bucket_t \<Rightarrow> ('v option \<times> int) go" where
  "Get_loop key kh n mc [] = Ok (None, mc)"
| "Get_loop key kh n mc (e # es) =
     gbind (elem_match e kh key) (\<lambda>m.
       if m then Ok (Some (evalue e), mc)
       else Get_loop key kh (n + 1) (if n + 1 > mc then n + 1 else mc) es)"

definition Get :: "'v hashtable_t \<Rightarrow> hkey \<Rightarrow> ('v option \<times> 'v hashtable_t) go" where
  "Get ht key =
     gbind (khash key) (\<lambda>kh.
     gbind (bucket_of ht kh) (\<lambda>i.
     gbind (Get_loop key kh 0 (maxchain ht) (table ht ! i)) (\<lambda>(r, mc).
       Ok (r, ht\<lparr>maxchain := mc\<rparr>))))"

definition GetRLock :: "'v hashtable_t \<Rightarrow> hkey \<Rightarrow> ('v option \<times> 'v hashtable_t) go" where
  "GetRLock ht key =
     gbind (khash key) (\<lambda>kh.
     gbind (bucket_of ht kh) (\<lambda>i.
     gbind (Get_loop key kh 0 (maxchain ht) (table ht ! i)) (\<lambda>(r, mc).
       Ok (r, ht\<lparr>maxchain := mc\<rparr>))))"

text \<open>
  The walk of \<open>Set\<close>: it returns the chain with the new node linked in before the first node of
  a larger hash, or at the end, and the result \<open>(value, inserted)\<close>.
\<close>

fun Set_loop :: "hkey \<Rightarrow> 'v \<Rightarrow> hash32 \<Rightarrow> 'v bucket_t \<Rightarrow> ('v bucket_t \<times> 'v \<times> bool) go" where
  "Set_loop key val kh [] = Ok ([\<lparr>ekey = key, evalue = val, keyHash = kh\<rparr>], val, True)"
| "Set_loop key val kh (e # es) =
     gbind (elem_match e kh key) (\<lambda>m.
       if m then Ok (e # es, evalue e, False)
       else if kh < keyHash e
         then Ok (\<lparr>ekey = key, evalue = val, keyHash = kh\<rparr> # e # es, val, True)
         else gbind (Set_loop key val kh es) (\<lambda>(es', r, ins). Ok (e # es', r, ins)))"

definition Set :: "'v hashtable_t \<Rightarrow> hkey \<Rightarrow> 'v \<Rightarrow> ('v \<times> bool \<times> 'v hashtable_t) go" where
  "Set ht key val =
     gbind (khash key) (\<lambda>kh.
     gbind (bucket_of ht kh) (\<lambda>i.
     gbind (Set_loop key val kh (table ht ! i)) (\<lambda>(b, r, ins).
       Ok (r, ins, ht\<lparr>table := (table ht)[i := b]\<rparr>))))"

fun Del_loop :: "hkey \<Rightarrow> hash32 \<Rightarrow> 'v bucket_t \<Rightarrow> 'v bucket_t go" where
  "Del_loop key kh [] = Panic ''del of non-existing key''"
| "Del_loop key kh (e # es) =
     gbind (elem_match e kh key) (\<lambda>m.
       if m then Ok es
       else if kh < keyHash e then Panic ''del of non-existing key''
       else gbind (Del_loop key kh es) (\<lambda>es'. Ok (e # es')))"

definition Del :: "'v hashtable_t \<Rightarrow> hkey \<Rightarrow> 'v hashtable_t go" where
  "Del ht key =
     gbind (khash key) (\<lambda>kh.
     gbind (bucket_of ht kh) (\<lambda>i.
     gbind (Del_loop key kh (table ht ! i)) (\<lambda>b.
       Ok (ht\<lparr>table := (table ht)[i := b]\<rparr>))))"

fun Iter_buckets :: "(hkey \<Rightarrow> 'v \<Rightarrow> bool) \<Rightarrow> 'v bucket_t list \<Rightarrow> bool" where
  "Iter_buckets f [] = False"
| "Iter_buckets f (b # bs) = (if bucket_iter f b then True else Iter_buckets f bs)"

definition Iter :: "'v hashtable_t \<Rightarrow> (hkey \<Rightarrow> 'v \<Rightarrow> bool) \<Rightarrow> bool" where
  "Iter ht f = Iter_buckets f (table ht)"

subsection \<open>Kinds of keys\<close>

text \<open>A table is used with keys of one dynamic type; the type is the table's kind.\<close>

datatype kind = UstrKind | IntKind | Int32Kind | StringKind

fun kind_of :: "hkey \<Rightarrow> kind option" where
  "kind_of (KUstr _) = Some UstrKind"
| "kind_of (KInt _) = Some IntKind"
| "kind_of (KInt32 _) = Some Int32Kind"
| "kind_of (KString _) = Some StringKind"
| "kind_of (KOther _) = None"

definition hash_of :: "hkey \<Rightarrow> hash32" where
  "hash_of k = (case khash k of Ok h \<Rightarrow> h | Panic _ \<Rightarrow> 0)"

lemma khash_kind: "kind_of k = Some kd \<Longrightarrow> khash k = Ok (hash_of k)"
  by (cases k) (auto simp: khash_def hash_of_def)

lemma equal_key_kind: "kind_of a = Some kd \<Longrightarrow> kind_of b = Some kd \<Longrightarrow> equal_key a b = Ok (a = b)"
  by (cases a; cases b) auto

subsection \<open>The invariant and the map a table stands for\<close>

definition bucket_inv :: "kind \<Rightarrow> 'v bucket_t \<Rightarrow> bool" where
  "bucket_inv kd b \<longleftrightarrow> sorted (map keyHash b) \<and> distinct (map ekey b) \<and>
     (\<forall>e \<in> set b. kind_of (ekey e) = Some kd \<and> keyHash e = hash_of (ekey e))"

definition bucket_map :: "'v bucket_t \<Rightarrow> hkey \<Rightarrow> 'v option" where
  "bucket_map b = map_of (bucket_elems b)"

definition slot :: "'v hashtable_t \<Rightarrow> hkey \<Rightarrow> nat" where
  "slot ht k = unat (hash_of k mod of_nat (length (table ht)))"

definition ht_inv :: "kind \<Rightarrow> 'v hashtable_t \<Rightarrow> bool" where
  "ht_inv kd ht \<longleftrightarrow> 0 < length (table ht) \<and> length (table ht) < 2 ^ 32 \<and>
     (\<forall>i < length (table ht). bucket_inv kd (table ht ! i) \<and>
        (\<forall>e \<in> set (table ht ! i). slot ht (ekey e) = i))"

definition ht_lookup :: "'v hashtable_t \<Rightarrow> hkey \<Rightarrow> 'v option" where
  "ht_lookup ht k = bucket_map (table ht ! slot ht k) k"

lemma bucket_map_simps [simp]:
  "bucket_map [] k = None"
  "bucket_map (e # b) k = (if ekey e = k then Some (evalue e) else bucket_map b k)"
  by (simp_all add: bucket_map_def bucket_elems_def)

lemma bucket_map_None_iff: "bucket_map b k = None \<longleftrightarrow> k \<notin> ekey ` set b"
  by (induction b) auto

lemma bucket_map_notin: "k \<notin> ekey ` set b \<Longrightarrow> bucket_map b k = None"
  by (simp add: bucket_map_None_iff)

lemma elem_match_inv:
  assumes "kind_of k = Some kd" "kind_of (ekey e) = Some kd" "keyHash e = hash_of (ekey e)"
  shows "elem_match e (hash_of k) k = Ok (ekey e = k)"
  using assms by (auto simp: elem_match_def equal_key_kind)

lemma Get_loop_inv:
  assumes "kind_of k = Some kd"
  shows "bucket_inv kd b \<Longrightarrow> \<exists>mc'. Get_loop k (hash_of k) n mc b = Ok (bucket_map b k, mc') \<and> mc \<le> mc'"
proof (induction b arbitrary: n mc)
  case (Cons e b)
  have m: "elem_match e (hash_of k) k = Ok (ekey e = k)"
    using assms Cons.prems by (intro elem_match_inv) (auto simp: bucket_inv_def)
  have "bucket_inv kd b" using Cons.prems by (auto simp: bucket_inv_def)
  then obtain mc' where
      "Get_loop k (hash_of k) (n + 1) (if n + 1 > mc then n + 1 else mc) b = Ok (bucket_map b k, mc')"
      "(if n + 1 > mc then n + 1 else mc) \<le> mc'"
    using Cons.IH by blast
  then show ?case using m by (auto split: if_splits)
qed simp

lemma Set_loop_absent:
  assumes "kind_of k = Some kd"
  shows "bucket_inv kd b \<Longrightarrow> k \<notin> ekey ` set b \<Longrightarrow>
    \<exists>b'. Set_loop k v (hash_of k) b = Ok (b', v, True) \<and> bucket_inv kd b' \<and>
      set b' = insert \<lparr>ekey = k, evalue = v, keyHash = hash_of k\<rparr> (set b) \<and>
      bucket_map b' = (bucket_map b)(k \<mapsto> v)"
proof (induction b)
  case (Cons e b)
  have m: "elem_match e (hash_of k) k = Ok False"
    using assms Cons.prems elem_match_inv [of k kd e] by (auto simp: bucket_inv_def)
  have inv: "bucket_inv kd b" using Cons.prems by (auto simp: bucket_inv_def)
  show ?case
  proof (cases "hash_of k < keyHash e")
    case True
    then have "\<forall>x \<in> set (e # b). hash_of k \<le> keyHash x" using Cons.prems by (auto simp: bucket_inv_def)
    then show ?thesis using True m assms Cons.prems
      by (fastforce simp: bucket_inv_def)
  next
    case False
    obtain b' where b': "Set_loop k v (hash_of k) b = Ok (b', v, True)" "bucket_inv kd b'"
        "set b' = insert \<lparr>ekey = k, evalue = v, keyHash = hash_of k\<rparr> (set b)"
        "bucket_map b' = (bucket_map b)(k \<mapsto> v)"
      using Cons.IH [OF inv] Cons.prems(2) by (metis image_insert insertCI list.simps(15))
    have "bucket_inv kd (e # b')" using b' False Cons.prems by (force simp: bucket_inv_def)
    then show ?thesis using False m b' Cons.prems by (auto simp: fun_eq_iff)
  qed
qed (use assms in \<open>auto simp: bucket_inv_def fun_eq_iff\<close>)

lemma Set_loop_present:
  assumes "kind_of k = Some kd"
  shows "bucket_inv kd b \<Longrightarrow> bucket_map b k = Some w \<Longrightarrow> Set_loop k v (hash_of k) b = Ok (b, w, False)"
proof (induction b)
  case (Cons e b)
  have m: "elem_match e (hash_of k) k = Ok (ekey e = k)"
    using assms Cons.prems by (intro elem_match_inv) (auto simp: bucket_inv_def)
  have inv: "bucket_inv kd b" using Cons.prems by (auto simp: bucket_inv_def)
  show ?case
  proof (cases "ekey e = k")
    case True
    then show ?thesis using m Cons.prems by simp
  next
    case False
    then have b: "bucket_map b k = Some w" using Cons.prems by simp
    then obtain x where "x \<in> set b" "ekey x = k" using bucket_map_notin [of k b] by force
    then have "\<not> hash_of k < keyHash e" using Cons.prems by (auto simp: bucket_inv_def)
    then show ?thesis using m False Cons.IH [OF inv b] by simp
  qed
qed simp

lemma Del_loop_present:
  assumes "kind_of k = Some kd"
  shows "bucket_inv kd b \<Longrightarrow> bucket_map b k = Some w \<Longrightarrow>
    \<exists>b'. Del_loop k (hash_of k) b = Ok b' \<and> bucket_inv kd b' \<and> set b' \<subseteq> set b \<and>
      bucket_map b' = (bucket_map b)(k := None)"
proof (induction b)
  case (Cons e b)
  have m: "elem_match e (hash_of k) k = Ok (ekey e = k)"
    using assms Cons.prems by (intro elem_match_inv) (auto simp: bucket_inv_def)
  have inv: "bucket_inv kd b" using Cons.prems by (auto simp: bucket_inv_def)
  show ?case
  proof (cases "ekey e = k")
    case True
    then have "bucket_map b k = None" using Cons.prems by (intro bucket_map_notin) (auto simp: bucket_inv_def)
    then show ?thesis using True m inv by (auto simp: fun_eq_iff)
  next
    case False
    then have b: "bucket_map b k = Some w" using Cons.prems by simp
    then obtain x where "x \<in> set b" "ekey x = k" using bucket_map_notin [of k b] by force
    then have nlt: "\<not> hash_of k < keyHash e" using Cons.prems by (auto simp: bucket_inv_def)
    obtain b' where b': "Del_loop k (hash_of k) b = Ok b'" "bucket_inv kd b'" "set b' \<subseteq> set b"
        "bucket_map b' = (bucket_map b)(k := None)"
      using Cons.IH [OF inv b] by blast
    have "bucket_inv kd (e # b')" using b' Cons.prems by (auto simp: bucket_inv_def)
    then show ?thesis using m False nlt b' by (auto simp: fun_eq_iff)
  qed
qed simp

lemma Del_loop_absent:
  assumes "kind_of k = Some kd"
  shows "bucket_inv kd b \<Longrightarrow> bucket_map b k = None \<Longrightarrow>
    Del_loop k (hash_of k) b = Panic ''del of non-existing key''"
proof (induction b)
  case (Cons e b)
  have "elem_match e (hash_of k) k = Ok False"
    using assms Cons.prems elem_match_inv [of k kd e] by (auto simp: bucket_inv_def split: if_splits)
  moreover have "bucket_inv kd b" "bucket_map b k = None"
    using Cons.prems by (auto simp: bucket_inv_def split: if_splits)
  ultimately show ?case using Cons.IH by simp
qed simp


subsection \<open>The operations refine a partial map\<close>

lemma slot_bound: "ht_inv kd ht \<Longrightarrow> slot ht k < length (table ht)"
proof -
  assume inv: "ht_inv kd ht"
  have u: "unat (of_nat (length (table ht)) :: hash32) = length (table ht)"
    using inv by (simp add: ht_inv_def unat_of_nat)
  have "unat (hash_of k mod of_nat (length (table ht))) =
      unat (hash_of k) mod unat (of_nat (length (table ht)) :: hash32)"
    by (rule unat_mod_distrib)
  then show ?thesis using inv u by (simp add: slot_def ht_inv_def)
qed

lemma bucket_of_slot:
  assumes "ht_inv kd ht"
  shows "bucket_of ht (hash_of k) = Ok (slot ht k)"
proof -
  have "(of_nat (length (table ht)) :: hash32) \<noteq> 0"
    using assms by (simp add: ht_inv_def word_of_nat_eq_0_iff nat_dvd_not_less)
  then show ?thesis by (simp add: bucket_of_def slot_def Let_def)
qed

lemma slot_upd [simp]:
  "slot (ht\<lparr>table := (table ht)[i := b]\<rparr>) k = slot ht k" "slot (ht\<lparr>maxchain := mc\<rparr>) k = slot ht k"
  by (simp_all add: slot_def)

lemma ht_inv_maxchain [simp]: "ht_inv kd (ht\<lparr>maxchain := mc\<rparr>) = ht_inv kd ht"
  by (simp add: ht_inv_def)

lemma ht_lookup_maxchain [simp]: "ht_lookup (ht\<lparr>maxchain := mc\<rparr>) = ht_lookup ht"
  by (simp add: ht_lookup_def fun_eq_iff)

text \<open>Replacing the bucket of \<open>k\<close> by one that differs only at \<open>k\<close> updates the map at \<open>k\<close>.\<close>

lemma ht_update_bucket:
  assumes inv: "ht_inv kd ht" and b: "bucket_inv kd b" "\<forall>e \<in> set b. ekey e = k \<or> e \<in> set (table ht ! slot ht k)"
    and m: "bucket_map b = (bucket_map (table ht ! slot ht k))(k := r)"
  defines "ht' \<equiv> ht\<lparr>table := (table ht)[slot ht k := b]\<rparr>"
  shows "ht_inv kd ht'" "ht_lookup ht' = (ht_lookup ht)(k := r)"
proof -
  have bnd: "slot ht k < length (table ht)" using inv by (rule slot_bound)
  show "ht_inv kd ht'" using inv b bnd unfolding ht_inv_def ht'_def
    by (auto simp: nth_list_update)
  show "ht_lookup ht' = (ht_lookup ht)(k := r)"
  proof
    fix j
    show "ht_lookup ht' j = ((ht_lookup ht)(k := r)) j"
      using m bnd by (cases "slot ht j = slot ht k") (auto simp: ht_lookup_def ht'_def)
  qed
qed

lemma Get_refines:
  assumes "ht_inv kd ht" "kind_of k = Some kd"
  shows "\<exists>ht'. Get ht k = Ok (ht_lookup ht k, ht') \<and> ht_inv kd ht' \<and> ht_lookup ht' = ht_lookup ht"
proof -
  have "bucket_inv kd (table ht ! slot ht k)"
    using assms(1) slot_bound [OF assms(1)] by (simp add: ht_inv_def)
  then obtain mc' where "Get_loop k (hash_of k) 0 (maxchain ht) (table ht ! slot ht k) =
      Ok (bucket_map (table ht ! slot ht k) k, mc')"
    using Get_loop_inv [OF assms(2)] by blast
  then show ?thesis using assms
    by (simp add: Get_def khash_kind bucket_of_slot ht_lookup_def)
qed

lemma Set_refines_absent:
  assumes "ht_inv kd ht" "kind_of k = Some kd" "ht_lookup ht k = None"
  shows "\<exists>ht'. Set ht k v = Ok (v, True, ht') \<and> ht_inv kd ht' \<and> ht_lookup ht' = (ht_lookup ht)(k \<mapsto> v)"
proof -
  let ?b = "table ht ! slot ht k"
  have inv: "bucket_inv kd ?b" using assms(1) slot_bound [OF assms(1)] by (simp add: ht_inv_def)
  have "k \<notin> ekey ` set ?b"
    using assms(3) by (simp add: ht_lookup_def bucket_map_None_iff)
  then obtain b' where b': "Set_loop k v (hash_of k) ?b = Ok (b', v, True)" "bucket_inv kd b'"
      "set b' = insert \<lparr>ekey = k, evalue = v, keyHash = hash_of k\<rparr> (set ?b)"
      "bucket_map b' = (bucket_map ?b)(k \<mapsto> v)"
    using Set_loop_absent [OF assms(2) inv] by blast
  have "\<forall>e \<in> set b'. ekey e = k \<or> e \<in> set ?b" using b'(3) by auto
  from ht_update_bucket [OF assms(1) b'(2) this b'(4)] show ?thesis
    using assms(1,2) b'(1) by (simp add: Set_def khash_kind bucket_of_slot)
qed

lemma Set_refines_present:
  assumes "ht_inv kd ht" "kind_of k = Some kd" "ht_lookup ht k = Some w"
  shows "Set ht k v = Ok (w, False, ht)"
proof -
  let ?b = "table ht ! slot ht k"
  have inv: "bucket_inv kd ?b" using assms(1) slot_bound [OF assms(1)] by (simp add: ht_inv_def)
  have "Set_loop k v (hash_of k) ?b = Ok (?b, w, False)"
    using Set_loop_present [OF assms(2) inv] assms(3) by (simp add: ht_lookup_def)
  then show ?thesis using assms(1,2) by (simp add: Set_def khash_kind bucket_of_slot)
qed

lemma Del_refines_present:
  assumes "ht_inv kd ht" "kind_of k = Some kd" "ht_lookup ht k = Some w"
  shows "\<exists>ht'. Del ht k = Ok ht' \<and> ht_inv kd ht' \<and> ht_lookup ht' = (ht_lookup ht)(k := None)"
proof -
  let ?b = "table ht ! slot ht k"
  have inv: "bucket_inv kd ?b" using assms(1) slot_bound [OF assms(1)] by (simp add: ht_inv_def)
  obtain b' where b': "Del_loop k (hash_of k) ?b = Ok b'" "bucket_inv kd b'" "set b' \<subseteq> set ?b"
      "bucket_map b' = (bucket_map ?b)(k := None)"
    using Del_loop_present [OF assms(2) inv] assms(3) by (auto simp: ht_lookup_def)
  have "\<forall>e \<in> set b'. ekey e = k \<or> e \<in> set ?b" using b'(3) by auto
  from ht_update_bucket [OF assms(1) b'(2) this b'(4)] show ?thesis
    using assms(1,2) b'(1) by (simp add: Del_def khash_kind bucket_of_slot)
qed

lemma Del_refines_absent:
  assumes "ht_inv kd ht" "kind_of k = Some kd" "ht_lookup ht k = None"
  shows "Del ht k = Panic ''del of non-existing key''"
proof -
  let ?b = "table ht ! slot ht k"
  have inv: "bucket_inv kd ?b" using assms(1) slot_bound [OF assms(1)] by (simp add: ht_inv_def)
  have "Del_loop k (hash_of k) ?b = Panic ''del of non-existing key''"
    using Del_loop_absent [OF assms(2) inv] assms(3) by (simp add: ht_lookup_def)
  then show ?thesis using assms(1,2) by (simp add: Del_def khash_kind bucket_of_slot)
qed

lemma MkHash_inv:
  assumes "0 < sz" "sz < 2 ^ 32"
  shows "\<exists>ht :: 'v hashtable_t. MkHash sz = Ok ht \<and> ht_inv kd ht \<and> ht_lookup ht = Map.empty"
proof -
  let ?ht = "\<lparr>table = replicate (nat sz) [], capacity = sz, maxchain = 1\<rparr> :: 'v hashtable_t"
  have inv: "ht_inv kd ?ht" using assms by (auto simp: ht_inv_def bucket_inv_def)
  have "ht_lookup ?ht k = None" for k
    using slot_bound [OF inv, of k] by (simp add: ht_lookup_def)
  then have "ht_lookup ?ht = Map.empty" by (simp add: fun_eq_iff)
  with inv show ?thesis using assms by (auto simp: MkHash_def)
qed

lemma Elems_concat: "Elems ht = concat (map bucket_elems (table ht))"
proof -
  have "foldl (\<lambda>p b. p @ bucket_elems b) p bs = p @ concat (map bucket_elems bs)"
    for p and bs :: "'v bucket_t list"
    by (induction bs arbitrary: p) auto
  from this [of "[]"] show ?thesis by (simp add: Elems_def)
qed

lemma Size_Elems: "Size (ht :: 'v hashtable_t) = int (length (Elems ht))"
proof -
  have "foldl (\<lambda>n b. n + bucket_len b) n bs = n + int (sum_list (map length bs))"
    for n and bs :: "'v bucket_t list"
    by (induction bs arbitrary: n) (simp_all add: bucket_len_def)
  then show ?thesis by (simp add: Size_def Elems_concat length_concat bucket_elems_def comp_def)
qed

text \<open>\<open>Elems\<close> lists exactly the bindings of the map, so \<open>Iter\<close> finds a binding that satisfies \<open>f\<close> iff there is one.\<close>

lemma Elems_lookup:
  assumes "ht_inv kd ht"
  shows "(k, v) \<in> set (Elems ht) \<longleftrightarrow> ht_lookup ht k = Some v"
proof
  assume "(k, v) \<in> set (Elems ht)"
  then obtain i where i: "i < length (table ht)" "(k, v) \<in> set (bucket_elems (table ht ! i))"
    by (auto simp: Elems_concat) (metis in_set_conv_nth)
  then have "slot ht k = i" "distinct (map ekey (table ht ! i))"
    using assms by (auto simp: ht_inv_def bucket_inv_def bucket_elems_def)
  then show "ht_lookup ht k = Some v"
    using i(2) by (auto simp: ht_lookup_def bucket_map_def bucket_elems_def comp_def intro!: map_of_is_SomeI)
next
  assume "ht_lookup ht k = Some v"
  then have "(k, v) \<in> set (bucket_elems (table ht ! slot ht k))"
    by (auto simp: ht_lookup_def bucket_map_def dest: map_of_SomeD)
  then show "(k, v) \<in> set (Elems ht)" using slot_bound [OF assms] by (auto simp: Elems_concat)
qed

lemma Iter_Elems: "Iter ht f \<longleftrightarrow> (\<exists>(k, v) \<in> set (Elems ht). f k v)"
proof -
  have it: "bucket_iter f b \<longleftrightarrow> (\<exists>(k, v) \<in> set (bucket_elems b). f k v)" for b
    by (induction b) (auto simp: bucket_elems_def)
  have "Iter_buckets f bs \<longleftrightarrow> (\<exists>b \<in> set bs. bucket_iter f b)" for bs
    by (induction bs) auto
  then show ?thesis by (auto simp: Iter_def Elems_concat it)
qed

subsection \<open>The interface the caches rely on\<close>

text \<open>
  A client's sequence of calls, run on a table through its operations and run on the partial map
  that specifies it.  A panic ends the run.
\<close>

datatype ('k, 'v) kv_op = KGet 'k | KSet 'k 'v | KDel 'k

datatype 'v kv_res = RGet "'v option" | RSet 'v bool | RDel

fun kv_exec :: "('m \<Rightarrow> 'k \<Rightarrow> ('v option \<times> 'm) go) \<Rightarrow> ('m \<Rightarrow> 'k \<Rightarrow> 'v \<Rightarrow> ('v \<times> bool \<times> 'm) go) \<Rightarrow>
    ('m \<Rightarrow> 'k \<Rightarrow> 'm go) \<Rightarrow> ('k, 'v) kv_op list \<Rightarrow> 'm \<Rightarrow> ('v kv_res list \<times> 'm) go" where
  "kv_exec g s d [] m = Ok ([], m)"
| "kv_exec g s d (KGet k # ops) m = gbind (g m k) (\<lambda>(r, m').
     gbind (kv_exec g s d ops m') (\<lambda>(rs, m''). Ok (RGet r # rs, m'')))"
| "kv_exec g s d (KSet k v # ops) m = gbind (s m k v) (\<lambda>(r, ins, m').
     gbind (kv_exec g s d ops m') (\<lambda>(rs, m''). Ok (RSet r ins # rs, m'')))"
| "kv_exec g s d (KDel k # ops) m = gbind (d m k) (\<lambda>m'.
     gbind (kv_exec g s d ops m') (\<lambda>(rs, m''). Ok (RDel # rs, m'')))"

fun kv_spec :: "('k, 'v) kv_op list \<Rightarrow> ('k \<rightharpoonup> 'v) \<Rightarrow> ('v kv_res list \<times> ('k \<rightharpoonup> 'v)) go" where
  "kv_spec [] f = Ok ([], f)"
| "kv_spec (KGet k # ops) f = gbind (kv_spec ops f) (\<lambda>(rs, f'). Ok (RGet (f k) # rs, f'))"
| "kv_spec (KSet k v # ops) f =
     (case f k of
        None \<Rightarrow> gbind (kv_spec ops (f(k \<mapsto> v))) (\<lambda>(rs, f'). Ok (RSet v True # rs, f'))
      | Some w \<Rightarrow> gbind (kv_spec ops f) (\<lambda>(rs, f'). Ok (RSet w False # rs, f')))"
| "kv_spec (KDel k # ops) f =
     (if f k = None then Panic ''del of non-existing key''
      else gbind (kv_spec ops (f(k := None))) (\<lambda>(rs, f'). Ok (RDel # rs, f')))"

fun kv_key :: "('k, 'v) kv_op \<Rightarrow> 'k" where
  "kv_key (KGet k) = k"
| "kv_key (KSet k v) = k"
| "kv_key (KDel k) = k"

lemma map_go_gbind: "map_go h (gbind m f) = gbind m (\<lambda>x. map_go h (f x))"
  by (cases m) auto

lemma gbind_map_go: "gbind (map_go h m) f = gbind m (\<lambda>x. f (h x))"
  by (cases m) auto

text \<open>
  The contract of the table for its clients: a partial map with an insertion that keeps an
  existing binding and a deletion that panics on a missing key.
\<close>

locale kv_table =
  fixes lkp :: "'m \<Rightarrow> 'k \<Rightarrow> 'v option"
    and get :: "'m \<Rightarrow> 'k \<Rightarrow> ('v option \<times> 'm) go"
    and set_new :: "'m \<Rightarrow> 'k \<Rightarrow> 'v \<Rightarrow> ('v \<times> bool \<times> 'm) go"
    and del :: "'m \<Rightarrow> 'k \<Rightarrow> 'm go"
    and inv :: "'m \<Rightarrow> bool"
    and kok :: "'k \<Rightarrow> bool"
  assumes get_law: "inv m \<Longrightarrow> kok k \<Longrightarrow> \<exists>m'. get m k = Ok (lkp m k, m') \<and> inv m' \<and> lkp m' = lkp m"
    and set_absent: "inv m \<Longrightarrow> kok k \<Longrightarrow> lkp m k = None \<Longrightarrow>
      \<exists>m'. set_new m k v = Ok (v, True, m') \<and> inv m' \<and> lkp m' = (lkp m)(k \<mapsto> v)"
    and set_present: "inv m \<Longrightarrow> kok k \<Longrightarrow> lkp m k = Some w \<Longrightarrow> set_new m k v = Ok (w, False, m)"
    and del_present: "inv m \<Longrightarrow> kok k \<Longrightarrow> lkp m k = Some w \<Longrightarrow>
      \<exists>m'. del m k = Ok m' \<and> inv m' \<and> lkp m' = (lkp m)(k := None)"
    and del_absent: "inv m \<Longrightarrow> kok k \<Longrightarrow> lkp m k = None \<Longrightarrow>
      del m k = Panic ''del of non-existing key''"
begin

lemma set_total: "inv m \<Longrightarrow> kok k \<Longrightarrow>
  \<exists>r ins m'. set_new m k v = Ok (r, ins, m') \<and> inv m' \<and> lkp m' k = Some r \<and>
    (\<forall>j. j \<noteq> k \<longrightarrow> lkp m' j = lkp m j) \<and> (ins \<longleftrightarrow> lkp m k = None)"
proof (cases "lkp m k")
  case None
  assume "inv m" "kok k"
  from set_absent [OF this None, of v] show ?thesis using None by force
next
  case (Some w)
  assume "inv m" "kok k"
  from set_present [OF this Some, of v] show ?thesis using Some \<open>inv m\<close>
    by (intro exI [of _ w] exI [of _ False] exI [of _ m]) simp
qed

lemma set_result:
  assumes "inv m" "kok k" "set_new m k v = Ok (r, ins, m')"
  shows "inv m'" "lkp m' k = Some r" "\<And>j. j \<noteq> k \<Longrightarrow> lkp m' j = lkp m j" "ins \<longleftrightarrow> lkp m k = None"
  using set_total [OF assms(1,2), of v] assms(3) by auto

lemma set_get:
  assumes "inv m" "kok k" "set_new m k v = Ok (r, ins, m')"
  shows "\<exists>m''. get m' k = Ok (Some r, m'') \<and> lkp m'' = lkp m'"
  using get_law [OF set_result(1) [OF assms] assms(2)] set_result(2) [OF assms] by auto

lemma set_twice:
  assumes "inv m" "kok k" "set_new m k v = Ok (r, ins, m')"
  shows "set_new m' k w = Ok (r, False, m')"
  using set_present [OF set_result(1) [OF assms] assms(2) set_result(2) [OF assms]] by simp

lemma del_get:
  assumes "inv m" "kok k" "del m k = Ok m'"
  shows "\<exists>m''. get m' k = Ok (None, m'') \<and> lkp m'' = lkp m'"
proof -
  have "lkp m k \<noteq> None" using del_absent [OF assms(1,2)] assms(3) by auto
  then have "inv m'" "lkp m' k = None" using del_present [OF assms(1,2)] assms(3) by auto
  then show ?thesis using get_law [of m' k] assms(2) by auto
qed

lemma set_del:
  assumes "inv m" "kok k" "set_new m k v = Ok (r, True, m')"
  shows "\<exists>m''. del m' k = Ok m'' \<and> inv m'' \<and> lkp m'' = lkp m"
proof -
  note res = set_result [OF assms]
  obtain m'' where m'': "del m' k = Ok m''" "inv m''" "lkp m'' = (lkp m')(k := None)"
    using del_present [OF res(1) assms(2) res(2)] by blast
  have "lkp m'' j = lkp m j" for j using m''(3) res(3,4) by (cases "j = k") auto
  with m'' show ?thesis by blast
qed

lemma exec_refines:
  "inv m \<Longrightarrow> (\<And>o'. o' \<in> set ops \<Longrightarrow> kok (kv_key o')) \<Longrightarrow>
   map_go (\<lambda>(rs, m'). (rs, lkp m')) (kv_exec get set_new del ops m) = kv_spec ops (lkp m)"
proof (induction ops arbitrary: m)
  case (Cons o' ops)
  have k: "kok (kv_key o')" and IH: "inv m' \<Longrightarrow>
      map_go (\<lambda>(rs, m'). (rs, lkp m')) (kv_exec get set_new del ops m') = kv_spec ops (lkp m')" for m'
    using Cons by auto
  note step = map_go_gbind gbind_map_go split_beta
  show ?case
  proof (cases o')
    case (KGet k)
    then obtain m' where m': "get m k = Ok (lkp m k, m')" "inv m'" "lkp m' = lkp m"
      using get_law [OF Cons.prems(1)] k by fastforce
    show ?thesis using KGet m'(1) IH [OF m'(2), unfolded m'(3), symmetric] by (simp add: step)
  next
    case (KSet k v)
    show ?thesis
    proof (cases "lkp m k")
      case None
      then obtain m' where m': "set_new m k v = Ok (v, True, m')" "inv m'" "lkp m' = (lkp m)(k \<mapsto> v)"
        using set_absent [OF Cons.prems(1)] k KSet by fastforce
      show ?thesis using KSet None m'(1) IH [OF m'(2), unfolded m'(3), symmetric]
        by (simp add: step)
    next
      case (Some w)
      then show ?thesis using set_present [OF Cons.prems(1)] k KSet IH [OF Cons.prems(1), symmetric] by (simp add: step)
    qed
  next
    case (KDel k)
    show ?thesis
    proof (cases "lkp m k")
      case None
      then show ?thesis using del_absent [OF Cons.prems(1)] k KDel by simp
    next
      case (Some w)
      then obtain m' where m': "del m k = Ok m'" "inv m'" "lkp m' = (lkp m)(k := None)"
        using del_present [OF Cons.prems(1)] k KDel by fastforce
      show ?thesis using KDel Some m'(1) IH [OF m'(2), unfolded m'(3), symmetric]
        by (simp add: step)
    qed
  qed
qed simp

end

interpretation ht: kv_table ht_lookup Get Set Del "ht_inv kd" "\<lambda>k. kind_of k = Some kd" for kd
proof (unfold_locales, goal_cases)
  case 1
  then show ?case by (rule Get_refines)
next
  case 2
  then show ?case by (rule Set_refines_absent)
next
  case 3
  then show ?case by (rule Set_refines_present)
next
  case 4
  then show ?case by (rule Del_refines_present)
next
  case 5
  then show ?case by (rule Del_refines_absent)
qed

subsection \<open>Properties\<close>

text \<open>
  C2: the hash table is a partial map.  Whatever sequence of \<open>Get\<close>, \<open>Set\<close> and \<open>Del\<close> calls with keys
  of one type is made, the results (found values, whether an insertion happened, a panic of \<open>Del\<close>
  on a missing key) and the final contents are those of the map.
\<close>

theorem hashtable_refines_map:
  assumes "ht_inv kd ht" "\<And>o'. o' \<in> set ops \<Longrightarrow> kind_of (kv_key o') = Some kd"
  shows "map_go (\<lambda>(rs, ht'). (rs, ht_lookup ht')) (kv_exec Get Set Del ops ht) = kv_spec ops (ht_lookup ht)"
  using assms by (rule ht.exec_refines)

theorem hashtable_refines_map_witness:
  "\<exists>ht. MkHash 3 = Ok ht \<and>
    map_go (\<lambda>(rs, ht'). (rs, ht_lookup ht'))
      (kv_exec Get Set Del [KSet (KInt 4) ''a'', KSet (KInt 4) ''b'', KGet (KInt 4), KDel (KInt 4), KGet (KInt 4)] ht) =
    Ok ([RSet ''a'' True, RSet ''a'' False, RGet (Some ''a''), RDel, RGet None], Map.empty)"
proof -
  obtain ht :: "string hashtable_t" where
    ht: "MkHash 3 = Ok ht" "ht_inv IntKind ht" "ht_lookup ht = Map.empty"
    using MkHash_inv [of 3] by auto
  let ?ops = "[KSet (KInt 4) ''a'', KSet (KInt 4) ''b'', KGet (KInt 4), KDel (KInt 4), KGet (KInt 4)]"
  have spec: "kv_spec ?ops Map.empty =
      Ok ([RSet ''a'' True, RSet ''a'' False, RGet (Some ''a''), RDel, RGet None], Map.empty)"
    by (simp add: fun_eq_iff)
  have "map_go (\<lambda>(rs, ht'). (rs, ht_lookup ht')) (kv_exec Get Set Del ?ops ht) = kv_spec ?ops (ht_lookup ht)"
    by (rule hashtable_refines_map [OF ht(2)]) auto
  then show ?thesis using ht spec by metis
qed

end
