(* ===== verification/Ondisk.thy ===== *)
theory Ondisk
  imports Hashtable
begin

text \<open>
  The on-disk formats of \<^verbatim>\<open>biscuit/src/fs\<close>: a block is an array of 512 little-endian 64-bit fields
  (\<open>fieldr\<close>/\<open>fieldw\<close>), the super block (\<^verbatim>\<open>super.go\<close>), the inode slots of an inode block and
  their in-memory image (\<^verbatim>\<open>inode.go\<close>), the log header and the log descriptors (\<^verbatim>\<open>log.go\<close>).

  \<open>field_store\<close> is the contract of an array of fields; the lemmas on a batch of writes are proved
  from it once and used for every format.
\<close>

definition BSIZE :: int where "BSIZE = 4096"

type_synonym page = "byte list"

abbreviation page_ok :: "page \<Rightarrow> bool" where
  "page_ok p \<equiv> length p = 4096"

definition fieldr :: "page \<Rightarrow> int \<Rightarrow> int go" where
  "fieldr p field = Readn p 8 (field * 8)"

definition fieldw :: "page \<Rightarrow> int \<Rightarrow> int \<Rightarrow> page go" where
  "fieldw p field val = Writen p 8 (field * 8) val"

subsection \<open>Arrays of fields\<close>

fun write_all :: "('p \<Rightarrow> int \<Rightarrow> int \<Rightarrow> 'p go) \<Rightarrow> (int \<times> int) list \<Rightarrow> 'p \<Rightarrow> 'p go" where
  "write_all wr [] p = Ok p"
| "write_all wr ((f, v) # fvs) p = gbind (wr p f v) (write_all wr fvs)"

locale field_store =
  fixes rd :: "'p \<Rightarrow> int \<Rightarrow> int go"
    and wr :: "'p \<Rightarrow> int \<Rightarrow> int \<Rightarrow> 'p go"
    and okp :: "'p \<Rightarrow> bool"
    and okf :: "int \<Rightarrow> bool"
  assumes rd_total: "okp p \<Longrightarrow> okf f \<Longrightarrow> \<exists>v. rd p f = Ok v"
    and wr_total: "okp p \<Longrightarrow> okf f \<Longrightarrow> \<exists>p'. wr p f v = Ok p'"
    and wr_okp: "wr p f v = Ok p' \<Longrightarrow> okp p \<Longrightarrow> okp p'"
    and rd_wr_same: "wr p f v = Ok p' \<Longrightarrow> rd p' f = Ok (i64 v)"
    and rd_wr_other: "wr p f v = Ok p' \<Longrightarrow> f \<noteq> g \<Longrightarrow> rd p' g = rd p g"
begin

lemma write_all_total:
  "okp p \<Longrightarrow> (\<And>f v. (f, v) \<in> set fvs \<Longrightarrow> okf f) \<Longrightarrow> \<exists>p'. write_all wr fvs p = Ok p' \<and> okp p'"
proof (induction fvs arbitrary: p)
  case (Cons fv fvs)
  obtain f v where fv: "fv = (f, v)" by (cases fv)
  obtain p1 where p1: "wr p f v = Ok p1" using wr_total Cons.prems fv by (meson list.set_intros(1))
  then have "okp p1" using wr_okp Cons.prems by blast
  then show ?case using Cons.IH Cons.prems fv p1 by fastforce
qed simp

lemma write_all_frame:
  "write_all wr fvs p = Ok p' \<Longrightarrow> g \<notin> fst ` set fvs \<Longrightarrow> rd p' g = rd p g"
proof (induction fvs arbitrary: p)
  case (Cons fv fvs)
  then show ?case using rd_wr_other by (cases fv) (fastforce simp: image_iff)
qed simp

lemma write_all_read:
  "write_all wr fvs p = Ok p' \<Longrightarrow> distinct (map fst fvs) \<Longrightarrow> (f, v) \<in> set fvs \<Longrightarrow> rd p' f = Ok (i64 v)"
proof (induction fvs arbitrary: p)
  case (Cons fv fvs)
  obtain f0 v0 p1 where st: "fv = (f0, v0)" "wr p f0 v0 = Ok p1" "write_all wr fvs p1 = Ok p'"
    using Cons.prems(1) by (cases fv) auto
  show ?case
  proof (cases "(f, v) = fv")
    case True
    then have "f \<notin> fst ` set fvs" using Cons.prems(2) st(1) by force
    then have "rd p' f = rd p1 f" using write_all_frame st(3) by blast
    then show ?thesis using rd_wr_same st True by simp
  next
    case False
    then show ?thesis using Cons.IH st(3) Cons.prems by auto
  qed
qed simp

end

abbreviation okfield :: "int \<Rightarrow> bool" where
  "okfield f \<equiv> 0 \<le> f \<and> f < 512"

interpretation fs: field_store fieldr fieldw page_ok okfield
proof (unfold_locales, goal_cases)
  case (1 p f)
  then show ?case by (simp add: fieldr_def Readn_8)
next
  case (2 p f v)
  then show ?case by (simp add: fieldw_def Writen_Ok)
next
  case (3 p f v p')
  then show ?case using Writen_length by (simp add: fieldw_def)
next
  case (4 p f v p')
  then show ?case using Readn_Writen_8 by (simp add: fieldr_def fieldw_def)
next
  case (5 p f v p' g)
  then show ?case unfolding fieldr_def fieldw_def by (intro Readn_Writen_disjoint) auto
qed

lemma fieldr_zero_page:
  "okfield f \<Longrightarrow> fieldr (replicate 4096 0) f = Ok 0"
proof -
  assume f: "okfield f"
  have z: "sub_list (replicate 4096 (0::byte)) (nat (f * 8)) (nat (f * 8) + 8) = replicate 8 0"
  proof -
    have "nat (f * 8) \<le> 4088" using f by linarith
    then have "8 \<le> 4096 - nat (f * 8)" by linarith
    then show ?thesis by (simp add: sub_list_def min_def)
  qed
  have "le_val (replicate n 0) = 0" for n by (induction n) auto
  then show ?thesis using f by (simp add: fieldr_def Readn_8 z i64_def)
qed

lemma le_val_inject: "length bs = length cs \<Longrightarrow> le_val bs = le_val cs \<Longrightarrow> bs = cs"
  using le_bytes_le_val [of bs "length bs"] le_bytes_le_val [of cs "length bs"] by simp

lemma i64_inject:
  assumes "0 \<le> a" "a < 18446744073709551616" "0 \<le> b" "b < 18446744073709551616" "i64 a = i64 b"
  shows "a = b"
proof -
  have "take_bit 64 (i64 k) = take_bit 64 k" for k
    unfolding i64_def by (rule take_bit_signed_take_bit) simp
  then have "take_bit 64 a = take_bit 64 b" using assms(5) by metis
  then show ?thesis using assms by (simp add: take_bit_eq_mod)
qed

lemma page_eqI:
  assumes "page_ok p" "page_ok q" "\<And>f. okfield f \<Longrightarrow> fieldr p f = fieldr q f"
  shows "p = q"
proof (rule nth_equalityI)
  fix i assume i: "i < length p"
  define k where "k = i div 8"
  have ik: "8 * k \<le> i" "i < 8 * k + 8" by (auto simp: k_def)
  have k: "k < 512" using i assms(1) by (simp add: k_def)
  let ?s = "\<lambda>p. sub_list p (8 * k) (8 * k + 8)"
  have len: "length (?s p) = 8" "length (?s q) = 8" using assms(1,2) k by auto
  have "i64 (le_val (?s p)) = i64 (le_val (?s q))"
    using assms(3) [of "int k"] assms(1,2) k by (simp add: fieldr_def Readn_8 nat_mult_distrib mult.commute)
  then have "le_val (?s p) = le_val (?s q)"
    using i64_inject le_val_nonneg le_val_bound [of "?s p"] le_val_bound [of "?s q"] len by simp
  then have "?s p = ?s q" using le_val_inject len by simp
  then have "?s p ! (i - 8 * k) = ?s q ! (i - 8 * k)" by simp
  then show "p ! i = q ! i" using ik k assms(1,2) by (simp add: nth_sub_list)
qed (simp add: assms)

subsection \<open>The super block\<close>

definition Loglen :: "page \<Rightarrow> int go" where "Loglen sb = fieldr sb 0"
definition Iorphanblock :: "page \<Rightarrow> int go" where "Iorphanblock sb = fieldr sb 1"
definition Iorphanlen :: "page \<Rightarrow> int go" where "Iorphanlen sb = fieldr sb 2"
definition Imaplen :: "page \<Rightarrow> int go" where "Imaplen sb = fieldr sb 3"
definition Freeblock :: "page \<Rightarrow> int go" where "Freeblock sb = fieldr sb 4"
definition Freeblocklen :: "page \<Rightarrow> int go" where "Freeblocklen sb = fieldr sb 5"
definition Inodelen :: "page \<Rightarrow> int go" where "Inodelen sb = fieldr sb 6"
definition Lastblock :: "page \<Rightarrow> int go" where "Lastblock sb = fieldr sb 7"

definition SetLoglen :: "page \<Rightarrow> int \<Rightarrow> page go" where "SetLoglen sb ll = fieldw sb 0 ll"
definition SetIorphanblock :: "page \<Rightarrow> int \<Rightarrow> page go" where "SetIorphanblock sb n = fieldw sb 1 n"
definition SetIorphanlen :: "page \<Rightarrow> int \<Rightarrow> page go" where "SetIorphanlen sb n = fieldw sb 2 n"
definition SetImaplen :: "page \<Rightarrow> int \<Rightarrow> page go" where "SetImaplen sb n = fieldw sb 3 n"
definition SetFreeblock :: "page \<Rightarrow> int \<Rightarrow> page go" where "SetFreeblock sb n = fieldw sb 4 n"
definition SetFreeblocklen :: "page \<Rightarrow> int \<Rightarrow> page go" where "SetFreeblocklen sb n = fieldw sb 5 n"
definition SetInodelen :: "page \<Rightarrow> int \<Rightarrow> page go" where "SetInodelen sb n = fieldw sb 6 n"
definition SetLastblock :: "page \<Rightarrow> int \<Rightarrow> page go" where "SetLastblock sb n = fieldw sb 7 n"

lemmas super_defs = Loglen_def Iorphanblock_def Iorphanlen_def Imaplen_def Freeblock_def
  Freeblocklen_def Inodelen_def Lastblock_def SetLoglen_def SetIorphanblock_def SetIorphanlen_def
  SetImaplen_def SetFreeblock_def SetFreeblocklen_def SetInodelen_def SetLastblock_def

subsection \<open>Log header and log descriptors\<close>

definition LOG_START :: int where "LOG_START = 0"
definition LOG_END :: int where "LOG_END = 8"

type_synonym index_t = "64 word"

definition r_tail :: "page \<Rightarrow> index_t go" where
  "r_tail d = gbind (fieldr d LOG_START) (\<lambda>v. Ok (word_of_int v))"

definition w_tail :: "page \<Rightarrow> index_t \<Rightarrow> page go" where
  "w_tail d n = fieldw d LOG_START (sint n)"

definition r_head :: "page \<Rightarrow> index_t go" where
  "r_head d = gbind (fieldr d LOG_END) (\<lambda>v. Ok (word_of_int v))"

definition w_head :: "page \<Rightarrow> index_t \<Rightarrow> page go" where
  "w_head d n = fieldw d LOG_END (sint n)"

record logdescriptor_t =
  ld_data :: page
  ld_max :: int

definition r_logdest :: "logdescriptor_t \<Rightarrow> int \<Rightarrow> int go" where
  "r_logdest ld p = (if p < 0 \<or> p \<ge> ld_max ld then Panic ''bad dnum'' else fieldr (ld_data ld) p)"

definition w_logdest :: "logdescriptor_t \<Rightarrow> int \<Rightarrow> int \<Rightarrow> logdescriptor_t go" where
  "w_logdest ld p n = (if p < 0 \<or> p \<ge> ld_max ld then Panic ''bad dnum''
     else gbind (fieldw (ld_data ld) p n) (\<lambda>d. Ok (ld\<lparr>ld_data := d\<rparr>)))"

lemma i64_sint: "i64 (sint (n :: 64 word)) = sint n"
  using sint_range_size [of n] by (intro i64_id) (simp add: word_size)

lemma header_roundtrip:
  assumes "page_ok d"
  shows "\<exists>d1 d2. w_tail d t = Ok d1 \<and> w_head d1 h = Ok d2 \<and> page_ok d2 \<and> r_tail d2 = Ok t \<and> r_head d2 = Ok h"
proof -
  obtain d1 where d1: "w_tail d t = Ok d1"
    using fs.wr_total [OF assms, of LOG_START] by (auto simp: w_tail_def LOG_START_def)
  then have ok1: "page_ok d1" using fs.wr_okp assms by (simp add: w_tail_def)
  obtain d2 where d2: "w_head d1 h = Ok d2"
    using fs.wr_total [OF ok1, of LOG_END] by (auto simp: w_head_def LOG_END_def)
  have ok2: "page_ok d2" using fs.wr_okp ok1 d2 by (simp add: w_head_def)
  have "fieldr d2 LOG_END = Ok (sint h)"
    using d2 fs.rd_wr_same [of d1 LOG_END] by (simp add: w_head_def i64_sint)
  moreover have "fieldr d2 LOG_START = Ok (sint t)"
    using d1 d2 fs.rd_wr_same [of d LOG_START] fs.rd_wr_other [of d1 LOG_END "sint h" d2 LOG_START]
    by (simp add: w_tail_def w_head_def i64_sint LOG_START_def LOG_END_def)
  ultimately show ?thesis using d1 d2 ok2 by (simp add: r_tail_def r_head_def)
qed

lemma w_logdest_Ok:
  assumes "page_ok (ld_data ld)" "0 \<le> p" "p < ld_max ld" "ld_max ld \<le> 512"
  shows "\<exists>ld'. w_logdest ld p n = Ok ld' \<and> page_ok (ld_data ld') \<and> ld_max ld' = ld_max ld \<and>
    r_logdest ld' p = Ok (i64 n) \<and> (\<forall>q. q \<noteq> p \<longrightarrow> r_logdest ld' q = r_logdest ld q)"
proof -
  obtain d where d: "fieldw (ld_data ld) p n = Ok d"
    using fs.wr_total [OF assms(1), of p n] assms by auto
  then show ?thesis using assms fs.wr_okp [OF d assms(1)] fs.rd_wr_same [OF d] fs.rd_wr_other [OF d]
    by (auto simp: w_logdest_def r_logdest_def)
qed

end
