(* ===== verification/Inode.thy ===== *)
theory Inode
  imports Ondisk Defs_Model
begin

text \<open>
  \<^verbatim>\<open>biscuit/src/fs/inode.go\<close>: the accessors of an on-disk inode slot, the in-memory inode
  \<open>imemnode_t\<close> with \<open>fill\<close> and \<open>flushto\<close> that load and store it, and the placement of inodes in
  blocks.  An inode block holds 32 slots of 16 fields: type, link count, size, major, minor,
  indirect block, double-indirect block and nine direct blocks.
\<close>

definition NIADDRS :: int where "NIADDRS = 9"
definition NIWORDS :: int where "NIWORDS = 7 + NIADDRS"
definition INDADDR :: int where "INDADDR = BSIZE div 8"
definition ISIZE :: int where "ISIZE = 128"

abbreviation (input) I_FIRST :: int where "I_FIRST \<equiv> 0"
abbreviation (input) I_INVALID :: int where "I_INVALID \<equiv> 0"
abbreviation (input) I_FILE :: int where "I_FILE \<equiv> 1"
abbreviation (input) I_DIR :: int where "I_DIR \<equiv> 2"
abbreviation (input) I_DEV :: int where "I_DEV \<equiv> 3"
abbreviation (input) I_VALID :: int where "I_VALID \<equiv> 3"
abbreviation (input) I_DEAD :: int where "I_DEAD \<equiv> 4"
abbreviation (input) I_LAST :: int where "I_LAST \<equiv> 4"

record Inode_t =
  Iblk :: page
  Ioff :: int

definition ifield :: "int \<Rightarrow> int \<Rightarrow> int" where
  "ifield iidx fieldn = iidx * NIWORDS + fieldn"

definition ird :: "Inode_t \<Rightarrow> int \<Rightarrow> int go" where
  "ird ind n = fieldr (Iblk ind) (ifield (Ioff ind) n)"

definition iwr :: "Inode_t \<Rightarrow> int \<Rightarrow> int \<Rightarrow> Inode_t go" where
  "iwr ind n v = gbind (fieldw (Iblk ind) (ifield (Ioff ind) n) v) (\<lambda>p. Ok (ind\<lparr>Iblk := p\<rparr>))"

definition itype :: "Inode_t \<Rightarrow> int go" where
  "itype ind = gbind (ird ind 0) (\<lambda>it.
     if it < I_FIRST \<or> it > I_LAST then Panic ''weird inode type'' else Ok it)"

definition linkcount :: "Inode_t \<Rightarrow> int go" where "linkcount ind = ird ind 1"
definition size_i :: "Inode_t \<Rightarrow> int go" where "size_i ind = ird ind 2"
definition major :: "Inode_t \<Rightarrow> int go" where "major ind = ird ind 3"
definition minor :: "Inode_t \<Rightarrow> int go" where "minor ind = ird ind 4"
definition indirect :: "Inode_t \<Rightarrow> int go" where "indirect ind = ird ind 5"
definition dindirect :: "Inode_t \<Rightarrow> int go" where "dindirect ind = ird ind 6"

definition addr :: "Inode_t \<Rightarrow> int \<Rightarrow> int go" where
  "addr ind i = (if i < 0 \<or> i > NIADDRS then Panic ''bad inode block index'' else ird ind (7 + i))"

definition W_itype :: "Inode_t \<Rightarrow> int \<Rightarrow> Inode_t go" where
  "W_itype ind n = (if n < I_FIRST \<or> n > I_LAST then Panic ''weird inode type'' else iwr ind 0 n)"

definition W_linkcount :: "Inode_t \<Rightarrow> int \<Rightarrow> Inode_t go" where "W_linkcount ind n = iwr ind 1 n"
definition W_size :: "Inode_t \<Rightarrow> int \<Rightarrow> Inode_t go" where "W_size ind n = iwr ind 2 n"
definition w_major :: "Inode_t \<Rightarrow> int \<Rightarrow> Inode_t go" where "w_major ind n = iwr ind 3 n"
definition w_minor :: "Inode_t \<Rightarrow> int \<Rightarrow> Inode_t go" where "w_minor ind n = iwr ind 4 n"
definition w_indirect :: "Inode_t \<Rightarrow> int \<Rightarrow> Inode_t go" where "w_indirect ind blk = iwr ind 5 blk"
definition w_dindirect :: "Inode_t \<Rightarrow> int \<Rightarrow> Inode_t go" where "w_dindirect ind blk = iwr ind 6 blk"

definition W_addr :: "Inode_t \<Rightarrow> int \<Rightarrow> int \<Rightarrow> Inode_t go" where
  "W_addr ind i blk = (if i < 0 \<or> i > NIADDRS then Panic ''bad inode block index''
     else iwr ind (7 + i) blk)"

text \<open>
  The in-memory inode.  \<open>dentc\<close> is the directory-entry cache: \<open>dents\<close> is \<open>None\<close> for Go's \<open>nil\<close>,
  and the linked free list is the list of its offsets with the separately kept count \<open>freel_n\<close>.
  \<open>icd_idm\<close> is the pointer to the cached child inode, by inode number.
\<close>

record icdent_t =
  icd_offset :: int
  icd_inum :: int
  icd_idm :: "int option"
  icd_name :: "byte list"

record dentc_t =
  haveall :: bool
  scanned :: bool
  dc_max :: int
  dents :: "icdent_t hashtable_t option"
  freel_head :: "int list"
  freel_n :: int

record imemnode_t =
  im_inum :: int
  amlocked :: bool
  im_itype :: int
  im_links :: int
  im_size :: int
  im_major :: int
  im_minor :: int
  im_indir :: int
  im_dindir :: int
  im_addrs :: "int list"
  im_dentc :: dentc_t

definition dentc_zero :: dentc_t where
  "dentc_zero = \<lparr>haveall = False, scanned = False, dc_max = 0, dents = None, freel_head = [], freel_n = 0\<rparr>"

definition imem_zero :: "int \<Rightarrow> imemnode_t" where
  "imem_zero inum = \<lparr>im_inum = inum, amlocked = False, im_itype = 0, im_links = 0, im_size = 0,
     im_major = 0, im_minor = 0, im_indir = 0, im_dindir = 0, im_addrs = replicate 9 0,
     im_dentc = dentc_zero\<rparr>"

record ibitmap_t =
  ia_first :: int
  ia_inodelen :: int
  ia_maxinode :: int

definition ioffset :: "int \<Rightarrow> int" where
  "ioffset inum = inum smod (BSIZE div ISIZE)"

definition Iblock :: "ibitmap_t \<Rightarrow> int \<Rightarrow> int go" where
  "Iblock ia inum =
     (let b = inum sdiv (BSIZE div ISIZE) + ia_first ia
      in if b < ia_first ia \<or> b \<ge> ia_first ia + ia_inodelen ia then Panic ''Iblock: too big inum''
         else Ok b)"

definition fill :: "imemnode_t \<Rightarrow> page \<Rightarrow> int \<Rightarrow> imemnode_t go" where
  "fill ic blk inum =
     (let inode = \<lparr>Iblk = blk, Ioff = ioffset inum\<rparr> in
      gbind (itype inode) (\<lambda>it.
      if it \<le> I_FIRST \<or> it > I_VALID then Panic ''no''
      else
        gbind (linkcount inode) (\<lambda>links.
        gbind (size_i inode) (\<lambda>sz.
        gbind (major inode) (\<lambda>maj.
        gbind (minor inode) (\<lambda>mn.
        gbind (indirect inode) (\<lambda>ind.
        gbind (dindirect inode) (\<lambda>dind.
        gbind (gmap (addr inode) [0..NIADDRS - 1]) (\<lambda>as.
        let ic' = ic\<lparr>im_itype := it, im_links := links, im_size := sz, im_major := maj,
               im_minor := mn, im_indir := ind, im_dindir := dind, im_addrs := as\<rparr>
        in if it = I_DIR
           then gbind (MkHash 100) (\<lambda>ht. Ok (ic'\<lparr>im_dentc := (im_dentc ic')\<lparr>dents := Some ht\<rparr>\<rparr>))
           else Ok ic')))))))))"

definition flush_writes :: "imemnode_t \<Rightarrow> Inode_t \<Rightarrow> Inode_t go" where
  "flush_writes ic inode =
     gbind (W_itype inode (im_itype ic)) (\<lambda>inode.
     gbind (W_linkcount inode (im_links ic)) (\<lambda>inode.
     gbind (W_size inode (im_size ic)) (\<lambda>inode.
     gbind (w_major inode (im_major ic)) (\<lambda>inode.
     gbind (w_minor inode (im_minor ic)) (\<lambda>inode.
     gbind (w_indirect inode (im_indir ic)) (\<lambda>inode.
     gbind (w_dindirect inode (im_dindir ic)) (\<lambda>inode.
     gfold (\<lambda>i inode. W_addr inode i (im_addrs ic ! nat i)) [0..NIADDRS - 1] inode)))))))"

definition flush_changed :: "imemnode_t \<Rightarrow> Inode_t \<Rightarrow> bool go" where
  "flush_changed ic j =
     gbind (itype j) (\<lambda>it.
     gbind (linkcount j) (\<lambda>links.
     gbind (size_i j) (\<lambda>sz.
     gbind (major j) (\<lambda>maj.
     gbind (minor j) (\<lambda>mn.
     gbind (indirect j) (\<lambda>ind.
     gbind (gmap (addr j) [0..NIADDRS - 1]) (\<lambda>as.
     Ok (it \<noteq> im_itype ic \<or> links \<noteq> im_links ic \<or> sz \<noteq> im_size ic \<or> maj \<noteq> im_major ic \<or>
         mn \<noteq> im_minor ic \<or> ind \<noteq> im_indir ic \<or> as \<noteq> im_addrs ic))))))))"

definition flushto :: "imemnode_t \<Rightarrow> page \<Rightarrow> int \<Rightarrow> (bool \<times> page) go" where
  "flushto ic blk inum =
     (let inode = \<lparr>Iblk = blk, Ioff = ioffset inum\<rparr> in
      gbind (flush_changed ic inode) (\<lambda>ret.
      gbind (flush_writes ic inode) (\<lambda>inode'. Ok (ret, Iblk inode'))))"

subsection \<open>A slot is an array of sixteen fields\<close>

lemma ioffset_nonneg: "0 \<le> inum \<Longrightarrow> ioffset inum = inum mod 32"
  by (simp add: ioffset_def BSIZE_def ISIZE_def smod_nonneg)

lemma ifield_inj:
  "0 \<le> n \<Longrightarrow> n < 16 \<Longrightarrow> 0 \<le> m \<Longrightarrow> m < 16 \<Longrightarrow> ifield a n = ifield b m \<longleftrightarrow> a = b \<and> n = m"
proof -
  assume r: "0 \<le> n" "n < 16" "0 \<le> m" "m < 16"
  have "n = m" if "a * 16 + n = b * 16 + m"
  proof -
    have "(a * 16 + n) mod 16 = n" "(b * 16 + m) mod 16 = m" using r by simp_all
    then show ?thesis using that by simp
  qed
  then show ?thesis by (auto simp: ifield_def NIWORDS_def NIADDRS_def)
qed

abbreviation slot_ok :: "Inode_t \<Rightarrow> bool" where
  "slot_ok ind \<equiv> page_ok (Iblk ind) \<and> 0 \<le> Ioff ind \<and> Ioff ind < 32"

interpretation slot: field_store ird iwr slot_ok "\<lambda>n. 0 \<le> n \<and> n < 16"
proof (unfold_locales, goal_cases)
  case (1 p f)
  then show ?case by (auto simp: ird_def ifield_def NIWORDS_def NIADDRS_def intro!: fs.rd_total)
next
  case (2 p f v)
  then show ?case using fs.wr_total [of "Iblk p" "ifield (Ioff p) f" v]
    by (auto simp: iwr_def ifield_def NIWORDS_def NIADDRS_def)
next
  case (3 p f v p')
  then show ?case using fs.wr_okp by (auto simp: iwr_def)
next
  case (4 p f v p')
  then show ?case using fs.rd_wr_same by (auto simp: iwr_def ird_def)
next
  case (5 p f v p' g)
  then show ?case using fs.rd_wr_other by (auto simp: iwr_def ird_def ifield_def)
qed

definition disk_fields :: "imemnode_t \<Rightarrow> (int \<times> int) list" where
  "disk_fields ic = [(0, im_itype ic), (1, im_links ic), (2, im_size ic), (3, im_major ic),
     (4, im_minor ic), (5, im_indir ic), (6, im_dindir ic)] @
     map (\<lambda>i. (7 + i, im_addrs ic ! nat i)) [0..8]"

lemma upto_0_8: "[0..8] = [0, 1, 2, 3, 4, 5, 6, 7, 8::int]"
  by (simp add: upto.simps)

lemma flush_writes_write_all:
  assumes "0 \<le> im_itype ic" "im_itype ic \<le> 4"
  shows "flush_writes ic inode = write_all iwr (disk_fields ic) inode"
  using assms
  by (simp add: flush_writes_def disk_fields_def W_itype_def W_linkcount_def W_size_def w_major_def
      w_minor_def w_indirect_def w_dindirect_def W_addr_def NIADDRS_def upto_0_8 cong: gbind_cong)

lemma disk_fields_distinct: "distinct (map fst (disk_fields ic))"
  by (simp add: disk_fields_def upto_0_8)

lemma disk_fields_range: "(f, v) \<in> set (disk_fields ic) \<Longrightarrow> 0 \<le> f \<and> f < 16"
  by (auto simp: disk_fields_def)


subsection \<open>Loading and storing\<close>

lemma gmap_addr:
  "gmap (addr inode) [0..NIADDRS - 1] = gmap (\<lambda>i. ird inode (7 + i)) [0..8]"
  by (simp add: NIADDRS_def upto_0_8 addr_def)

text \<open>
  The image of an in-memory inode that \<open>fill\<close> produces from a slot, stated over the values of the
  sixteen fields.
\<close>

definition set_disk :: "imemnode_t \<Rightarrow> (int \<Rightarrow> int) \<Rightarrow> imemnode_t" where
  "set_disk ic v = ic\<lparr>im_itype := v 0, im_links := v 1, im_size := v 2, im_major := v 3,
     im_minor := v 4, im_indir := v 5, im_dindir := v 6, im_addrs := map (\<lambda>i. v (7 + i)) [0..8]\<rparr>"

lemma fill_fields:
  assumes "\<And>n. 0 \<le> n \<Longrightarrow> n < 16 \<Longrightarrow> ird \<lparr>Iblk = blk, Ioff = ioffset inum\<rparr> n = Ok (v n)"
    "I_FIRST < v 0" "v 0 \<le> I_VALID"
  shows "fill ic blk inum =
    (if v 0 = I_DIR
     then gbind (MkHash 100) (\<lambda>ht. Ok ((set_disk ic v)\<lparr>im_dentc := (im_dentc ic)\<lparr>dents := Some ht\<rparr>\<rparr>))
     else Ok (set_disk ic v))"
proof -
  have "gmap (\<lambda>i. ird \<lparr>Iblk = blk, Ioff = ioffset inum\<rparr> (7 + i)) [0..8] = Ok (map (\<lambda>i. v (7 + i)) [0..8])"
    using assms(1) by (intro gmap_all_Ok) simp
  then show ?thesis using assms
    by (simp add: fill_def Let_def itype_def linkcount_def size_i_def major_def minor_def indirect_def
        dindirect_def gmap_addr set_disk_def)
qed

text \<open>The disk part of two in-memory inodes agrees.\<close>

definition same_disk :: "imemnode_t \<Rightarrow> imemnode_t \<Rightarrow> bool" where
  "same_disk a b \<longleftrightarrow> im_itype a = im_itype b \<and> im_links a = im_links b \<and> im_size a = im_size b \<and>
     im_major a = im_major b \<and> im_minor a = im_minor b \<and> im_indir a = im_indir b \<and>
     im_dindir a = im_dindir b \<and> im_addrs a = im_addrs b"

text \<open>The fields of an in-memory inode are Go \<open>int\<close>s and its address array has nine entries.\<close>

definition imem_wf :: "imemnode_t \<Rightarrow> bool" where
  "imem_wf ic \<longleftrightarrow> length (im_addrs ic) = 9 \<and> (\<forall>(f, v) \<in> set (disk_fields ic). in_i64 v)"

lemma flush_changed_Ok:
  assumes "slot_ok ind" "itype ind = Ok it"
  shows "\<exists>ret. flush_changed ic ind = Ok ret"
proof -
  have rd: "\<exists>v. ird ind n = Ok v" if "0 \<le> n" "n < 16" for n
    using slot.rd_total assms(1) that by blast
  have "\<exists>as. gmap (\<lambda>i. ird ind (7 + i)) [0..8] = Ok as"
    using rd by (intro gmap_total) simp
  then show ?thesis using rd [of 1] rd [of 2] rd [of 3] rd [of 4] rd [of 5] assms(2)
    by (auto simp: flush_changed_def linkcount_def size_i_def major_def minor_def indirect_def gmap_addr)
qed

lemma flush_writes_Ok:
  assumes "slot_ok ind" "0 \<le> im_itype ic" "im_itype ic \<le> 4"
  shows "\<exists>ind'. flush_writes ic ind = Ok ind' \<and> slot_ok ind' "
  using slot.write_all_total [OF assms(1), of "disk_fields ic"] disk_fields_range
    flush_writes_write_all [OF assms(2,3)] by auto

lemma iwr_Ioff: "iwr ind n v = Ok ind' \<Longrightarrow> Ioff ind' = Ioff ind"
  by (auto simp: iwr_def)

lemma write_all_Ioff: "write_all iwr fvs ind = Ok ind' \<Longrightarrow> Ioff ind' = Ioff ind"
proof (induction fvs arbitrary: ind)
  case (Cons fv fvs)
  then show ?case using iwr_Ioff by (cases fv) fastforce
qed simp

lemma flush_writes_types: "flush_writes ic ind = Ok ind' \<Longrightarrow> 0 \<le> im_itype ic \<and> im_itype ic \<le> 4"
  by (auto simp: flush_writes_def W_itype_def split: if_splits)

text \<open>Other slots of the block are not touched.\<close>

lemma write_all_other_slot:
  assumes "write_all iwr fvs ind = Ok ind'" "\<And>f v. (f, v) \<in> set fvs \<Longrightarrow> 0 \<le> f \<and> f < 16"
    "0 \<le> n" "n < 16" "off \<noteq> Ioff ind"
  shows "fieldr (Iblk ind') (ifield off n) = fieldr (Iblk ind) (ifield off n)"
  using assms
proof (induction fvs arbitrary: ind)
  case (Cons fv fvs)
  obtain f v ind1 where st: "fv = (f, v)" "iwr ind f v = Ok ind1" "write_all iwr fvs ind1 = Ok ind'"
    using Cons.prems(1) by (cases fv) auto
  have "ifield (Ioff ind) f \<noteq> ifield off n"
    using ifield_inj [of f n "Ioff ind" off] Cons.prems st(1) by auto
  then have "fieldr (Iblk ind1) (ifield off n) = fieldr (Iblk ind) (ifield off n)"
    using st(2) fs.rd_wr_other by (auto simp: iwr_def)
  then show ?case using Cons.IH [OF st(3)] Cons.prems st iwr_Ioff by force
qed simp

lemma fill_cong:
  assumes "\<And>n. 0 \<le> n \<Longrightarrow> n < 16 \<Longrightarrow> fieldr p (ifield (ioffset inum) n) = fieldr q (ifield (ioffset inum) n)"
  shows "fill ic p inum = fill ic q inum"
proof -
  let ?i = "\<lambda>p. \<lparr>Iblk = p, Ioff = ioffset inum\<rparr>"
  have eq: "ird (?i p) n = ird (?i q) n" if "0 \<le> n" "n < 16" for n using assms that by (simp add: ird_def)
  have "gmap (\<lambda>i. ird (?i p) (7 + i)) [0..8] = gmap (\<lambda>i. ird (?i q) (7 + i)) [0..8]"
    by (rule gmap_cong) (auto intro!: eq)
  then have as: "gmap (addr (?i p)) [0..NIADDRS - 1] = gmap (addr (?i q)) [0..NIADDRS - 1]"
    by (simp only: gmap_addr)
  have fs: "itype (?i p) = itype (?i q)" "linkcount (?i p) = linkcount (?i q)"
    "size_i (?i p) = size_i (?i q)" "major (?i p) = major (?i q)" "minor (?i p) = minor (?i q)"
    "indirect (?i p) = indirect (?i q)" "dindirect (?i p) = dindirect (?i q)"
    by (simp_all add: itype_def linkcount_def size_i_def major_def minor_def indirect_def dindirect_def eq)
  show ?thesis unfolding fill_def Let_def fs as ..
qed

lemma map_nth_upto_9: "length xs = 9 \<Longrightarrow> map (\<lambda>i. xs ! nat i) [0..8] = xs"
  by (rule nth_equalityI) simp_all

lemma flush_writes_read:
  assumes "flush_writes ic ind = Ok ind'" "imem_wf ic" "(f, v) \<in> set (disk_fields ic)"
  shows "ird ind' f = Ok v"
proof -
  have "write_all iwr (disk_fields ic) ind = Ok ind'"
    using assms(1) flush_writes_types [OF assms(1)] flush_writes_write_all by simp
  then have "ird ind' f = Ok (i64 v)"
    using slot.write_all_read disk_fields_distinct assms(3) by blast
  moreover have "in_i64 v" using assms(2,3) by (auto simp: imem_wf_def)
  ultimately show ?thesis by (simp add: i64_id)
qed

definition field_of :: "imemnode_t \<Rightarrow> int \<Rightarrow> int" where
  "field_of ic n = the (map_of (disk_fields ic) n)"

lemma field_of_simps:
  "field_of ic 0 = im_itype ic" "field_of ic 1 = im_links ic" "field_of ic 2 = im_size ic"
  "field_of ic 3 = im_major ic" "field_of ic 4 = im_minor ic" "field_of ic 5 = im_indir ic"
  "field_of ic 6 = im_dindir ic"
  "length (im_addrs ic) = 9 \<Longrightarrow> map (\<lambda>i. field_of ic (7 + i)) [0..8] = im_addrs ic"
proof -
  show "map (\<lambda>i. field_of ic (7 + i)) [0..8] = im_addrs ic" if "length (im_addrs ic) = 9"
    using map_nth_upto_9 [OF that] by (simp add: field_of_def disk_fields_def upto_0_8)
qed (simp_all add: field_of_def disk_fields_def upto_0_8)

lemma disk_fields_field_of: "0 \<le> n \<Longrightarrow> n < 16 \<Longrightarrow> (n, field_of ic n) \<in> set (disk_fields ic)"
proof -
  assume "0 \<le> n" "n < 16"
  moreover have "map fst (disk_fields ic) = [0..15]" by (simp add: disk_fields_def upto_0_8 upto.simps)
  ultimately have "n \<in> set (map fst (disk_fields ic))" by (simp only: set_upto) simp
  then show ?thesis using map_of_eq_None_iff [of "disk_fields ic" n] map_of_SomeD
    by (fastforce simp: field_of_def image_iff)
qed

lemma slot_init_ok: "page_ok blk \<Longrightarrow> 0 \<le> inum \<Longrightarrow> slot_ok \<lparr>Iblk = blk, Ioff = ioffset inum\<rparr>"
  by (simp add: ioffset_nonneg)

lemma flushto_Ok:
  "flushto ic blk inum = Ok (ret, p) \<longleftrightarrow>
   (\<exists>ind'. flush_changed ic \<lparr>Iblk = blk, Ioff = ioffset inum\<rparr> = Ok ret \<and>
      flush_writes ic \<lparr>Iblk = blk, Ioff = ioffset inum\<rparr> = Ok ind' \<and> p = Iblk ind')"
  by (auto simp: flushto_def Let_def)

lemma flushto_total:
  assumes "page_ok blk" "0 \<le> inum" "itype \<lparr>Iblk = blk, Ioff = ioffset inum\<rparr> = Ok it"
    "0 \<le> im_itype ic" "im_itype ic \<le> 4"
  shows "\<exists>ret p. flushto ic blk inum = Ok (ret, p)"
  using flush_changed_Ok [OF slot_init_ok [OF assms(1,2)] assms(3)]
    flush_writes_Ok [OF slot_init_ok [OF assms(1,2)] assms(4,5)]
  by (auto simp: flushto_Ok)

lemma flush_writes_frame:
  assumes "flush_writes ic ind = Ok ind'" "0 \<le> n" "n < 16" "off \<noteq> Ioff ind"
  shows "fieldr (Iblk ind') (ifield off n) = fieldr (Iblk ind) (ifield off n)"
proof (rule write_all_other_slot [OF _ _ assms(2-4)])
  show "write_all iwr (disk_fields ic) ind = Ok ind'"
    using assms(1) flush_writes_types [OF assms(1)] flush_writes_write_all by simp
qed (rule disk_fields_range)

lemma flush_changed_False:
  assumes "flush_changed ic ind = Ok False" "length (im_addrs ic) = 9" "(f, v) \<in> set (disk_fields ic)" "f \<noteq> 6"
  shows "ird ind f = Ok v"
proof -
  obtain as where as: "itype ind = Ok (im_itype ic)" "ird ind 1 = Ok (im_links ic)" "ird ind 2 = Ok (im_size ic)"
    "ird ind 3 = Ok (im_major ic)" "ird ind 4 = Ok (im_minor ic)" "ird ind 5 = Ok (im_indir ic)"
    "gmap (\<lambda>i. ird ind (7 + i)) [0..8] = Ok (im_addrs ic)"
    using assms(1)
    by (auto simp: flush_changed_def linkcount_def size_i_def major_def minor_def indirect_def gmap_addr)
  then have "ird ind 0 = Ok (im_itype ic)" by (auto simp: itype_def split: if_splits)
  moreover have "ird ind (7 + i) = Ok (im_addrs ic ! nat i)" if "0 \<le> i" "i \<le> 8" for i
  proof -
    have "list_all2 (\<lambda>x y. ird ind (7 + x) = Ok y) [0..8] (im_addrs ic)" using as by (simp add: gmap_Ok)
    from list_all2_nthD [OF this, of "nat i"] show ?thesis using that by simp
  qed
  ultimately show ?thesis using assms(3,4) as by (auto simp: disk_fields_def)
qed

lemma flush_changed_FalseI:
  assumes "\<And>f v. (f, v) \<in> set (disk_fields ic) \<Longrightarrow> f \<noteq> 6 \<Longrightarrow> ird ind f = Ok v"
    "length (im_addrs ic) = 9" "0 \<le> im_itype ic" "im_itype ic \<le> 4"
  shows "flush_changed ic ind = Ok False"
proof -
  have rd: "ird ind n = Ok (field_of ic n)" if "0 \<le> n" "n < 16" "n \<noteq> 6" for n
    using assms(1) disk_fields_field_of that by blast
  have "gmap (\<lambda>i. ird ind (7 + i)) [0..8] = Ok (im_addrs ic)"
    using gmap_all_Ok [of "[0..8]" "\<lambda>i. ird ind (7 + i)" "\<lambda>i. field_of ic (7 + i)"] rd
      field_of_simps(8) [OF assms(2)] by simp
  then show ?thesis using assms(3,4)
    by (simp add: flush_changed_def itype_def linkcount_def size_i_def major_def minor_def indirect_def
        gmap_addr rd field_of_simps)
qed

subsection \<open>Properties\<close>

text \<open>
  C3: an in-memory inode stored by \<open>flushto\<close> is what \<open>fill\<close> loads from the block.  For every block
  whose old slot has a type in range, the store does not panic, the block keeps its size, and every
  field of the loaded inode (type, links, size, device numbers, indirect and direct blocks) is the
  stored one.
\<close>

theorem flushto_fill:
  assumes "page_ok blk" "0 \<le> inum" "imem_wf ic" "I_FIRST < im_itype ic" "im_itype ic \<le> I_VALID"
    "itype \<lparr>Iblk = blk, Ioff = ioffset inum\<rparr> = Ok it"
  shows "\<exists>ret p ic'. flushto ic blk inum = Ok (ret, p) \<and> page_ok p \<and>
    fill ic0 p inum = Ok ic' \<and> same_disk ic' ic"
proof -
  let ?ind = "\<lparr>Iblk = blk, Ioff = ioffset inum\<rparr>"
  have ok: "slot_ok ?ind" using assms slot_init_ok by blast
  obtain ret where ret: "flush_changed ic ?ind = Ok ret" using flush_changed_Ok ok assms(6) by blast
  obtain ind' where ind': "flush_writes ic ?ind = Ok ind'" "slot_ok ind'"
    using flush_writes_Ok [OF ok, of ic] assms(4,5) by force
  have "Ioff ind' = ioffset inum"
    using write_all_Ioff ind'(1) flush_writes_write_all assms(4,5) by fastforce
  then have rd: "ird \<lparr>Iblk = Iblk ind', Ioff = ioffset inum\<rparr> n = Ok (field_of ic n)" if "0 \<le> n" "n < 16" for n
    using flush_writes_read [OF ind'(1) assms(3)] disk_fields_field_of that by (simp add: ird_def)
  obtain ht :: "icdent_t hashtable_t" where "MkHash 100 = Ok ht" using MkHash_inv [of 100] by auto
  then have "\<exists>ic'. fill ic0 (Iblk ind') inum = Ok ic' \<and> same_disk ic' ic"
    using fill_fields [of "Iblk ind'" inum "field_of ic" ic0, OF rd] assms(3-5)
    by (simp add: same_disk_def set_disk_def field_of_simps imem_wf_def)
  then show ?thesis using ret ind' by (auto simp: flushto_Ok)
qed

definition sample_imem :: imemnode_t where
  "sample_imem = (imem_zero 33)\<lparr>im_itype := I_FILE, im_links := 1, im_size := 5000, im_dindir := 7,
     im_addrs := [101, 102, 0, 0, 0, 0, 0, 0, 0]\<rparr>"

lemma sample_imem_wf: "imem_wf sample_imem"
  by (simp add: imem_wf_def sample_imem_def imem_zero_def disk_fields_def upto_0_8)

lemma zero_page_slot: "0 \<le> n \<Longrightarrow> n < 16 \<Longrightarrow> 0 \<le> inum \<Longrightarrow>
  ird \<lparr>Iblk = replicate 4096 0, Ioff = ioffset inum\<rparr> n = Ok 0"
  using fieldr_zero_page [of "ifield (ioffset inum) n"]
  by (simp add: ird_def ioffset_nonneg ifield_def NIWORDS_def NIADDRS_def)

theorem flushto_fill_witness:
  "\<exists>ret p ic'. flushto sample_imem (replicate 4096 0) 33 = Ok (ret, p) \<and> page_ok p \<and>
    fill (imem_zero 33) p 33 = Ok ic' \<and> same_disk ic' sample_imem"
  by (rule flushto_fill [of _ _ _ 0])
    (simp_all add: sample_imem_wf itype_def zero_page_slot, simp_all add: sample_imem_def imem_zero_def)

text \<open>
  C4: storing an inode leaves the other 31 inodes of its block alone: whatever \<open>fill\<close> loaded for
  an inode in another slot before \<open>flushto\<close>, panics included, it loads afterwards.
\<close>

theorem flushto_isolates:
  assumes "flushto ic blk inum = Ok (ret, p)" "0 \<le> inum" "0 \<le> inum'" "inum mod 32 \<noteq> inum' mod 32"
  shows "fill ic0 p inum' = fill ic0 blk inum'"
proof (rule fill_cong)
  fix n :: int assume "0 \<le> n" "n < 16"
  moreover have "ioffset inum' \<noteq> ioffset inum" using assms by (simp add: ioffset_nonneg)
  ultimately show "fieldr p (ifield (ioffset inum') n) = fieldr blk (ifield (ioffset inum') n)"
    using assms(1) flush_writes_frame [of ic "\<lparr>Iblk = blk, Ioff = ioffset inum\<rparr>"] by (auto simp: flushto_Ok)
qed

theorem flushto_isolates_witness:
  "\<exists>ret p. flushto sample_imem (replicate 4096 0) 33 = Ok (ret, p) \<and>
     fill (imem_zero 34) p 34 = fill (imem_zero 34) (replicate 4096 0) 34"
proof -
  have "\<exists>ret p. flushto sample_imem (replicate 4096 0) 33 = Ok (ret, p)"
    by (rule flushto_total [of _ _ 0]) (simp_all add: itype_def zero_page_slot, simp_all add: sample_imem_def)
  then show ?thesis using flushto_isolates [of sample_imem "replicate 4096 0" 33 _ _ 34 "imem_zero 34"] by auto
qed

text \<open>
  When \<open>flushto\<close> reports no change, the block is unchanged, provided the double-indirect block
  number on disk already is the one in memory: then \<open>_iupdate\<close> may skip logging the block.
\<close>

theorem flushto_false_unchanged:
  assumes "flushto ic blk inum = Ok (False, p)" "page_ok blk" "0 \<le> inum" "imem_wf ic"
    "dindirect \<lparr>Iblk = blk, Ioff = ioffset inum\<rparr> = Ok (im_dindir ic)"
  shows "p = blk"
proof -
  let ?ind = "\<lparr>Iblk = blk, Ioff = ioffset inum\<rparr>"
  obtain ind' where w: "flush_changed ic ?ind = Ok False" "flush_writes ic ?ind = Ok ind'" "p = Iblk ind'"
    using assms(1) by (auto simp: flushto_Ok)
  have wa: "write_all iwr (disk_fields ic) ?ind = Ok ind'"
    using w(2) flush_writes_types [OF w(2)] flush_writes_write_all by simp
  have ok: "slot_ok ind'"
    using slot.write_all_total [OF slot_init_ok [OF assms(2,3)], of "disk_fields ic"] disk_fields_range wa by auto
  have ioff: "Ioff ind' = ioffset inum" using write_all_Ioff [OF wa] by simp
  have old: "ird ?ind f = Ok v" if "(f, v) \<in> set (disk_fields ic)" for f v
    using flush_changed_False [OF w(1) _ that] assms(4,5) that
    by (cases "f = 6") (auto simp: dindirect_def imem_wf_def disk_fields_def)
  have "fieldr p f = fieldr blk f" if f: "0 \<le> f" "f < 512" for f
  proof -
    have eq: "f = ifield (f div 16) (f mod 16)" by (simp add: ifield_def NIWORDS_def NIADDRS_def)
    have n: "0 \<le> f mod 16" "f mod 16 < 16" by simp_all
    show ?thesis
    proof (cases "f div 16 = ioffset inum")
      case True
      have "ird ind' (f mod 16) = ird ?ind (f mod 16)"
        using old flush_writes_read [OF w(2) assms(4)] disk_fields_field_of [OF n] by metis
      then show ?thesis using True eq ioff w(3) by (simp add: ird_def)
    next
      case False
      then show ?thesis using flush_writes_frame [OF w(2) n] eq w(3) by (metis Inode_t.select_convs)
    qed
  qed
  then show ?thesis using page_eqI ok w(3) assms(2) by blast
qed

theorem flushto_false_unchanged_witness:
  "flushto (imem_zero 3) (replicate 4096 0) 3 = Ok (False, replicate 4096 0)"
proof -
  let ?ind = "\<lparr>Iblk = replicate 4096 0, Ioff = ioffset 3\<rparr>" and ?ic = "imem_zero 3"
  have wf: "imem_wf ?ic" by (simp add: imem_wf_def imem_zero_def disk_fields_def upto_0_8)
  have "flush_changed ?ic ?ind = Ok False"
    by (rule flush_changed_FalseI)
      (auto simp: disk_fields_def imem_zero_def upto_0_8 zero_page_slot)
  moreover obtain ind' where "flush_writes ?ic ?ind = Ok ind'"
    using flush_writes_Ok [of ?ind ?ic] by (auto simp: ioffset_nonneg imem_zero_def)
  ultimately have fl: "flushto ?ic (replicate 4096 0) 3 = Ok (False, Iblk ind')" by (simp add: flushto_Ok)
  then have "Iblk ind' = replicate 4096 0"
    by (rule flushto_false_unchanged) (auto simp: wf dindirect_def zero_page_slot, simp add: imem_zero_def)
  then show ?thesis using fl by simp
qed

text \<open>
  C24: the test of \<open>flushto\<close> leaves out the double-indirect block number.  When that is the only
  field that differs, \<open>flushto\<close> changes the block and reports that nothing changed, so
  \<open>_iupdate\<close> does not log the block.
\<close>

theorem flushto_misses_dindirect:
  assumes "page_ok blk" "0 \<le> inum" "imem_wf ic" "0 \<le> im_itype ic" "im_itype ic \<le> 4"
    "\<And>f v. (f, v) \<in> set (disk_fields ic) \<Longrightarrow> f \<noteq> 6 \<Longrightarrow> ird \<lparr>Iblk = blk, Ioff = ioffset inum\<rparr> f = Ok v"
    "dindirect \<lparr>Iblk = blk, Ioff = ioffset inum\<rparr> = Ok d" "d \<noteq> im_dindir ic"
  shows "\<exists>p. flushto ic blk inum = Ok (False, p) \<and> p \<noteq> blk"
proof -
  let ?ind = "\<lparr>Iblk = blk, Ioff = ioffset inum\<rparr>"
  obtain ind' where w: "flush_writes ic ?ind = Ok ind'"
    using flush_writes_Ok [OF slot_init_ok [OF assms(1,2)] assms(4,5)] by blast
  have "flush_changed ic ?ind = Ok False"
    using flush_changed_FalseI [OF assms(6)] assms(3-5) by (simp add: imem_wf_def)
  then have fl: "flushto ic blk inum = Ok (False, Iblk ind')" using w by (simp add: flushto_Ok)
  have "ird ind' 6 = Ok (im_dindir ic)"
    using flush_writes_read [OF w assms(3)] by (simp add: disk_fields_def)
  moreover have "Ioff ind' = ioffset inum" using write_all_Ioff w flush_writes_write_all assms(4,5) by fastforce
  ultimately have "Iblk ind' \<noteq> blk" using assms(7,8) by (auto simp: dindirect_def ird_def)
  then show ?thesis using fl by blast
qed

theorem flushto_misses_dindirect_witness:
  "\<exists>p. flushto ((imem_zero 3)\<lparr>im_dindir := 7\<rparr>) (replicate 4096 0) 3 = Ok (False, p) \<and> p \<noteq> replicate 4096 0"
  by (rule flushto_misses_dindirect [of _ _ _ 0])
    (auto simp: imem_wf_def imem_zero_def disk_fields_def upto_0_8 zero_page_slot dindirect_def)

end
