(* ===== verification/Userio.thy ===== *)
theory Userio
  imports Prelude
begin

text \<open>
  \<^verbatim>\<open>fdops.Userio_i\<close>, the interface through which the kernel copies to and from user memory, and its
  implementation over a kernel buffer, \<^verbatim>\<open>vm.Fakeubuf_t\<close> (\<^verbatim>\<open>vm/userbuf.go\<close>).

  A Go interface value is a dictionary of the methods together with the receiver, so a client takes
  the dictionary \<open>userio_i\<close> and threads the receiver's state.  \<open>Uioread dst\<close> fills a prefix of
  \<open>dst\<close>; the model is given the capacity of \<open>dst\<close> and returns the prefix.
\<close>

record 'u userio_i =
  Uioread :: "'u \<Rightarrow> nat \<Rightarrow> (byte list \<times> err_t \<times> 'u) go"
  Uiowrite :: "'u \<Rightarrow> byte list \<Rightarrow> (nat \<times> err_t \<times> 'u) go"
  Remain :: "'u \<Rightarrow> int"
  Totalsz :: "'u \<Rightarrow> int"

text \<open>
  The contract.  \<open>pending\<close> is what the receiver has left to read, \<open>sunk\<close> what has been written to it
  and \<open>room\<close> how much more it takes.  A transfer is a prefix even when it ends in an error, and a
  transfer without error is as long as possible.
\<close>

locale userio =
  fixes ui :: "'u userio_i"
    and uinv :: "'u \<Rightarrow> bool"
    and pending :: "'u \<Rightarrow> byte list"
    and sunk :: "'u \<Rightarrow> byte list"
    and room :: "'u \<Rightarrow> nat"
  assumes read_ok: "uinv u \<Longrightarrow> \<exists>bs e u'. Uioread ui u n = Ok (bs, e, u') \<and> uinv u' \<and>
      length bs \<le> n \<and> pending u = bs @ pending u' \<and> (e = 0 \<longrightarrow> length bs = min n (length (pending u)))"
    and write_ok: "uinv u \<Longrightarrow> \<exists>c e u'. Uiowrite ui u src = Ok (c, e, u') \<and> uinv u' \<and>
      c \<le> length src \<and> c \<le> room u \<and> sunk u' = sunk u @ take c src \<and> room u' = room u - c \<and>
      (e = 0 \<longrightarrow> c = min (length src) (room u))"
begin

lemma readE:
  assumes "uinv u"
  obtains bs e u' where "Uioread ui u n = Ok (bs, e, u')" "uinv u'" "length bs \<le> n"
    "pending u = bs @ pending u'" "e = 0 \<Longrightarrow> length bs = min n (length (pending u))"
  using read_ok [OF assms, of n] by blast

lemma writeE:
  assumes "uinv u"
  obtains c e u' where "Uiowrite ui u src = Ok (c, e, u')" "uinv u'" "c \<le> length src" "c \<le> room u"
    "sunk u' = sunk u @ take c src" "room u' = room u - c" "e = 0 \<Longrightarrow> c = min (length src) (room u)"
  using write_ok [OF assms, of src] by blast

end

subsection \<open>A kernel buffer as user memory\<close>

text \<open>
  \<open>fb_fbuf\<close> is the slice still to be transferred; \<open>fb_done\<close> is the part of the backing array before
  it, which the caller of \<open>Fake_init\<close> still sees.
\<close>

record fakeubuf_t =
  fb_done :: "byte list"
  fb_fbuf :: "byte list"
  fb_off :: int
  fb_len :: int

definition Fake_init :: "fakeubuf_t \<Rightarrow> byte list \<Rightarrow> fakeubuf_t" where
  "Fake_init fb buf = fb\<lparr>fb_done := [], fb_fbuf := buf, fb_len := int (length buf)\<rparr>"

definition fb_Remain :: "fakeubuf_t \<Rightarrow> int" where
  "fb_Remain fb = int (length (fb_fbuf fb))"

definition fb_Totalsz :: "fakeubuf_t \<Rightarrow> int" where
  "fb_Totalsz fb = fb_len fb"

definition fb_Uioread :: "fakeubuf_t \<Rightarrow> nat \<Rightarrow> (byte list \<times> err_t \<times> fakeubuf_t) go" where
  "fb_Uioread fb n =
     (let c = min n (length (fb_fbuf fb)) in
      Ok (take c (fb_fbuf fb), 0,
        fb\<lparr>fb_done := fb_done fb @ take c (fb_fbuf fb), fb_fbuf := drop c (fb_fbuf fb)\<rparr>))"

definition fb_Uiowrite :: "fakeubuf_t \<Rightarrow> byte list \<Rightarrow> (nat \<times> err_t \<times> fakeubuf_t) go" where
  "fb_Uiowrite fb src =
     (let c = min (length (fb_fbuf fb)) (length src) in
      Ok (c, 0, fb\<lparr>fb_done := fb_done fb @ take c src, fb_fbuf := drop c (fb_fbuf fb)\<rparr>))"

definition fake_userio :: "fakeubuf_t userio_i" where
  "fake_userio = \<lparr>Uioread = fb_Uioread, Uiowrite = fb_Uiowrite, Remain = fb_Remain, Totalsz = fb_Totalsz\<rparr>"

interpretation fake: userio fake_userio "\<lambda>fb. True" fb_fbuf fb_done "\<lambda>fb. length (fb_fbuf fb)"
  by unfold_locales (auto simp: fake_userio_def fb_Uioread_def fb_Uiowrite_def Let_def)

end
