(* ===== verification/Circbuf.thy ===== *)
theory Circbuf
  imports Userio Defs_Model Util_Model
begin

text \<open>
  \<^verbatim>\<open>biscuit/src/circbuf/circbuf.go\<close>: the circular byte buffer behind pipes, unix sockets, the console
  and TCP.

  \<open>cb_head\<close> and \<open>cb_tail\<close> only grow; they index the buffer modulo its size.  The buffer is
  allocated lazily, so \<open>cb_Buf\<close> is \<open>None\<close> for Go's \<open>nil\<close>.  The page allocator is the interface value
  \<open>page_i\<close> with its state threaded.  \<open>Rawwrite\<close> and \<open>Rawread\<close> return slices of the buffer, which
  the model gives as index ranges.
\<close>

record 'm page_i =
  pi_Refup :: "'m \<Rightarrow> int \<Rightarrow> 'm go"
  pi_Refdown :: "'m \<Rightarrow> int \<Rightarrow> (bool \<times> 'm) go"
  pi_Refpg_new_nozero :: "'m \<Rightarrow> ((byte list \<times> int) option \<times> 'm) go"

record circbuf_t =
  cb_Buf :: "byte list option"
  cb_bufsz :: int
  cb_head :: int
  cb_tail :: int
  cb_p_pg :: int

definition Bufsz :: "circbuf_t \<Rightarrow> int" where "Bufsz cb = cb_bufsz cb"

definition Set_cb :: "circbuf_t \<Rightarrow> byte list \<Rightarrow> int \<Rightarrow> circbuf_t" where
  "Set_cb cb nb did = cb\<lparr>cb_Buf := Some nb, cb_bufsz := int (length nb), cb_head := did, cb_tail := 0\<rparr>"

definition Cb_init :: "circbuf_t \<Rightarrow> int \<Rightarrow> (err_t \<times> circbuf_t) go" where
  "Cb_init cb sz = (if sz \<le> 0 \<or> sz > 4096 then Panic ''bad circbuf size''
     else Ok (0, cb\<lparr>cb_bufsz := sz, cb_head := 0, cb_tail := 0\<rparr>))"

definition Cb_init_phys :: "'m page_i \<Rightarrow> circbuf_t \<Rightarrow> byte list \<Rightarrow> int \<Rightarrow> 'm \<Rightarrow> (circbuf_t \<times> 'm) go" where
  "Cb_init_phys pgi cb v p_pg m = gbind (pi_Refup pgi m p_pg) (\<lambda>m.
     Ok (cb\<lparr>cb_p_pg := p_pg, cb_Buf := Some v, cb_bufsz := int (length v), cb_head := 0, cb_tail := 0\<rparr>, m))"

definition Cb_release :: "'m page_i \<Rightarrow> circbuf_t \<Rightarrow> 'm \<Rightarrow> (circbuf_t \<times> 'm) go" where
  "Cb_release pgi cb m = (case cb_Buf cb of
       None \<Rightarrow> Ok (cb, m)
     | Some _ \<Rightarrow> gbind (pi_Refdown pgi m (cb_p_pg cb)) (\<lambda>(_, m).
         Ok (cb\<lparr>cb_p_pg := 0, cb_Buf := None, cb_head := 0, cb_tail := 0\<rparr>, m)))"

definition Cb_ensure :: "'m page_i \<Rightarrow> circbuf_t \<Rightarrow> 'm \<Rightarrow> (err_t \<times> circbuf_t \<times> 'm) go" where
  "Cb_ensure pgi cb m = (case cb_Buf cb of
       Some _ \<Rightarrow> Ok (0, cb, m)
     | None \<Rightarrow>
         if cb_bufsz cb = 0 then Panic ''not initted''
         else gbind (pi_Refpg_new_nozero pgi m) (\<lambda>(r, m).
           case r of
             None \<Rightarrow> Ok (- ENOMEM, cb, m)
           | Some (pg, p_pg) \<Rightarrow>
               if cb_bufsz cb < 0 \<or> cb_bufsz cb > int (length pg) then Panic ''slice bounds out of range''
               else gbind (Cb_init_phys pgi cb (take (nat (cb_bufsz cb)) pg) p_pg m) (\<lambda>(cb, m).
                 Ok (0, cb, m))))"

definition Full :: "circbuf_t \<Rightarrow> bool" where "Full cb \<longleftrightarrow> cb_head cb - cb_tail cb = cb_bufsz cb"
definition Empty :: "circbuf_t \<Rightarrow> bool" where "Empty cb \<longleftrightarrow> cb_head cb = cb_tail cb"
definition Left :: "circbuf_t \<Rightarrow> int" where "Left cb = cb_bufsz cb - (cb_head cb - cb_tail cb)"
definition Used :: "circbuf_t \<Rightarrow> int" where "Used cb = cb_head cb - cb_tail cb"

text \<open>The buffer's bytes; a slice expression on \<open>nil\<close> with a positive bound panics.\<close>

definition the_Buf :: "circbuf_t \<Rightarrow> byte list" where
  "the_Buf cb = (case cb_Buf cb of None \<Rightarrow> [] | Some b \<Rightarrow> b)"

definition Copyin_second :: "'u userio_i \<Rightarrow> int \<Rightarrow> int \<Rightarrow> int \<Rightarrow> circbuf_t \<Rightarrow> 'u \<Rightarrow>
    (int \<times> err_t \<times> circbuf_t \<times> 'u) go" where
  "Copyin_second ui hi ti c cb src =
     (if hi > ti then Panic ''wut?''
      else if hi < 0 \<or> ti > int (length (the_Buf cb)) then Panic ''slice bounds out of range''
      else gbind (Uioread ui src (nat (ti - hi))) (\<lambda>(bs, err, src).
        let cb = cb\<lparr>cb_Buf := Some (overlay (the_Buf cb) (nat hi) bs)\<rparr>;
            c = c + int (length bs)
        in if err \<noteq> 0 then Ok (c, err, cb, src)
           else Ok (c, 0, cb\<lparr>cb_head := cb_head cb + c\<rparr>, src)))"

definition Copyin_body :: "'u userio_i \<Rightarrow> circbuf_t \<Rightarrow> 'u \<Rightarrow> (int \<times> err_t \<times> circbuf_t \<times> 'u) go" where
  "Copyin_body ui cb src =
     (if Full cb then Ok (0, 0, cb, src)
      else if cb_bufsz cb = 0 then Panic ''integer divide by zero''
      else
        let hi = cb_head cb smod cb_bufsz cb; ti = cb_tail cb smod cb_bufsz cb
        in if ti \<le> hi then
             if hi < 0 \<or> hi > int (length (the_Buf cb)) then Panic ''slice bounds out of range''
             else
               let n = length (the_Buf cb) - nat hi in
               gbind (Uioread ui src n) (\<lambda>(bs, err, src).
                 let cb = cb\<lparr>cb_Buf := Some (overlay (the_Buf cb) (nat hi) bs)\<rparr>;
                     wrote = int (length bs)
                 in if err \<noteq> 0 then Ok (0, err, cb, src)
                    else if length bs \<noteq> n then Ok (wrote, 0, cb\<lparr>cb_head := cb_head cb + wrote\<rparr>, src)
                    else Copyin_second ui ((cb_head cb + wrote) smod cb_bufsz cb) ti wrote cb src)
           else Copyin_second ui hi ti 0 cb src)"

definition Copyin :: "'m page_i \<Rightarrow> 'u userio_i \<Rightarrow> circbuf_t \<Rightarrow> 'm \<Rightarrow> 'u \<Rightarrow>
    (int \<times> err_t \<times> circbuf_t \<times> 'm \<times> 'u) go" where
  "Copyin pgi ui cb m src = gbind (Cb_ensure pgi cb m) (\<lambda>(err, cb, m).
     if err \<noteq> 0 then Ok (0, err, cb, m, src)
     else gbind (Copyin_body ui cb src) (\<lambda>(c, err, cb, src). Ok (c, err, cb, m, src)))"

definition limit_max :: "int \<Rightarrow> byte list \<Rightarrow> byte list go" where
  "limit_max mx src = (if mx \<noteq> 0 \<and> mx < int (length src)
     then if mx < 0 then Panic ''slice bounds out of range'' else Ok (take (nat mx) src)
     else Ok src)"

definition Copyout_second :: "'u userio_i \<Rightarrow> int \<Rightarrow> int \<Rightarrow> int \<Rightarrow> int \<Rightarrow> circbuf_t \<Rightarrow> 'u \<Rightarrow>
    (int \<times> err_t \<times> circbuf_t \<times> 'u) go" where
  "Copyout_second ui hi ti c mx cb dst =
     (if ti > hi then Panic ''wut?''
      else if ti < 0 \<or> hi > int (length (the_Buf cb)) then Panic ''slice bounds out of range''
      else gbind (limit_max mx (sub_list (the_Buf cb) (nat ti) (nat hi))) (\<lambda>src.
        gbind (Uiowrite ui dst src) (\<lambda>(wrote, err, dst).
          if err \<noteq> 0 then Ok (0, err, cb, dst)
          else let c = c + int wrote in Ok (c, 0, cb\<lparr>cb_tail := cb_tail cb + c\<rparr>, dst))))"

definition Copyout_body :: "'u userio_i \<Rightarrow> circbuf_t \<Rightarrow> 'u \<Rightarrow> int \<Rightarrow> (int \<times> err_t \<times> circbuf_t \<times> 'u) go" where
  "Copyout_body ui cb dst mx =
     (if Empty cb then Ok (0, 0, cb, dst)
      else if cb_bufsz cb = 0 then Panic ''integer divide by zero''
      else
        let hi = cb_head cb smod cb_bufsz cb; ti = cb_tail cb smod cb_bufsz cb
        in if hi \<le> ti then
             if ti < 0 \<or> ti > int (length (the_Buf cb)) then Panic ''slice bounds out of range''
             else gbind (limit_max mx (drop (nat ti) (the_Buf cb))) (\<lambda>src.
               gbind (Uiowrite ui dst src) (\<lambda>(wrote, err, dst).
                 if err \<noteq> 0 then Ok (0, err, cb, dst)
                 else if wrote \<noteq> length src \<or> int wrote = mx
                   then Ok (int wrote, 0, cb\<lparr>cb_tail := cb_tail cb + int wrote\<rparr>, dst)
                 else Copyout_second ui hi ((cb_tail cb + int wrote) smod cb_bufsz cb) (int wrote)
                   (if mx \<noteq> 0 then mx - int wrote else mx) cb dst))
           else Copyout_second ui hi ti 0 mx cb dst)"

definition Copyout_n :: "'m page_i \<Rightarrow> 'u userio_i \<Rightarrow> circbuf_t \<Rightarrow> 'm \<Rightarrow> 'u \<Rightarrow> int \<Rightarrow>
    (int \<times> err_t \<times> circbuf_t \<times> 'm \<times> 'u) go" where
  "Copyout_n pgi ui cb m dst mx = gbind (Cb_ensure pgi cb m) (\<lambda>(err, cb, m).
     if err \<noteq> 0 then Ok (0, err, cb, m, dst)
     else gbind (Copyout_body ui cb dst mx) (\<lambda>(c, err, cb, dst). Ok (c, err, cb, m, dst)))"

definition Copyout :: "'m page_i \<Rightarrow> 'u userio_i \<Rightarrow> circbuf_t \<Rightarrow> 'm \<Rightarrow> 'u \<Rightarrow>
    (int \<times> err_t \<times> circbuf_t \<times> 'm \<times> 'u) go" where
  "Copyout pgi ui cb m dst = Copyout_n pgi ui cb m dst 0"

type_synonym range = "nat \<times> nat"

definition Rawwrite :: "circbuf_t \<Rightarrow> int \<Rightarrow> int \<Rightarrow> (range option \<times> range option) go" where
  "Rawwrite cb offset sz = (case cb_Buf cb of
       None \<Rightarrow> Panic ''no lazy allocation for tcp''
     | Some b \<Rightarrow>
         if Left cb < sz then Panic ''bad size''
         else if sz = 0 then Ok (None, None)
         else if cb_bufsz cb = 0 then Panic ''integer divide by zero''
         else
           let oi = (cb_head cb + offset) smod cb_bufsz cb;
               oe = (cb_head cb + offset + sz) smod cb_bufsz cb;
               hi = cb_head cb smod cb_bufsz cb;
               ti = cb_tail cb smod cb_bufsz cb
           in if ti \<le> hi then
                if (oi \<ge> ti \<and> oi < hi) \<or> (oe > ti \<and> oe \<le> hi) then Panic ''intersects with user data''
                else if oi < 0 \<or> oi > int (length b) then Panic ''slice bounds out of range''
                else if int (length b) - oi > sz then
                  if sz < 0 then Panic ''slice bounds out of range''
                  else Ok (Some (nat oi, nat oi + nat sz), None)
                else if oe < 0 \<or> oe > int (length b) then Panic ''slice bounds out of range''
                else Ok (Some (nat oi, length b), Some (0, nat oe))
              else if \<not> (oi \<ge> hi \<and> oi < ti \<and> oe > hi \<and> oe \<le> ti) then Panic ''intersects with user data''
              else if oi < 0 \<or> oi > oe \<or> oe > int (length b) then Panic ''slice bounds out of range''
              else Ok (Some (nat oi, nat oe), None))"

definition Advhead :: "circbuf_t \<Rightarrow> int \<Rightarrow> circbuf_t go" where
  "Advhead cb sz = (if Full cb \<or> Left cb < sz then Panic ''advancing full cb''
     else Ok (cb\<lparr>cb_head := cb_head cb + sz\<rparr>))"

definition Rawread :: "circbuf_t \<Rightarrow> int \<Rightarrow> (range option \<times> range option) go" where
  "Rawread cb offset = (case cb_Buf cb of
       None \<Rightarrow> Panic ''no lazy allocation for tcp''
     | Some b \<Rightarrow>
         if cb_bufsz cb = 0 then Panic ''integer divide by zero''
         else
           let oi = (cb_tail cb + offset) smod cb_bufsz cb;
               hi = cb_head cb smod cb_bufsz cb;
               ti = cb_tail cb smod cb_bufsz cb
           in if ti < hi then
                if oi \<ge> hi \<or> oi < ti then Panic ''outside user data''
                else if oi < 0 \<or> hi > int (length b) then Panic ''slice bounds out of range''
                else Ok (Some (nat oi, nat hi), None)
              else if oi \<ge> hi \<and> oi < ti then Panic ''outside user data''
              else if ti < 0 \<or> ti > int (length b) then Panic ''slice bounds out of range''
              else
                let tlen = int (length b) - ti in
                if tlen > offset then
                  if oi < 0 \<or> oi > int (length b) \<or> hi < 0 \<or> hi > int (length b)
                  then Panic ''slice bounds out of range''
                  else Ok (Some (nat oi, length b), Some (0, nat hi))
                else
                  let roff = offset - tlen in
                  if roff < 0 \<or> roff > hi \<or> hi > int (length b) then Panic ''slice bounds out of range''
                  else Ok (Some (nat roff, nat hi), None))"

definition Advtail :: "circbuf_t \<Rightarrow> int \<Rightarrow> circbuf_t go" where
  "Advtail cb sz = (if sz \<noteq> 0 \<and> (Empty cb \<or> Used cb < sz) then Panic ''advancing empty cb''
     else Ok (cb\<lparr>cb_tail := cb_tail cb + sz\<rparr>))"

subsection \<open>The queue of bytes\<close>

text \<open>\<open>ring b t h\<close> are the bytes at positions \<open>t, ..., h - 1\<close> of the buffer \<open>b\<close> taken modulo its size.\<close>

definition ring :: "byte list \<Rightarrow> int \<Rightarrow> int \<Rightarrow> byte list" where
  "ring b t h = map (\<lambda>i. b ! nat (i mod int (length b))) [t..h - 1]"

definition cb_data :: "circbuf_t \<Rightarrow> byte list" where
  "cb_data cb = ring (the_Buf cb) (cb_tail cb) (cb_head cb)"

definition cb_inv :: "circbuf_t \<Rightarrow> bool" where
  "cb_inv cb \<longleftrightarrow> 0 < cb_bufsz cb \<and> 0 \<le> cb_tail cb \<and> cb_tail cb \<le> cb_head cb \<and>
     cb_head cb - cb_tail cb \<le> cb_bufsz cb \<and>
     (case cb_Buf cb of None \<Rightarrow> cb_head cb = cb_tail cb | Some b \<Rightarrow> int (length b) = cb_bufsz cb)"

lemma length_ring [simp]: "length (ring b t h) = nat (h - t)"
  by (simp add: ring_def)

lemma nth_ring: "i < nat (h - t) \<Longrightarrow> ring b t h ! i = b ! nat ((t + int i) mod int (length b))"
  by (simp add: ring_def)

lemma ring_append: "t \<le> m \<Longrightarrow> m \<le> h \<Longrightarrow> ring b t h = ring b t m @ ring b m h"
proof -
  assume "t \<le> m" "m \<le> h"
  have "[t..h - 1] = [t..m - 1] @ [m..h - 1]"
  proof (cases "m = h")
    case False
    then show ?thesis using upto_split1 [of t m "h - 1"] \<open>t \<le> m\<close> \<open>m \<le> h\<close> by simp
  qed simp
  then show ?thesis by (simp add: ring_def)
qed

lemma ring_sub_list:
  assumes "0 < length b" "0 \<le> n" "t mod int (length b) + n \<le> int (length b)"
  shows "ring b t (t + n) = sub_list b (nat (t mod int (length b))) (nat (t mod int (length b)) + nat n)"
proof (rule nth_equalityI)
  let ?s = "int (length b)"
  have m: "0 \<le> t mod ?s" using assms(1) by simp
  have fit: "nat (t mod ?s) + nat n \<le> length b" using assms m by linarith
  show "length (ring b t (t + n)) = length (sub_list b (nat (t mod ?s)) (nat (t mod ?s) + nat n))"
    using fit by simp
  fix i assume "i < length (ring b t (t + n))"
  then have i: "i < nat n" by simp
  have "(t + int i) mod ?s = t mod ?s + int i"
  proof -
    have "(t + int i) mod ?s = (t mod ?s + int i) mod ?s" by (simp add: mod_add_left_eq)
    also have "\<dots> = t mod ?s + int i" using i assms m by (intro mod_pos_pos_trivial) linarith+
    finally show ?thesis .
  qed
  then have "nat ((t + int i) mod ?s) = nat (t mod ?s) + i" using m by linarith
  then show "ring b t (t + n) ! i = sub_list b (nat (t mod ?s)) (nat (t mod ?s) + nat n) ! i"
    using i fit by (simp add: nth_ring nth_sub_list)
qed

lemma mod_window:
  fixes s h k j :: int
  assumes "0 < s" "(h + k) mod s = h mod s + j" "- s < k - j" "k - j < s"
  shows "k = j"
proof -
  have "(h + k) mod s = (h mod s + j) mod s" using assms(2) by (metis mod_mod_trivial)
  also have "\<dots> = (h + j) mod s" by (rule mod_add_left_eq)
  finally have "s dvd (k - j)" by (simp add: mod_eq_dvd_iff algebra_simps)
  then have "s dvd \<bar>k - j\<bar>" by simp
  moreover have "\<bar>k - j\<bar> < s" using assms(3,4) by linarith
  ultimately have "\<not> 0 < \<bar>k - j\<bar>" using zdvd_not_zless by blast
  then show ?thesis by simp
qed

text \<open>Writing at the head does not disturb the queue and appends what was written.\<close>

lemma ring_overlay:
  assumes "t \<le> h" "h mod int (length b) + int (length bs) \<le> int (length b)"
    "h - t + int (length bs) \<le> int (length b)" "0 < length b"
  shows "ring (overlay b (nat (h mod int (length b))) bs) t (h + int (length bs)) = ring b t h @ bs"
proof (rule nth_equalityI)
  let ?s = "int (length b)" and ?hi = "nat (h mod int (length b))"
  have hi: "int ?hi = h mod ?s" using assms(4) by simp
  have fit: "?hi + length bs \<le> length b" using assms(2) hi by linarith
  show "length (ring (overlay b ?hi bs) t (h + int (length bs))) = length (ring b t h @ bs)"
    using assms(1) by simp
  fix i assume "i < length (ring (overlay b ?hi bs) t (h + int (length bs)))"
  then have i: "int i < h - t + int (length bs)" using assms(1) by simp
  define k where "k = t + int i - h"
  define p where "p = (h + k) mod ?s"
  have p: "0 \<le> p" "p < ?s" using assms(4) by (simp_all add: p_def)
  have lhs: "ring (overlay b ?hi bs) t (h + int (length bs)) ! i = overlay b ?hi bs ! nat p"
    using i fit by (simp add: nth_ring p_def k_def)
  show "ring (overlay b ?hi bs) t (h + int (length bs)) ! i = (ring b t h @ bs) ! i"
  proof (cases "0 \<le> k")
    case True
    then have "p = h mod ?s + k"
    proof -
      have "p = (h mod ?s + k) mod ?s" unfolding p_def by (rule mod_add_left_eq [symmetric])
      also have "\<dots> = h mod ?s + k"
        using True i assms(2) hi by (intro mod_pos_pos_trivial) (linarith, simp add: k_def)
      finally show ?thesis .
    qed
    moreover have "0 \<le> h mod ?s" using assms(4) by simp
    ultimately have "nat p = ?hi + nat k" using True by (simp add: nat_add_distrib)
    moreover have "nat k < length bs" using i True unfolding k_def by linarith
    ultimately have "overlay b ?hi bs ! nat p = bs ! nat k" using fit by (simp add: nth_overlay)
    moreover have "nat k = i - nat (h - t)" "nat (h - t) \<le> i" using True assms(1) by (simp_all add: k_def)
    ultimately show ?thesis using lhs by (simp add: nth_append)
  next
    case False
    have "\<not> (?hi \<le> nat p \<and> nat p < ?hi + length bs)"
    proof
      assume "?hi \<le> nat p \<and> nat p < ?hi + length bs"
      then have j: "0 \<le> p - h mod ?s" "p - h mod ?s < int (length bs)" using hi p by linarith+
      have "k = p - h mod ?s"
      proof (rule mod_window)
        show "0 < ?s" using assms(4) by simp
        show "(h + k) mod ?s = h mod ?s + (p - h mod ?s)" by (simp add: p_def)
        have "t - h \<le> k" by (simp add: k_def)
        then show "- ?s < k - (p - h mod ?s)" "k - (p - h mod ?s) < ?s" using False j assms(1,3) by linarith+
      qed
      then show False using False j by simp
    qed
    then have "overlay b ?hi bs ! nat p = b ! nat p" using fit p by (subst nth_overlay) auto
    moreover have "i < nat (h - t)" using False by (simp add: k_def)
    ultimately show ?thesis using lhs by (simp add: nth_append nth_ring p_def k_def)
  qed
qed

lemma ring_overlay_frame:
  assumes "t \<le> h" "h \<le> h1" "h1 mod int (length b) + int (length bs) \<le> int (length b)"
    "h1 - t + int (length bs) \<le> int (length b)" "0 < length b"
  shows "ring (overlay b (nat (h1 mod int (length b))) bs) t h = ring b t h"
proof -
  let ?b = "overlay b (nat (h1 mod int (length b))) bs"
  have "ring ?b t (h1 + int (length bs)) = ring ?b t h @ ring ?b h (h1 + int (length bs))"
    using assms by (intro ring_append) auto
  moreover have "ring ?b t (h1 + int (length bs)) = ring b t h @ ring b h h1 @ bs"
    using ring_overlay [of t h1 b bs] ring_append [of t h h1 b] assms by simp
  ultimately show ?thesis by (simp add: append_eq_append_conv)
qed

lemma ring_geom:
  fixes s h t :: int
  assumes "0 < s" "0 \<le> h - t" "h - t \<le> s"
  shows "h - t = h mod s - t mod s \<or> h - t = h mod s - t mod s + s"
proof -
  define q where "q = h div s - t div s"
  have e: "h - t = s * q + (h mod s - t mod s)"
    using div_mult_mod_eq [of h s] div_mult_mod_eq [of t s] by (simp add: q_def algebra_simps)
  have m: "0 \<le> h mod s" "h mod s < s" "0 \<le> t mod s" "t mod s < s" using assms(1) by simp_all
  have "q < 2"
  proof (rule ccontr)
    assume "\<not> q < 2"
    then have "s * 2 \<le> s * q" using assms(1) by (intro mult_left_mono) auto
    then show False using e m assms(3) by linarith
  qed
  moreover have "- 1 < q"
  proof (rule ccontr)
    assume "\<not> - 1 < q"
    then have "s * q \<le> s * (- 1)" using assms(1) by (intro mult_left_mono) auto
    then show False using e m assms(2) by linarith
  qed
  ultimately have "q = 0 \<or> q = 1" by linarith
  then show ?thesis using e by auto
qed

lemma cb_invD:
  assumes "cb_inv cb" "cb_Buf cb = Some b"
  shows "0 < cb_bufsz cb" "0 \<le> cb_tail cb" "cb_tail cb \<le> cb_head cb" "0 \<le> cb_head cb"
    "cb_head cb - cb_tail cb \<le> cb_bufsz cb" "int (length b) = cb_bufsz cb" "0 < length b" "the_Buf cb = b"
  using assms by (auto simp: cb_inv_def the_Buf_def)

lemma cb_data_Some: "cb_Buf cb = Some b \<Longrightarrow> cb_data cb = ring b (cb_tail cb) (cb_head cb)"
  by (simp add: cb_data_def the_Buf_def)

lemma cb_invI:
  assumes "cb_inv cb" "cb_Buf cb = Some b" "length b' = length b" "cb_tail cb \<le> h" "h - cb_tail cb \<le> cb_bufsz cb"
  shows "cb_inv (cb\<lparr>cb_Buf := Some b', cb_head := h\<rparr>)"
  using assms by (auto simp: cb_inv_def)

text \<open>One \<open>Uioread\<close> into the free space at the virtual head \<open>h1\<close>, ahead of the queue's own head.\<close>

lemma cb_write_step:
  assumes "cb_inv cb" "cb_Buf cb = Some b" "length b1 = length b" "cb_head cb \<le> h1"
    "ring b1 (cb_tail cb) h1 = cb_data cb @ bs0"
    "h1 mod cb_bufsz cb + int (length bs) \<le> cb_bufsz cb" "h1 - cb_tail cb + int (length bs) \<le> cb_bufsz cb"
  defines "b2 \<equiv> overlay b1 (nat (h1 mod cb_bufsz cb)) bs"
  shows "length b2 = length b" "ring b2 (cb_tail cb) (h1 + int (length bs)) = cb_data cb @ bs0 @ bs"
    "ring b2 (cb_tail cb) (cb_head cb) = cb_data cb"
proof -
  note inv = cb_invD [OF assms(1,2)]
  have s: "cb_bufsz cb = int (length b1)" using inv(6) assms(3) by simp
  have m: "0 \<le> h1 mod int (length b1)" using inv(7) assms(3) by simp
  then have fit: "nat (h1 mod int (length b1)) + length bs \<le> length b1" using assms(6) unfolding s by linarith
  then show "length b2 = length b" using assms(3) s by (simp add: b2_def)
  show "ring b2 (cb_tail cb) (h1 + int (length bs)) = cb_data cb @ bs0 @ bs"
  proof -
    have "ring b2 (cb_tail cb) (h1 + int (length bs)) = ring b1 (cb_tail cb) h1 @ bs"
      unfolding b2_def s using assms(3,4,6,7) inv(3,7) unfolding s by (intro ring_overlay) linarith+
    then show ?thesis using assms(5) by simp
  qed
  have "ring b2 (cb_tail cb) (cb_head cb) = ring b1 (cb_tail cb) (cb_head cb)"
    unfolding b2_def s using assms(3,4,6,7) inv(3,7) unfolding s by (intro ring_overlay_frame) linarith+
  moreover have "ring b1 (cb_tail cb) (cb_head cb) = cb_data cb"
  proof -
    have "ring b1 (cb_tail cb) (cb_head cb) @ ring b1 (cb_head cb) h1 = cb_data cb @ bs0"
      using ring_append [OF inv(3) assms(4), of b1] assms(5) by simp
    then show ?thesis using cb_data_Some [OF assms(2)] by (simp add: append_eq_append_conv)
  qed
  ultimately show "ring b2 (cb_tail cb) (cb_head cb) = cb_data cb" by simp
qed

subsection \<open>Copying in and out\<close>

text \<open>
  What \<open>Copyin\<close> promises: the source lost the bytes \<open>bs\<close>; without an error they were appended to the
  queue and are as many as fit, with an error the queue is unchanged.
\<close>

definition copied_in :: "('u \<Rightarrow> byte list) \<Rightarrow> circbuf_t \<Rightarrow> 'u \<Rightarrow> int \<Rightarrow> err_t \<Rightarrow> circbuf_t \<Rightarrow> 'u \<Rightarrow> bool" where
  "copied_in pend cb u c e cb' u' \<longleftrightarrow> cb_inv cb' \<and> cb_Buf cb' \<noteq> None \<and>
     (\<exists>bs. pend u = bs @ pend u' \<and>
       (if e = 0 then cb_data cb' = cb_data cb @ bs \<and> c = int (length bs) \<and>
          c = min (Left cb) (int (length (pend u)))
        else cb_data cb' = cb_data cb))"

lemma copied_in_ok:
  "cb_inv cb' \<Longrightarrow> cb_Buf cb' \<noteq> None \<Longrightarrow> pend u = bs @ pend u' \<Longrightarrow> cb_data cb' = cb_data cb @ bs \<Longrightarrow>
   c = int (length bs) \<Longrightarrow> c = min (Left cb) (int (length (pend u))) \<Longrightarrow> copied_in pend cb u c 0 cb' u'"
  by (auto simp: copied_in_def)

lemma copied_in_err:
  "cb_inv cb' \<Longrightarrow> cb_Buf cb' \<noteq> None \<Longrightarrow> pend u = bs @ pend u' \<Longrightarrow> cb_data cb' = cb_data cb \<Longrightarrow>
   e \<noteq> 0 \<Longrightarrow> copied_in pend cb u c e cb' u'"
  by (auto simp: copied_in_def)

text \<open>
  What \<open>Copyout_n\<close> promises: the destination received \<open>bs\<close>, a prefix of the queue.  Without an error
  it was removed from the queue and is as long as the destination, the queue and the limit allow (a
  limit of 0 is none); with an error the queue is unchanged.
\<close>

definition copied_out :: "('u \<Rightarrow> byte list) \<Rightarrow> ('u \<Rightarrow> nat) \<Rightarrow> circbuf_t \<Rightarrow> 'u \<Rightarrow> int \<Rightarrow> int \<Rightarrow> err_t \<Rightarrow>
    circbuf_t \<Rightarrow> 'u \<Rightarrow> bool" where
  "copied_out snk rm cb u mx c e cb' u' \<longleftrightarrow> cb_inv cb' \<and>
     (\<exists>bs rest. snk u' = snk u @ bs \<and> cb_data cb = bs @ rest \<and>
       (if e = 0 then cb_data cb' = rest \<and> c = int (length bs) \<and>
          c = min (min (Used cb) (int (rm u))) (if mx = 0 then Used cb else mx)
        else cb' = cb \<and> c = 0))"

lemma copied_out_ok:
  "cb_inv cb' \<Longrightarrow> snk u' = snk u @ bs \<Longrightarrow> cb_data cb = bs @ cb_data cb' \<Longrightarrow> c = int (length bs) \<Longrightarrow>
   c = min (min (Used cb) (int (rm u))) (if mx = 0 then Used cb else mx) \<Longrightarrow> copied_out snk rm cb u mx c 0 cb' u'"
  by (auto simp: copied_out_def)

lemma copied_out_err:
  "cb_inv cb \<Longrightarrow> snk u' = snk u @ bs \<Longrightarrow> cb_data cb = bs @ rest \<Longrightarrow> e \<noteq> 0 \<Longrightarrow> copied_out snk rm cb u mx 0 e cb u'"
  by (auto simp: copied_out_def)

lemma limit_max_nonneg:
  "0 \<le> mx \<Longrightarrow> limit_max mx src = Ok (if mx = 0 then src else take (nat mx) src)"
  by (auto simp: limit_max_def)

text \<open>Advancing the tail past a prefix of the queue.\<close>

lemma cb_advance:
  assumes "cb_inv cb" "cb_Buf cb = Some b" "n \<le> length (cb_data cb)"
  shows "cb_inv (cb\<lparr>cb_tail := cb_tail cb + int n\<rparr>)"
    "cb_data cb = take n (cb_data cb) @ cb_data (cb\<lparr>cb_tail := cb_tail cb + int n\<rparr>)"
proof -
  note I = cb_invD [OF assms(1,2)]
  have n: "cb_tail cb + int n \<le> cb_head cb" using assms(3) I(3) cb_data_Some [OF assms(2)] by simp
  then show "cb_inv (cb\<lparr>cb_tail := cb_tail cb + int n\<rparr>)" using assms(1) by (auto simp: cb_inv_def split: option.splits)
  have "cb_data cb = ring b (cb_tail cb) (cb_tail cb + int n) @ ring b (cb_tail cb + int n) (cb_head cb)"
    using ring_append [of "cb_tail cb" "cb_tail cb + int n" "cb_head cb" b] n cb_data_Some [OF assms(2)] by simp
  moreover from this have "take n (cb_data cb) = ring b (cb_tail cb) (cb_tail cb + int n)" by simp
  ultimately show "cb_data cb = take n (cb_data cb) @ cb_data (cb\<lparr>cb_tail := cb_tail cb + int n\<rparr>)"
    using assms(2) by (simp add: cb_data_def the_Buf_def)
qed

lemma limit_arith:
  "(l :: int) = (if m = 0 then w - b else min (m - b) (w - b)) \<Longrightarrow> c = min l r \<Longrightarrow> r + b = r0 \<Longrightarrow>
   b + c = min (min w r0) (if m = 0 then w else m)"
  by (auto simp: min_def split: if_splits)

lemma limit_arith_room:
  "(l :: int) = (if m = 0 then s else min m s) \<Longrightarrow> r < l \<Longrightarrow> w = s + d \<Longrightarrow> 0 \<le> d \<Longrightarrow>
   r = min (min w r) (if m = 0 then w else m)"
  by (auto simp: min_def split: if_splits)

lemma cb_with_buf:
  assumes "cb_inv cb" "cb_Buf cb = Some b" "length b' = length b"
  shows "cb_inv (cb\<lparr>cb_Buf := Some b'\<rparr>)"
    "cb_data (cb\<lparr>cb_Buf := Some b'\<rparr>) = ring b' (cb_tail cb) (cb_head cb)"
  using assms by (auto simp: cb_inv_def cb_data_def the_Buf_def)

lemma cb_with_head:
  assumes "cb_inv cb" "cb_Buf cb = Some b" "length b' = length b"
  shows "cb_tail cb \<le> h \<Longrightarrow> h - cb_tail cb \<le> cb_bufsz cb \<Longrightarrow> cb_inv (cb\<lparr>cb_Buf := Some b', cb_head := h\<rparr>)"
    "cb_data (cb\<lparr>cb_Buf := Some b', cb_head := h\<rparr>) = ring b' (cb_tail cb) h"
  using assms by (auto simp: cb_inv_def cb_data_def the_Buf_def)

context userio
begin

lemma Copyin_second_ok:
  assumes inv: "cb_inv cb" "cb_Buf cb = Some b" "uinv u" "pending u0 = bs0 @ pending u" "length b1 = length b"
    and ring: "ring b1 (cb_tail cb) h1 = cb_data cb @ bs0" "h1 = cb_head cb + int (length bs0)"
    and geo: "h1 mod cb_bufsz cb \<le> ti" "h1 - cb_tail cb + (ti - h1 mod cb_bufsz cb) = cb_bufsz cb" "ti < cb_bufsz cb"
  shows "\<exists>c e cb' u'. Copyin_second ui (h1 mod cb_bufsz cb) ti (int (length bs0)) (cb\<lparr>cb_Buf := Some b1\<rparr>) u =
      Ok (c, e, cb', u') \<and> uinv u' \<and> copied_in pending cb u0 c e cb' u'"
proof -
  note I = cb_invD [OF inv(1,2)]
  let ?s = "cb_bufsz cb"
  let ?hi = "h1 mod ?s"
  have r: "0 \<le> ?hi" using I(1) by simp
  obtain bs e u' where rd: "Uioread ui u (nat (ti - ?hi)) = Ok (bs, e, u')" "uinv u'" "length bs \<le> nat (ti - ?hi)"
    "pending u = bs @ pending u'" "e = 0 \<Longrightarrow> length bs = min (nat (ti - ?hi)) (length (pending u))"
    using readE [OF inv(3)] by blast
  define b2 where "b2 = overlay b1 (nat ?hi) bs"
  have fit: "?hi + int (length bs) \<le> ?s" "h1 - cb_tail cb + int (length bs) \<le> ?s"
    using rd(3) geo by linarith+
  have h1: "cb_head cb \<le> h1" using ring(2) by simp
  note w = cb_write_step [OF inv(1,2,5) h1 ring(1) fit, folded b2_def]
  note cb2 = cb_with_buf [OF inv(1,2) w(1)]
  note cb3 = cb_with_head [OF inv(1,2) w(1), of "h1 + int (length bs)"]
  have run: "Copyin_second ui ?hi ti (int (length bs0)) (cb\<lparr>cb_Buf := Some b1\<rparr>) u =
    (if e \<noteq> 0 then Ok (int (length bs0) + int (length bs), e, cb\<lparr>cb_Buf := Some b2\<rparr>, u')
     else Ok (int (length bs0) + int (length bs), 0,
       cb\<lparr>cb_Buf := Some b2, cb_head := h1 + int (length bs)\<rparr>, u'))"
  proof -
    have "\<not> ti < ?hi" "\<not> (?hi < 0 \<or> int (length b1) < ti)" using inv(5) geo r I(6) by linarith+
    then show ?thesis using rd(1) by (simp add: Copyin_second_def the_Buf_def b2_def Let_def ring(2) add.assoc)
  qed
  have pend: "pending u0 = (bs0 @ bs) @ pending u'" using inv(4) rd(4) by simp
  show ?thesis
  proof (cases "e = 0")
    case True
    have "int (length (bs0 @ bs)) = min (Left cb) (int (length (pending u0)))"
      using rd(5) [OF True] geo(1,2) ring(2) inv(4) by (simp add: Left_def)
    then have "copied_in pending cb u0 (int (length (bs0 @ bs))) 0 (cb\<lparr>cb_Buf := Some b2, cb_head := h1 + int (length bs)\<rparr>) u'"
      using cb3 w(2) h1 I(3) fit pend by (intro copied_in_ok [where bs = "bs0 @ bs"]) simp_all
    then show ?thesis using run rd(2) True by simp
  next
    case False
    then have "copied_in pending cb u0 (int (length bs0) + int (length bs)) e (cb\<lparr>cb_Buf := Some b2\<rparr>) u'"
      using cb2 w(3) pend by (intro copied_in_err [where bs = "bs0 @ bs"]) simp_all
    then show ?thesis using run rd(2) False by simp
  qed
qed

lemma Copyin_body_ok:
  assumes "cb_inv cb" "cb_Buf cb = Some b" "uinv u"
  shows "\<exists>c e cb' u'. Copyin_body ui cb u = Ok (c, e, cb', u') \<and> uinv u' \<and> copied_in pending cb u c e cb' u'"
proof -
  note inv = cb_invD [OF assms(1,2)]
  let ?s = "cb_bufsz cb" and ?h = "cb_head cb" and ?t = "cb_tail cb"
  let ?hi = "?h mod ?s" and ?ti = "?t mod ?s"
  have md: "?h smod ?s = ?hi" "?t smod ?s = ?ti" using inv(1,2,4) by (simp_all add: smod_nonneg)
  have r: "0 \<le> ?hi" "?hi < ?s" "0 \<le> ?ti" "?ti < ?s" using inv(1) by simp_all
  have base: "ring b ?t ?h = cb_data cb @ []" using cb_data_Some [OF assms(2)] by simp
  consider "Full cb" | "\<not> Full cb" "?ti \<le> ?hi" | "\<not> Full cb" "?hi < ?ti" by linarith
  then show ?thesis
  proof cases
    case 1
    then have "Left cb = 0" by (simp add: Full_def Left_def)
    then have "copied_in pending cb u 0 0 cb u" using assms by (intro copied_in_ok [where bs = "[]"]) simp_all
    then show ?thesis using 1 assms(3) by (simp add: Copyin_body_def)
  next
    case 2
    have g: "?h - ?t = ?hi - ?ti" using ring_geom [of ?s ?h ?t] inv 2 r by (auto simp: Full_def)
    let ?n = "length b - nat ?hi"
    have n: "int ?n = ?s - ?hi" using inv(6) r by linarith
    obtain bs e u1 where rd: "Uioread ui u ?n = Ok (bs, e, u1)" "uinv u1" "length bs \<le> ?n"
      "pending u = bs @ pending u1" "e = 0 \<Longrightarrow> length bs = min ?n (length (pending u))"
      using readE [OF assms(3)] by blast
    define b1 where "b1 = overlay b (nat ?hi) bs"
    have fit: "?hi + int (length bs) \<le> ?s" "?h - ?t + int (length bs) \<le> ?s"
      using rd(3) n g r by linarith+
    note w = cb_write_step [OF assms(1,2) refl order_refl base fit, folded b1_def, simplified]
    note cb1 = cb_with_buf [OF assms(1,2) w(1)]
    note cb3 = cb_with_head [OF assms(1,2) w(1), of "?h + int (length bs)"]
    have run: "Copyin_body ui cb u =
      (if e \<noteq> 0 then Ok (0, e, cb\<lparr>cb_Buf := Some b1\<rparr>, u1)
       else if length bs \<noteq> ?n then Ok (int (length bs), 0, cb\<lparr>cb_Buf := Some b1, cb_head := ?h + int (length bs)\<rparr>, u1)
       else Copyin_second ui ((?h + int (length bs)) mod ?s) ?ti (int (length bs)) (cb\<lparr>cb_Buf := Some b1\<rparr>) u1)"
    proof -
      have "\<not> (?hi < 0 \<or> int (length b) < ?hi)" "?s \<noteq> 0" using r inv(6) by linarith+
      moreover have "(?h + int k) smod ?s = (?h + int k) mod ?s" for k
        using inv(1,4) by (intro smod_nonneg) simp_all
      ultimately show ?thesis using rd(1) 2 md inv(8) by (simp add: Copyin_body_def Let_def b1_def)
    qed
    consider "e \<noteq> 0" | "e = 0" "length bs \<noteq> ?n" | "e = 0" "length bs = ?n" by blast
    then show ?thesis
    proof cases
      case 1
      then have "copied_in pending cb u 0 e (cb\<lparr>cb_Buf := Some b1\<rparr>) u1"
        using cb1 w(3) rd(4) by (intro copied_in_err [where bs = bs]) simp_all
      then show ?thesis using 1 run rd(2) by simp
    next
      case b: 2
      have p: "length bs = length (pending u)" "length (pending u) < ?n" using b rd(5) by auto
      moreover have "Left cb = ?s - ?hi + ?ti" using g by (simp add: Left_def)
      ultimately have "int (length bs) = min (Left cb) (int (length (pending u)))" using n r by linarith
      then have "copied_in pending cb u (int (length bs)) 0 (cb\<lparr>cb_Buf := Some b1, cb_head := ?h + int (length bs)\<rparr>) u1"
        using cb3 w(2) rd(4) fit inv(3) by (intro copied_in_ok [where bs = bs]) simp_all
      then show ?thesis using b run rd(2) by simp
    next
      case c: 3
      have "?s * (?h div ?s) + ?hi = ?h" by (rule mult_div_mod_eq)
      then have "?h + int (length bs) = ?s * (?h div ?s) + ?s" using c(2) n by linarith
      then have z: "(?h + int (length bs)) mod ?s = 0" by simp
      have "\<exists>c e cb' u'. Copyin_second ui ((?h + int (length bs)) mod ?s) ?ti (int (length bs)) (cb\<lparr>cb_Buf := Some b1\<rparr>) u1 =
          Ok (c, e, cb', u') \<and> uinv u' \<and> copied_in pending cb u c e cb' u'"
      proof (rule Copyin_second_ok [OF assms(1,2) rd(2,4) w(1)])
        show "ring b1 ?t (?h + int (length bs)) = cb_data cb @ bs" using w(2) by simp
        show "(?h + int (length bs)) mod ?s \<le> ?ti" using z r by simp
        show "?h + int (length bs) - ?t + (?ti - (?h + int (length bs)) mod ?s) = ?s" using z g c(2) n by linarith
      qed (simp_all add: r)
      then show ?thesis unfolding run using c by simp
    qed
  next
    case 3
    have g: "?h - ?t = ?hi - ?ti + ?s" using ring_geom [of ?s ?h ?t] inv 3 r by auto
    have "cb\<lparr>cb_Buf := Some b\<rparr> = cb" using assms(2) by (cases cb) simp
    then have body: "Copyin_body ui cb u = Copyin_second ui ?hi ?ti (int (length ([] :: byte list))) (cb\<lparr>cb_Buf := Some b\<rparr>) u"
      using 3 inv(1) by (simp add: Copyin_body_def Let_def md)
    show ?thesis unfolding body
    proof (rule Copyin_second_ok [OF assms _ refl base])
      show "?hi \<le> ?ti" "?h - ?t + (?ti - ?hi) = ?s" "?ti < ?s" using 3 g r by linarith+
      show "pending u = [] @ pending u" "?h = ?h + int (length ([] :: byte list))" by simp_all
    qed
  qed
qed

lemma Copyout_second_ok:
  assumes inv: "cb_inv cb" "cb_Buf cb = Some b" "uinv u" "sunk u = sunk u0 @ bs0" "room u + length bs0 = room u0"
    and data: "cb_data cb = bs0 @ ring b t1 (cb_head cb)" "t1 = cb_tail cb + int (length bs0)" "t1 \<le> cb_head cb"
    and geo: "cb_head cb - t1 = hi - t1 mod cb_bufsz cb" "hi < cb_bufsz cb"
    and mx: "0 \<le> mx" "mx = 0 \<or> int (length bs0) < mx" "mx1 = (if mx = 0 then 0 else mx - int (length bs0))"
  shows "\<exists>c e cb' u'. Copyout_second ui hi (t1 mod cb_bufsz cb) (int (length bs0)) mx1 cb u = Ok (c, e, cb', u') \<and>
    uinv u' \<and> copied_out sunk room cb u0 mx c e cb' u'"
proof -
  note I = cb_invD [OF inv(1,2)]
  let ?s = "cb_bufsz cb" and ?S = "ring b t1 (cb_head cb)"
  let ?ti = "t1 mod ?s"
  have r: "0 \<le> ?ti" "?ti \<le> hi" using I(1) geo(1) data(3) by (simp, linarith)
  have S: "sub_list b (nat ?ti) (nat hi) = ?S"
  proof -
    have "ring b t1 (t1 + (hi - ?ti)) = sub_list b (nat ?ti) (nat ?ti + nat (hi - ?ti))"
      using ring_sub_list [of b "hi - ?ti" t1] I(6,7) geo r by simp
    moreover have "t1 + (hi - ?ti) = cb_head cb" using geo(1) by simp
    moreover have "nat ?ti + nat (hi - ?ti) = nat hi" using r by linarith
    ultimately show ?thesis by simp
  qed
  define src where "src = (if mx1 = 0 then ?S else take (nat mx1) ?S)"
  have lim: "limit_max mx1 ?S = Ok src" unfolding src_def using mx by (intro limit_max_nonneg) auto
  obtain c e u' where wr: "Uiowrite ui u src = Ok (c, e, u')" "uinv u'" "c \<le> length src" "c \<le> room u"
    "sunk u' = sunk u @ take c src" "room u' = room u - c" "e = 0 \<Longrightarrow> c = min (length src) (room u)"
    using writeE [OF inv(3)] by blast
  have run: "Copyout_second ui hi ?ti (int (length bs0)) mx1 cb u = (if e \<noteq> 0 then Ok (0, e, cb, u')
      else Ok (int (length bs0) + int c, 0, cb\<lparr>cb_tail := cb_tail cb + (int (length bs0) + int c)\<rparr>, u'))"
  proof -
    have "\<not> hi < ?ti" "\<not> (?ti < 0 \<or> int (length b) < hi)" using r geo(2) I(6) by linarith+
    then show ?thesis using lim wr(1) by (simp add: Copyout_second_def I(8) S Let_def)
  qed
  have pre: "take c src = take c ?S"
  proof (cases "mx1 = 0")
    case False
    then have "c \<le> nat mx1" using wr(3) by (simp add: src_def)
    then show ?thesis by (simp add: src_def min_absorb1)
  qed (simp add: src_def)
  have snk: "sunk u' = sunk u0 @ (bs0 @ take c ?S)" using wr(5) inv(4) pre by simp
  have dat: "cb_data cb = (bs0 @ take c ?S) @ drop c ?S" using data(1) by simp
  show ?thesis
  proof (cases "e = 0")
    case False
    then have "copied_out sunk room cb u0 mx 0 e cb u'"
      using copied_out_err [where snk = sunk, OF inv(1) snk dat] by simp
    then show ?thesis using run wr(2) False by simp
  next
    case True
    have lenS: "length src \<le> length ?S" "int (length ?S) = Used cb - int (length bs0)"
      using data(2,3) by (auto simp: src_def Used_def)
    have len: "length bs0 + c \<le> length (cb_data cb)" using data(1) wr(3) lenS by simp
    note adv = cb_advance [OF inv(1,2) len]
    have tk: "take (length bs0 + c) (cb_data cb) = bs0 @ take c ?S" using data(1) by simp
    have "int (length src) = (if mx = 0 then Used cb - int (length bs0) else min (mx - int (length bs0)) (Used cb - int (length bs0)))"
    proof (cases "mx = 0")
      case False
      then have "length src = min (length ?S) (nat mx1)" "mx1 = mx - int (length bs0)" "0 < mx1"
        using mx by (auto simp: src_def)
      then have "int (length src) = min (int (length ?S)) mx1" by linarith
      then show ?thesis using False lenS(2) \<open>mx1 = mx - int (length bs0)\<close> by simp
    qed (use lenS(2) mx in \<open>simp add: src_def\<close>)
    moreover have "int c = min (int (length src)) (int (room u))" "int (room u) + int (length bs0) = int (room u0)"
      using wr(7) [OF True] inv(5) by linarith+
    ultimately have "int (length bs0) + int c = min (min (Used cb) (int (room u0))) (if mx = 0 then Used cb else mx)"
      by (rule limit_arith)
    then have "copied_out sunk room cb u0 mx (int (length bs0) + int c) 0
        (cb\<lparr>cb_tail := cb_tail cb + int (length bs0 + c)\<rparr>) u'"
      using snk adv tk wr(3) lenS(1) by (intro copied_out_ok [where bs = "bs0 @ take c ?S"]) simp_all
    then show ?thesis using run wr(2) True by simp
  qed
qed

lemma Copyout_body_ok:
  assumes "cb_inv cb" "cb_Buf cb = Some b" "uinv u" "0 \<le> mx"
  shows "\<exists>c e cb' u'. Copyout_body ui cb u mx = Ok (c, e, cb', u') \<and> uinv u' \<and> copied_out sunk room cb u mx c e cb' u'"
proof -
  note inv = cb_invD [OF assms(1,2)]
  let ?s = "cb_bufsz cb" and ?h = "cb_head cb" and ?t = "cb_tail cb"
  let ?hi = "?h mod ?s" and ?ti = "?t mod ?s"
  have md: "?h smod ?s = ?hi" "?t smod ?s = ?ti" using inv(1,2,4) by (simp_all add: smod_nonneg)
  have r: "0 \<le> ?hi" "?hi < ?s" "0 \<le> ?ti" "?ti < ?s" using inv(1) by simp_all
  have base: "cb_data cb = ring b ?t ?h" using cb_data_Some [OF assms(2)] .
  consider "Empty cb" | "\<not> Empty cb" "?hi \<le> ?ti" | "\<not> Empty cb" "?ti < ?hi" by linarith
  then show ?thesis
  proof cases
    case 1
    then have "copied_out sunk room cb u mx 0 0 cb u"
      using assms by (intro copied_out_ok [where bs = "[]"]) (auto simp: Used_def Empty_def)
    then show ?thesis using 1 assms(3) by (simp add: Copyout_body_def)
  next
    case 2
    have g: "?h - ?t = ?s - ?ti + ?hi" using ring_geom [of ?s ?h ?t] inv 2 r by (auto simp: Empty_def)
    have drp: "drop (nat ?ti) b = ring b ?t (?t + (?s - ?ti))"
    proof -
      have "nat ?ti + nat (?s - ?ti) = length b" using inv(6) r by linarith
      then show ?thesis using ring_sub_list [of b "?s - ?ti" ?t] inv(6,7) r by (simp add: sub_list_def)
    qed
    let ?S = "drop (nat ?ti) b"
    have split: "cb_data cb = ?S @ ring b (?t + (?s - ?ti)) ?h"
      unfolding drp base using g r by (intro ring_append) linarith+
    define src where "src = (if mx = 0 then ?S else take (nat mx) ?S)"
    have lim: "limit_max mx ?S = Ok src" unfolding src_def by (rule limit_max_nonneg [OF assms(4)])
    have lenS: "int (length ?S) = ?s - ?ti" using drp r by simp
    obtain c e u1 where wr: "Uiowrite ui u src = Ok (c, e, u1)" "uinv u1" "c \<le> length src" "c \<le> room u"
      "sunk u1 = sunk u @ take c src" "room u1 = room u - c" "e = 0 \<Longrightarrow> c = min (length src) (room u)"
      using writeE [OF assms(3)] by blast
    have run: "Copyout_body ui cb u mx = (if e \<noteq> 0 then Ok (0, e, cb, u1)
       else if c \<noteq> length src \<or> int c = mx then Ok (int c, 0, cb\<lparr>cb_tail := ?t + int c\<rparr>, u1)
       else Copyout_second ui ?hi ((?t + int c) mod ?s) (int c) (if mx \<noteq> 0 then mx - int c else mx) cb u1)"
    proof -
      have "\<not> (?ti < 0 \<or> int (length b) < ?ti)" "?s \<noteq> 0" using r inv(6) by linarith+
      moreover have "(?t + int k) smod ?s = (?t + int k) mod ?s" for k
        using inv(1,2) by (intro smod_nonneg) simp_all
      ultimately show ?thesis using lim wr(1) 2 md inv(8) by (simp add: Copyout_body_def Let_def)
    qed
    have pre: "take c src = take c (cb_data cb)" "c \<le> length (cb_data cb)" and mxc: "mx = 0 \<or> int c \<le> mx"
    proof -
      have "length src \<le> length ?S" by (simp add: src_def)
      then show "c \<le> length (cb_data cb)" using wr(3) split by simp
      show "mx = 0 \<or> int c \<le> mx" using wr(3) assms(4) by (cases "mx = 0") (simp, simp add: src_def, linarith)
      show "take c src = take c (cb_data cb)"
      proof (cases "mx = 0")
        case True
        then show ?thesis using wr(3) split by (simp add: src_def)
      next
        case False
        then have "c \<le> nat mx" "c \<le> length ?S" using wr(3) by (simp_all add: src_def)
        then show ?thesis using False split by (simp add: src_def min_absorb1)
      qed
    qed
    have lensrc: "int (length src) = (if mx = 0 then ?s - ?ti else min mx (?s - ?ti))"
      using lenS assms(4) by (auto simp: src_def)
    consider "e \<noteq> 0" | "e = 0" "c \<noteq> length src \<or> int c = mx" | "e = 0" "c = length src" "int c \<noteq> mx" by blast
    then show ?thesis
    proof cases
      case 1
      then have "copied_out sunk room cb u mx 0 e cb u1"
        using assms(1) wr(5) pre(1) by (intro copied_out_err [where bs = "take c (cb_data cb)" and rest = "drop c (cb_data cb)"]) simp_all
      then show ?thesis using 1 run wr(2) by simp
    next
      case b: 2
      note adv = cb_advance [OF assms(1,2) pre(2)]
      have "int c = min (min (Used cb) (int (room u))) (if mx = 0 then Used cb else mx)"
      proof (cases "c = length src")
        case False
        then have "c = room u" "room u < length src" using wr(7) [OF b(1)] by linarith+
        moreover have "Used cb = ?s - ?ti + ?hi" using g by (simp add: Used_def)
        ultimately show ?thesis using limit_arith_room [OF lensrc _ _ r(1), of "int c" "Used cb"] by simp
      next
        case True
        then have m: "int c = mx" "mx \<noteq> 0" using b(2) lensrc r by auto
        have mx: "mx \<le> ?s - ?ti" "mx \<le> int (room u)" using True lensrc wr(4) m by simp_all
        have "Used cb = ?s - ?ti + ?hi" using g by (simp add: Used_def)
        then have "mx \<le> Used cb" using mx(1) r(1) by linarith
        then show ?thesis using m mx(2) by simp
      qed
      then have "copied_out sunk room cb u mx (int c) 0 (cb\<lparr>cb_tail := ?t + int c\<rparr>) u1"
        using adv wr(5) pre by (intro copied_out_ok [where bs = "take c (cb_data cb)"]) simp_all
      then show ?thesis using b run wr(2) by simp
    next
      case c: 3
      then have whole: "int c = ?s - ?ti" using lensrc mxc by (auto split: if_splits)
      then have cS: "take c (cb_data cb) = ?S" using split lenS by simp
      have "?s * (?t div ?s) + ?ti = ?t" by (rule mult_div_mod_eq)
      then have "?t + int c = ?s * (?t div ?s) + ?s" using whole by linarith
      then have z: "(?t + int c) mod ?s = 0" by simp
      have lc: "int (length ?S) = int c" using lenS whole by simp
      have "\<exists>c' e cb' u'. Copyout_second ui ?hi ((?t + int c) mod ?s) (int (length ?S)) (if mx \<noteq> 0 then mx - int c else mx) cb u1 =
          Ok (c', e, cb', u') \<and> uinv u' \<and> copied_out sunk room cb u mx c' e cb' u'"
      proof (rule Copyout_second_ok [OF assms(1,2) wr(2)])
        show "sunk u1 = sunk u @ ?S" using wr(5) pre(1) cS by simp
        show "room u1 + length ?S = room u" using wr(4,6) lc by simp
        show "cb_data cb = ?S @ ring b (?t + int c) ?h" using split whole by simp
        show "?t + int c = ?t + int (length ?S)" using lc by simp
        show "?t + int c \<le> ?h" using whole g r by linarith
        show "?h - (?t + int c) = ?hi - (?t + int c) mod ?s" using z whole g by linarith
        show "?hi < ?s" "0 \<le> mx" using r assms(4) by simp_all
        show "mx = 0 \<or> int (length ?S) < mx" using mxc c(3) lc by auto
        show "(if mx \<noteq> 0 then mx - int c else mx) = (if mx = 0 then 0 else mx - int (length ?S))" using lc by simp
      qed
      then show ?thesis unfolding run lc using c by simp
    qed
  next
    case 3
    have g: "?h - ?t = ?hi - ?ti" using ring_geom [of ?s ?h ?t] inv 3 r by auto
    have body: "Copyout_body ui cb u mx = Copyout_second ui ?hi ?ti (int (length ([] :: byte list))) mx cb u"
      using 3 inv(1) by (simp add: Copyout_body_def Let_def md)
    show ?thesis unfolding body
    proof (rule Copyout_second_ok [OF assms(1-3)])
      show "cb_data cb = [] @ ring b ?t ?h" using base by simp
      show "?t \<le> ?h" "?h - ?t = ?hi - ?ti" "?hi < ?s" "0 \<le> mx" using inv(3) g r assms(4) by simp_all
      show "mx = 0 \<or> int (length ([] :: byte list)) < mx" using assms(4) by auto
    qed simp_all
  qed
qed

end

subsection \<open>Direct access for TCP\<close>

text \<open>The positions that the returned slices cover, in order.\<close>

definition raw_idx :: "range option \<times> range option \<Rightarrow> nat list" where
  "raw_idx rs = (case fst rs of None \<Rightarrow> [] | Some (a, z) \<Rightarrow> [a..<z]) @
     (case snd rs of None \<Rightarrow> [] | Some (a, z) \<Rightarrow> [a..<z])"

definition ring_idx :: "int \<Rightarrow> int \<Rightarrow> nat \<Rightarrow> nat list" where
  "ring_idx s p n = map (\<lambda>i. nat ((p + int i) mod s)) [0..<n]"

lemma ring_idx_line:
  assumes "0 < s" "p mod s + int n \<le> s"
  shows "ring_idx s p n = [nat (p mod s)..<nat (p mod s) + n]"
proof (rule nth_equalityI)
  fix i assume "i < length (ring_idx s p n)"
  then have i: "i < n" by (simp add: ring_idx_def)
  have "(p + int i) mod s = (p mod s + int i) mod s" by (simp add: mod_add_left_eq)
  also have "\<dots> = p mod s + int i" using i assms by (intro mod_pos_pos_trivial) (simp, linarith)
  finally show "ring_idx s p n ! i = [nat (p mod s)..<nat (p mod s) + n] ! i"
    using i assms(1) by (simp add: ring_idx_def nat_add_distrib)
qed (simp add: ring_idx_def)

lemma ring_idx_append: "ring_idx s p (n + m) = ring_idx s p n @ ring_idx s (p + int n) m"
proof -
  have "[0..<n + m] = [0..<n] @ map (\<lambda>i. i + n) [0..<m]"
    unfolding map_add_upt using upt_add_eq_append [of 0 n m] by (simp add: add.commute)
  moreover have "p + int (i + n) = p + int n + int i" for i by simp
  ultimately show ?thesis unfolding ring_idx_def by (simp only: map_append map_map comp_def)
qed

lemma ring_as_idx: "t \<le> h \<Longrightarrow> ring b t h = map ((!) b) (ring_idx (int (length b)) t (nat (h - t)))"
  by (rule nth_equalityI) (simp_all add: ring_idx_def nth_ring)

lemma mod_wrap:
  fixes s x :: int
  assumes "0 \<le> p mod s + d" "p mod s + d < 2 * s" "0 < s"
  shows "(p + d) mod s = (if p mod s + d < s then p mod s + d else p mod s + d - s)"
proof -
  have e: "(p + d) mod s = (p mod s + d) mod s" by (simp add: mod_add_left_eq)
  show ?thesis
  proof (cases "p mod s + d < s")
    case True
    then show ?thesis using e assms(1) by (simp add: mod_pos_pos_trivial)
  next
    case False
    have "(p mod s + d) mod s = (p mod s + d - s) mod s" by (metis minus_mod_self2)
    also have "\<dots> = p mod s + d - s" using False assms by (intro mod_pos_pos_trivial) linarith+
    finally show ?thesis using e False by simp
  qed
qed

text \<open>Inside the free space \<open>Rawwrite\<close> returns the positions after the head, starting at \<open>offset\<close>.\<close>

lemma Rawwrite_idx:
  assumes "cb_inv cb" "cb_Buf cb = Some b" "0 \<le> offset" "0 < sz" "offset + sz \<le> Left cb"
  shows "\<exists>rs. Rawwrite cb offset sz = Ok rs \<and> raw_idx rs = ring_idx (cb_bufsz cb) (cb_head cb + offset) (nat sz)"
proof -
  note I = cb_invD [OF assms(1,2)]
  define s h t where "s = cb_bufsz cb" and "h = cb_head cb" and "t = cb_tail cb"
  define hi ti oi oe where "hi = h mod s" and "ti = t mod s" and "oi = (h + offset) mod s"
    and "oe = (h + offset + sz) mod s"
  note sht = s_def h_def t_def
  have s: "0 < s" "int (length b) = s" "0 \<le> h - t" unfolding sht using I(1,3,6) by linarith+
  have r: "0 \<le> hi" "hi < s" "0 \<le> ti" "ti < s" "0 \<le> oi" "oi < s" "0 \<le> oe" "oe < s"
    using s(1) by (simp_all add: hi_def ti_def oi_def oe_def)
  have md: "h smod s = hi" "t smod s = ti" "(h + offset) smod s = oi" "(h + offset + sz) smod s = oe"
    using I(1,2,4) assms(3,4) by (simp_all add: smod_nonneg hi_def ti_def oi_def oe_def sht)
  have left: "offset + sz \<le> s - (h - t)" using assms(5) by (simp add: Left_def sht)
  have geo: "h - t = hi - ti \<or> h - t = hi - ti + s"
    unfolding hi_def ti_def using s left assms(3,4) by (intro ring_geom) linarith+
  have oi: "oi = (if hi + offset < s then hi + offset else hi + offset - s)"
    using mod_wrap [of h s offset, folded hi_def oi_def] r assms(3,4) left s by linarith
  have oe: "oe = (if hi + (offset + sz) < s then hi + (offset + sz) else hi + (offset + sz) - s)"
    if "hi + (offset + sz) < 2 * s"
    using mod_wrap [of h s "offset + sz", folded hi_def] r(1) assms(3,4) that s
    unfolding oe_def add.assoc by linarith
  have "\<not> Left cb < sz" "sz \<noteq> 0" "\<not> sz < 0" using assms(3-5) by linarith+
  then have raw: "Rawwrite cb offset sz =
     (if ti \<le> hi then
        if (oi \<ge> ti \<and> oi < hi) \<or> (oe > ti \<and> oe \<le> hi) then Panic ''intersects with user data''
        else if s - oi > sz then Ok (Some (nat oi, nat oi + nat sz), None)
        else Ok (Some (nat oi, length b), Some (0, nat oe))
      else if \<not> (oi \<ge> hi \<and> oi < ti \<and> oe > hi \<and> oe \<le> ti) then Panic ''intersects with user data''
      else if oi > oe then Panic ''slice bounds out of range''
      else Ok (Some (nat oi, nat oe), None))"
    using assms(2) s r unfolding Rawwrite_def Let_def sht [symmetric] md by simp
  have line: "ring_idx s (h + offset) n = [nat oi..<nat oi + n]" if "oi + int n \<le> s" for n
    using ring_idx_line [OF s(1), of "h + offset" n] that by (simp add: oi_def)
  have goal: ?thesis if "Rawwrite cb offset sz = Ok rs" "raw_idx rs = ring_idx s (h + offset) (nat sz)" for rs
    using that by (auto simp: sht)
  show ?thesis
  proof (cases "ti \<le> hi")
    case True
    have g: "h - t = hi - ti" using geo left True assms(3,4) by linarith
    have oe': "oe = (if hi + (offset + sz) < s then hi + (offset + sz) else hi + (offset + sz) - s)"
      using g left r by (intro oe) linarith
    have no: "\<not> ((oi \<ge> ti \<and> oi < hi) \<or> (oe > ti \<and> oe \<le> hi))"
      using oi oe' g left r assms(3,4) by (auto split: if_splits)
    show ?thesis
    proof (cases "s - oi > sz")
      case short: True
      have "Rawwrite cb offset sz = Ok (Some (nat oi, nat oi + nat sz), None)"
        unfolding raw using True no short by simp
      then show ?thesis by (rule goal) (use line [of "nat sz"] short assms(4) in \<open>simp add: raw_idx_def\<close>)
    next
      case long: False
      have e: "oi = hi + offset" "oe = oi + sz - s" using oi oe' g left r assms(3,4) long by (auto split: if_splits)
      have res: "Rawwrite cb offset sz = Ok (Some (nat oi, length b), Some (0, nat oe))"
        unfolding raw using True no long by simp
      have n: "nat sz = nat (s - oi) + nat oe" "nat oi + nat (s - oi) = length b" using e r s(2) by linarith+
      have first: "ring_idx s (h + offset) (nat (s - oi)) = [nat oi..<length b]"
        using line [of "nat (s - oi)"] r n(2) by simp
      have "s * ((h + offset) div s) + oi = h + offset" unfolding oi_def by (rule mult_div_mod_eq)
      then have "h + offset + int (nat (s - oi)) = s * ((h + offset) div s) + s" using r by linarith
      then have "(h + offset + int (nat (s - oi))) mod s = 0" by simp
      then have second: "ring_idx s (h + offset + int (nat (s - oi))) (nat oe) = [0..<nat oe]"
        using ring_idx_line [OF s(1), of "h + offset + int (nat (s - oi))" "nat oe"] r by simp
      show ?thesis using res by (rule goal) (simp only: n(1) ring_idx_append first second, simp add: raw_idx_def)
    qed
  next
    case False
    have g: "h - t = hi - ti + s" using geo False s by linarith
    have e: "oi = hi + offset" "oe = hi + (offset + sz)"
      using oi oe g left r assms(3,4) by (auto split: if_splits)
    have "Rawwrite cb offset sz = Ok (Some (nat oi, nat oe), None)"
      unfolding raw using False g left r assms(3,4) e by simp
    then show ?thesis
    proof (rule goal)
      have "nat oe = nat oi + nat sz" "oi + int (nat sz) \<le> s" using e r assms(3,4) by linarith+
      then show "raw_idx (Some (nat oi, nat oe), None) = ring_idx s (h + offset) (nat sz)"
        using line [of "nat sz"] by (simp add: raw_idx_def)
    qed
  qed
qed

text \<open>\<open>Rawread\<close> returns the positions of the queue from \<open>offset\<close> on, for an offset inside the queue.\<close>

lemma Rawread_idx:
  assumes "cb_inv cb" "cb_Buf cb = Some b" "0 \<le> offset" "offset < Used cb"
  shows "\<exists>rs. Rawread cb offset = Ok rs \<and>
    raw_idx rs = ring_idx (cb_bufsz cb) (cb_tail cb + offset) (nat (Used cb - offset))"
proof -
  note I = cb_invD [OF assms(1,2)]
  define s h t where "s = cb_bufsz cb" and "h = cb_head cb" and "t = cb_tail cb"
  define hi ti oi where "hi = h mod s" and "ti = t mod s" and "oi = (t + offset) mod s"
  note sht = s_def h_def t_def
  have s: "0 < s" "int (length b) = s" "0 \<le> h - t" "h - t \<le> s" unfolding sht using I(1,3,5,6) by linarith+
  have r: "0 \<le> hi" "hi < s" "0 \<le> ti" "ti < s" "0 \<le> oi" "oi < s"
    using s(1) by (simp_all add: hi_def ti_def oi_def)
  have md: "h smod s = hi" "t smod s = ti" "(t + offset) smod s = oi"
    using I(1,2,4) assms(3) by (simp_all add: smod_nonneg hi_def ti_def oi_def sht)
  have used: "Used cb = h - t" "offset < h - t" using assms(4) by (simp_all add: Used_def sht)
  have geo: "h - t = hi - ti \<or> h - t = hi - ti + s" unfolding hi_def ti_def using s by (intro ring_geom)
  have oi: "oi = (if ti + offset < s then ti + offset else ti + offset - s)"
    using mod_wrap [of t s offset, folded ti_def oi_def] r assms(3) used s by linarith
  have raw: "Rawread cb offset = (if ti < hi then
       if oi \<ge> hi \<or> oi < ti then Panic ''outside user data'' else Ok (Some (nat oi, nat hi), None)
     else if oi \<ge> hi \<and> oi < ti then Panic ''outside user data''
     else if s - ti > offset then Ok (Some (nat oi, length b), Some (0, nat hi))
     else if offset - (s - ti) < 0 \<or> offset - (s - ti) > hi then Panic ''slice bounds out of range''
     else Ok (Some (nat (offset - (s - ti)), nat hi), None))"
    using assms(2) s r unfolding Rawread_def Let_def sht [symmetric] md by simp
  have line: "ring_idx s (t + offset) n = [nat oi..<nat oi + n]" if "oi + int n \<le> s" for n
    using ring_idx_line [OF s(1), of "t + offset" n] that by (simp add: oi_def)
  have goal: ?thesis if "Rawread cb offset = Ok rs" "raw_idx rs = ring_idx s (t + offset) (nat (h - t - offset))" for rs
    using that by (auto simp: sht used)
  consider "ti < hi" | "hi \<le> ti" "offset < s - ti" | "hi \<le> ti" "s - ti \<le> offset" by linarith
  then show ?thesis
  proof cases
    case 1
    then have g: "h - t = hi - ti" using geo s r by linarith
    have e: "oi = ti + offset" using oi g used r by (auto split: if_splits)
    have n: "nat oi + nat (h - t - offset) = nat hi" "oi + int (nat (h - t - offset)) \<le> s"
      using e g used r assms(3) by linarith+
    have "Rawread cb offset = Ok (Some (nat oi, nat hi), None)"
      unfolding raw using 1 e g used assms(3) by simp
    then show ?thesis by (rule goal) (simp add: raw_idx_def line [OF n(2)] n(1))
  next
    case 2
    then have g: "h - t = hi - ti + s" using geo used assms(3) by linarith
    have e: "oi = ti + offset" using oi 2 by auto
    have n: "nat (h - t - offset) = nat (s - oi) + nat hi" "nat oi + nat (s - oi) = length b" using e g r s(2) 2 by linarith+
    have first: "ring_idx s (t + offset) (nat (s - oi)) = [nat oi..<length b]"
      using line [of "nat (s - oi)"] r n(2) by simp
    have "s * ((t + offset) div s) + oi = t + offset" unfolding oi_def by (rule mult_div_mod_eq)
    then have "t + offset + int (nat (s - oi)) = s * ((t + offset) div s) + s" using r by linarith
    then have "(t + offset + int (nat (s - oi))) mod s = 0" by simp
    then have second: "ring_idx s (t + offset + int (nat (s - oi))) (nat hi) = [0..<nat hi]"
      using ring_idx_line [OF s(1), of "t + offset + int (nat (s - oi))" "nat hi"] r by simp
    have "Rawread cb offset = Ok (Some (nat oi, length b), Some (0, nat hi))"
      unfolding raw using 2 e assms(3) by simp
    then show ?thesis by (rule goal) (simp only: n(1) ring_idx_append first second, simp add: raw_idx_def)
  next
    case 3
    then have g: "h - t = hi - ti + s" using geo used assms(3) by linarith
    have e: "oi = offset - (s - ti)" using oi 3 by auto
    have n: "nat oi + nat (h - t - offset) = nat hi" "oi + int (nat (h - t - offset)) \<le> s" using e g used r by linarith+
    have "Rawread cb offset = Ok (Some (nat (offset - (s - ti)), nat hi), None)"
      unfolding raw using 3 e g used r by simp
    then show ?thesis by (rule goal) (simp add: raw_idx_def line [OF n(2)] n(1) e [symmetric])
  qed
qed

text \<open>Storing bytes through the slices that \<open>Rawwrite\<close> returned.\<close>

fun scatter :: "byte list \<Rightarrow> nat list \<Rightarrow> byte list \<Rightarrow> byte list" where
  "scatter b (i # is) (v # vs) = scatter (b[i := v]) is vs"
| "scatter b is vs = b"

lemma length_scatter [simp]: "length (scatter b is vs) = length b"
  by (induction b "is" vs rule: scatter.induct) auto

lemma nth_scatter_other: "j \<notin> set is \<Longrightarrow> scatter b is vs ! j = b ! j"
  by (induction b "is" vs rule: scatter.induct) auto

lemma nth_scatter:
  "distinct is \<Longrightarrow> set is \<subseteq> {..<length b} \<Longrightarrow> length vs = length is \<Longrightarrow> k < length is \<Longrightarrow>
   scatter b is vs ! (is ! k) = vs ! k"
proof (induction b "is" vs arbitrary: k rule: scatter.induct)
  case (1 b i "is" v vs)
  then show ?case by (cases k) (auto simp: nth_scatter_other)
qed auto

lemma ring_idx_inj:
  assumes "0 < s" "int n \<le> s"
  shows "distinct (ring_idx s p n)"
proof -
  have "i = j" if "i < n" "j < n" "nat ((p + int i) mod s) = nat ((p + int j) mod s)" for i j
  proof -
    have "(p + int i) mod s = (p + int j) mod s" using that(3) assms(1) by (simp add: nat_eq_iff2)
    then have "s dvd \<bar>int i - int j\<bar>" by (simp add: mod_eq_dvd_iff)
    moreover have "\<bar>int i - int j\<bar> < s" using that(1,2) assms(2) by linarith
    ultimately show ?thesis using zdvd_not_zless [of "\<bar>int i - int j\<bar>" s] by force
  qed
  then show ?thesis by (auto simp: ring_idx_def distinct_map inj_on_def)
qed

lemma ring_scatter:
  assumes "0 < length b" "t \<le> h" "h - t + int (length vs) \<le> int (length b)"
  shows "ring (scatter b (ring_idx (int (length b)) h (length vs)) vs) t (h + int (length vs)) = ring b t h @ vs"
proof -
  let ?s = "int (length b)" and ?n = "nat (h - t)"
  let ?i = "ring_idx ?s h (length vs)"
  have all: "ring_idx ?s t (?n + length vs) = ring_idx ?s t ?n @ ?i"
    using assms(2) by (simp add: ring_idx_append)
  have dist: "distinct (ring_idx ?s t ?n @ ?i)" unfolding all [symmetric] using assms by (intro ring_idx_inj) simp_all
  have range: "set ?i \<subseteq> {..<length b}" using assms(1) by (auto simp: ring_idx_def nat_less_iff)
  have len: "length ?i = length vs" by (simp add: ring_idx_def)
  have "ring (scatter b ?i vs) t (h + int (length vs)) =
      map ((!) (scatter b ?i vs)) (ring_idx ?s t (?n + length vs))"
  proof -
    have nn: "nat (h + int (length vs) - t) = ?n + length vs" using assms(2) by linarith
    have "t \<le> h + int (length vs)" using assms(2) by linarith
    from ring_as_idx [OF this, of "scatter b ?i vs"] show ?thesis unfolding nn by simp
  qed
  also have "\<dots> = map ((!) b) (ring_idx ?s t ?n) @ vs"
  proof -
    have "map ((!) (scatter b ?i vs)) (ring_idx ?s t ?n) = map ((!) b) (ring_idx ?s t ?n)"
      using dist by (intro map_cong refl nth_scatter_other) auto
    moreover have "map ((!) (scatter b ?i vs)) ?i = vs"
      using dist by (intro nth_equalityI) (auto simp: len nth_scatter [OF _ range])
    ultimately show ?thesis unfolding all map_append by simp
  qed
  finally show ?thesis using ring_as_idx [OF assms(2)] by simp
qed

subsection \<open>Properties\<close>

text \<open>
  C25: \<open>Copyin\<close> appends to the queue.  For every implementation of the user-memory interface, on an
  allocated buffer it does not panic and keeps the invariant; without an error the queue is extended
  by exactly the bytes taken from the source, as many as the free space and the source allow, and
  with an error the queue is unchanged.
\<close>

theorem Copyin_appends:
  assumes "userio ui uinv pend snk rm" "cb_inv cb" "cb_Buf cb = Some b" "uinv u"
  shows "\<exists>c e cb' u'. Copyin pgi ui cb m u = Ok (c, e, cb', m, u') \<and> uinv u' \<and> copied_in pend cb u c e cb' u'"
  using userio.Copyin_body_ok [OF assms] assms(3) by (auto simp: Copyin_def Cb_ensure_def)

definition sample_cb :: circbuf_t where
  "sample_cb = \<lparr>cb_Buf = Some [10, 11, 12, 13], cb_bufsz = 4, cb_head = 7, cb_tail = 6, cb_p_pg = 0\<rparr>"

definition sample_pgi :: "unit page_i" where
  "sample_pgi = \<lparr>pi_Refup = (\<lambda>m pa. Ok m), pi_Refdown = (\<lambda>m pa. Ok (False, m)), pi_Refpg_new_nozero = (\<lambda>m. Ok (None, m))\<rparr>"

definition sample_fb :: fakeubuf_t where
  "sample_fb = Fake_init \<lparr>fb_done = [], fb_fbuf = [], fb_off = 0, fb_len = 0\<rparr> [1, 2, 3, 4, 5]"

lemma sample_cb_inv: "cb_inv sample_cb" "cb_Buf sample_cb = Some [10, 11, 12, 13]"
  by (simp_all add: cb_inv_def sample_cb_def)

theorem Copyin_appends_witness:
  "\<exists>c e cb' u'. Copyin sample_pgi fake_userio sample_cb () sample_fb = Ok (c, e, cb', (), u') \<and> True \<and>
    copied_in fb_fbuf sample_cb sample_fb c e cb' u'"
  by (rule Copyin_appends [OF fake.userio_axioms sample_cb_inv]) simp

text \<open>
  C26: \<open>Copyout_n\<close> removes a prefix of the queue, in order.  Without an error the destination receives
  exactly the bytes that leave the queue, as many as the destination, the queue and the limit allow;
  with an error the queue is unchanged.
\<close>

theorem Copyout_n_removes:
  assumes "userio ui uinv pend snk rm" "cb_inv cb" "cb_Buf cb = Some b" "uinv u" "0 \<le> mx"
  shows "\<exists>c e cb' u'. Copyout_n pgi ui cb m u mx = Ok (c, e, cb', m, u') \<and> uinv u' \<and>
    copied_out snk rm cb u mx c e cb' u'"
  using userio.Copyout_body_ok [OF assms] assms(3) by (auto simp: Copyout_n_def Cb_ensure_def)

theorem Copyout_n_removes_witness:
  "\<exists>c e cb' u'. Copyout_n sample_pgi fake_userio sample_cb () sample_fb 3 = Ok (c, e, cb', (), u') \<and> True \<and>
    copied_out fb_done (\<lambda>fb. length (fb_fbuf fb)) sample_cb sample_fb 3 c e cb' u'"
  by (rule Copyout_n_removes [OF fake.userio_axioms sample_cb_inv]) simp_all

text \<open>
  C27: bytes stored through the slices of \<open>Rawwrite 0 n\<close> and published by \<open>Advhead n\<close> are appended to
  the queue, and nothing that was queued changes, when \<open>n\<close> bytes are free.
\<close>

theorem Rawwrite_Advhead:
  assumes "cb_inv cb" "cb_Buf cb = Some b" "vs \<noteq> []" "int (length vs) \<le> Left cb"
  shows "\<exists>rs cb'. Rawwrite cb 0 (int (length vs)) = Ok rs \<and>
    Advhead (cb\<lparr>cb_Buf := Some (scatter b (raw_idx rs) vs)\<rparr>) (int (length vs)) = Ok cb' \<and>
    cb_inv cb' \<and> cb_data cb' = cb_data cb @ vs"
proof -
  note I = cb_invD [OF assms(1,2)]
  obtain rs where rs: "Rawwrite cb 0 (int (length vs)) = Ok rs"
    "raw_idx rs = ring_idx (cb_bufsz cb) (cb_head cb) (length vs)"
    using Rawwrite_idx [OF assms(1,2), of 0 "int (length vs)"] assms(3,4) by auto
  let ?b = "scatter b (raw_idx rs) vs"
  have "0 < length vs" using assms(3) by simp
  then have "\<not> Full cb" using assms(4) unfolding Full_def Left_def by linarith
  then have adv: "Advhead (cb\<lparr>cb_Buf := Some ?b\<rparr>) (int (length vs)) =
      Ok (cb\<lparr>cb_Buf := Some ?b, cb_head := cb_head cb + int (length vs)\<rparr>)"
    using assms(4) by (simp add: Advhead_def Full_def Left_def)
  note h = cb_with_head [OF assms(1,2) length_scatter, of "cb_head cb + int (length vs)"]
  have "cb_data (cb\<lparr>cb_Buf := Some ?b, cb_head := cb_head cb + int (length vs)\<rparr>) = ring b (cb_tail cb) (cb_head cb) @ vs"
    unfolding h(2) rs(2) I(6) [symmetric] using assms(4) I(3,6,7)
    by (intro ring_scatter) (simp_all add: Left_def)
  moreover have "cb_inv (cb\<lparr>cb_Buf := Some ?b, cb_head := cb_head cb + int (length vs)\<rparr>)"
    using assms(4) I(3) by (intro h(1)) (simp_all add: Left_def)
  ultimately show ?thesis using rs(1) adv cb_data_Some [OF assms(2)] by auto
qed

theorem Rawwrite_Advhead_witness:
  "\<exists>rs cb'. Rawwrite sample_cb 0 2 = Ok rs \<and>
    Advhead (sample_cb\<lparr>cb_Buf := Some (scatter [10, 11, 12, 13] (raw_idx rs) [1, 2])\<rparr>) 2 = Ok cb' \<and>
    cb_inv cb' \<and> cb_data cb' = cb_data sample_cb @ [1, 2]"
  using Rawwrite_Advhead [OF sample_cb_inv, of "[1, 2]"] by (simp add: sample_cb_def Left_def)

text \<open>
  C28: \<open>Rawread\<close> at an offset inside the queue returns slices that hold exactly the queued bytes from
  that offset on, in order.
\<close>

theorem Rawread_suffix:
  assumes "cb_inv cb" "cb_Buf cb = Some b" "0 \<le> offset" "offset < Used cb"
  shows "\<exists>rs. Rawread cb offset = Ok rs \<and> map ((!) b) (raw_idx rs) = drop (nat offset) (cb_data cb)"
proof -
  note I = cb_invD [OF assms(1,2)]
  obtain rs where rs: "Rawread cb offset = Ok rs"
    "raw_idx rs = ring_idx (cb_bufsz cb) (cb_tail cb + offset) (nat (Used cb - offset))"
    using Rawread_idx [OF assms] by blast
  have d: "cb_data cb = ring b (cb_tail cb) (cb_tail cb + offset) @ ring b (cb_tail cb + offset) (cb_head cb)"
    unfolding cb_data_Some [OF assms(2)] using assms(3,4) by (intro ring_append) (simp_all add: Used_def)
  have "drop (nat offset) (cb_data cb) = ring b (cb_tail cb + offset) (cb_head cb)" unfolding d by simp
  also have "\<dots> = map ((!) b) (ring_idx (cb_bufsz cb) (cb_tail cb + offset) (nat (Used cb - offset)))"
    using ring_as_idx [of "cb_tail cb + offset" "cb_head cb" b] assms(4) I(6) by (simp add: Used_def algebra_simps)
  finally show ?thesis using rs by simp
qed

theorem Rawread_suffix_witness:
  "\<exists>rs. Rawread sample_cb 0 = Ok rs \<and> map ((!) [10, 11, 12, 13]) (raw_idx rs) = drop (nat 0) (cb_data sample_cb)"
  by (rule Rawread_suffix [OF sample_cb_inv]) (simp_all add: sample_cb_def Used_def)


end
