(* ===== verification/Bitmap.thy ===== *)
theory Bitmap
  imports Ondisk Defs_Model
begin

unbundle bit_operations_syntax

text \<open>
  \<^verbatim>\<open>biscuit/src/fs/bitmap.go\<close>: the on-disk bitmaps that allocate blocks and inodes and mark orphans.

  The storage under an allocator (the log, or the block cache of a memory file system) is a store of
  cached blocks: \<open>blks\<close> gives the contents of each block, which callers change in place, and \<open>slog\<close>
  is the sequence of \<open>Write\<close> calls.  Locking, reference counts and eviction do not change contents
  and are left out.
\<close>

definition bitsperblk :: int where "bitsperblk = BSIZE * 8"

record storage_t =
  blks :: "int \<Rightarrow> page"
  slog :: "(int \<times> int) list"

record bitmap_t =
  bm_diskfs :: bool
  freestart :: int
  freelen :: int
  lastbit :: int
  nfreebits :: "64 word"
  freemap :: "byte list"
  bm_last :: int

definition st_Write :: "int \<Rightarrow> int \<Rightarrow> storage_t \<Rightarrow> storage_t" where
  "st_Write opid n st = st\<lparr>slog := slog st @ [(opid, n)]\<rparr>"

definition blkno :: "int \<Rightarrow> int" where "blkno bt = bt sdiv bitsperblk"
definition blkoffset :: "int \<Rightarrow> int" where "blkoffset bt = bt smod bitsperblk"
definition byteno :: "int \<Rightarrow> int" where "byteno bt = blkoffset bt sdiv 8"
definition byteoffset :: "int \<Rightarrow> int" where "byteoffset bt = blkoffset bt smod 8"

definition bitmapblkno :: "bitmap_t \<Rightarrow> int \<Rightarrow> int" where
  "bitmapblkno a bt = freestart a + blkno bt"

definition Fbread :: "bitmap_t \<Rightarrow> storage_t \<Rightarrow> int \<Rightarrow> page go" where
  "Fbread a st blockno = (if blockno < 0 \<or> blockno \<ge> freelen a then Panic ''naughty blockno''
     else Ok (blks st (freestart a + blockno)))"

definition byte_at :: "page \<Rightarrow> int \<Rightarrow> byte go" where
  "byte_at p i = (if i < 0 \<or> i \<ge> int (length p) then Panic ''index out of range'' else Ok (p ! nat i))"

definition bitmask :: "int \<Rightarrow> byte" where
  "bitmask j = push_bit (nat j) 1"

text \<open>Reading the block of a bit, changing its byte in place.\<close>

definition modify_bit :: "bitmap_t \<Rightarrow> storage_t \<Rightarrow> int \<Rightarrow> (byte \<Rightarrow> byte \<Rightarrow> byte) \<Rightarrow> storage_t go" where
  "modify_bit a st bt f =
     gbind (Fbread a st (blkno bt)) (\<lambda>p.
     gbind (byte_at p (byteno bt)) (\<lambda>v.
     Ok (st\<lparr>blks := (blks st)(freestart a + blkno bt :=
       p[nat (byteno bt) := f v (bitmask (byteoffset bt))])\<rparr>)))"

definition or_bit :: "byte \<Rightarrow> byte \<Rightarrow> byte" where "or_bit v m = v OR m"
definition andnot_bit :: "byte \<Rightarrow> byte \<Rightarrow> byte" where "andnot_bit v m = v AND NOT m"

fun apply_loop :: "bitmap_t \<Rightarrow> storage_t \<Rightarrow> nat \<Rightarrow> int \<Rightarrow> (int \<Rightarrow> byte \<Rightarrow> 's \<Rightarrow> bool \<times> 's) \<Rightarrow> 's \<Rightarrow> (bool \<times> 's) go" where
  "apply_loop a st 0 bt f s = Ok (True, s)"
| "apply_loop a st (Suc n) bt f s =
     gbind (Fbread a st (blkno bt)) (\<lambda>p.
     gbind (byte_at p (byteno bt)) (\<lambda>v.
     let (cont, s) = f bt (v AND bitmask (byteoffset bt)) s
     in if \<not> cont then Ok (False, s) else apply_loop a st n (bt + 1) f s))"

definition apply_bits :: "bitmap_t \<Rightarrow> storage_t \<Rightarrow> int \<Rightarrow> (int \<Rightarrow> byte \<Rightarrow> 's \<Rightarrow> bool \<times> 's) \<Rightarrow> 's \<Rightarrow> (bool \<times> 's) go" where
  "apply_bits a st start f s = apply_loop a st (nat (freelen a * bitsperblk - start)) start f s"

definition CheckAndMark :: "bitmap_t \<Rightarrow> storage_t \<Rightarrow> int \<Rightarrow> (int \<times> err_t \<times> bitmap_t \<times> storage_t) go" where
  "CheckAndMark a st opid =
     (let bitno = lastbit a in
      gbind (Fbread a st (blkno bitno)) (\<lambda>p.
      gbind (byte_at p (byteno bitno)) (\<lambda>v.
      if v AND bitmask (byteoffset bitno) = 0
      then gbind (modify_bit a st bitno or_bit) (\<lambda>st.
        Ok (bitno, 0, a\<lparr>lastbit := lastbit a + 1\<rparr>, st_Write opid (freestart a + blkno bitno) st))
      else Ok (0, - ENOMEM, a, st))))"

fun populateFreeMap_loop :: "bitmap_t \<Rightarrow> storage_t \<Rightarrow> nat \<Rightarrow> int \<Rightarrow> byte list go" where
  "populateFreeMap_loop a st 0 bn = Ok []"
| "populateFreeMap_loop a st (Suc n) bn =
     gbind (Fbread a st bn) (\<lambda>p. gbind (populateFreeMap_loop a st n (bn + 1)) (\<lambda>r. Ok (p @ r)))"

definition populateFreeMap :: "bitmap_t \<Rightarrow> storage_t \<Rightarrow> bitmap_t go" where
  "populateFreeMap a st = gbind (populateFreeMap_loop a st (nat (freelen a)) 0) (\<lambda>m. Ok (a\<lparr>freemap := m\<rparr>))"

definition mkAllocater :: "bool \<Rightarrow> storage_t \<Rightarrow> int \<Rightarrow> int \<Rightarrow> bitmap_t go" where
  "mkAllocater diskfs st start len =
     (let a = \<lparr>bm_diskfs = diskfs, freestart = start, freelen = len, lastbit = 0, nfreebits = 0,
                freemap = [], bm_last = 0\<rparr> in
      gbind (apply_bits a st 0 (\<lambda>b v n. (True, if v = 0 then n + 1 else n)) 0) (\<lambda>(_, n).
      let a = a\<lparr>nfreebits := n\<rparr> in
      if \<not> diskfs then
        if len * BSIZE < 0 then Panic ''makeslice: len out of range'' else populateFreeMap a st
      else Ok a))"

text \<open>The first clear bit of a byte, and the scan of the in-memory free map; \<open>n\<close> bounds the iterations.\<close>

fun first_clear :: "byte \<Rightarrow> nat \<Rightarrow> nat \<Rightarrow> nat option" where
  "first_clear v 0 j = None"
| "first_clear v (Suc n) j = (if v AND push_bit j 1 = 0 then Some j else first_clear v n (Suc j))"

fun FindFreeMap_loop :: "nat \<Rightarrow> bitmap_t \<Rightarrow> int \<Rightarrow> bool \<Rightarrow> (int \<times> err_t \<times> bitmap_t) go option" where
  "FindFreeMap_loop 0 a i once = None"
| "FindFreeMap_loop (Suc n) a i once =
     (if i < 0 \<or> i \<ge> int (length (freemap a)) then Some (Panic ''index out of range'')
      else let v = freemap a ! nat i in
        if v \<noteq> 255 then
          (case first_clear v 8 0 of
             Some j \<Rightarrow> Some (Ok (i * 8 + int j, 0,
               a\<lparr>bm_last := i, freemap := (freemap a)[nat i := v OR push_bit j 1], nfreebits := nfreebits a - 1\<rparr>))
           | None \<Rightarrow> Some (Panic ''FindFreeMap''))
        else if i + 1 \<ge> int (length (freemap a)) then
          if once then Some (Panic ''memfs out of memory'') else FindFreeMap_loop n a 0 True
        else FindFreeMap_loop n a (i + 1) once)"

definition FindFreeMap :: "nat \<Rightarrow> bitmap_t \<Rightarrow> (int \<times> err_t \<times> bitmap_t) go option" where
  "FindFreeMap fuel a = FindFreeMap_loop fuel a (bm_last a) False"

definition FindDiskMap :: "bitmap_t \<Rightarrow> storage_t \<Rightarrow> int \<Rightarrow> (int \<times> err_t \<times> bitmap_t \<times> storage_t) go" where
  "FindDiskMap a st opid =
     gbind (CheckAndMark a st opid) (\<lambda>(bt, err, a, st).
     gbind (if err = 0 then Ok (bt, a, st)
       else
         gbind (apply_bits a st 0 (\<lambda>b v lb. if v = 0 then (False, b) else (True, lb)) (lastbit a)) (\<lambda>(_, lb).
         gbind (CheckAndMark (a\<lparr>lastbit := lb\<rparr>) st opid) (\<lambda>(bt, err, a, st).
         if err \<noteq> 0 then Panic ''FindAndMark'' else Ok (bt, a, st)))) (\<lambda>(bt, a, st).
     Ok (bt, 0, a\<lparr>nfreebits := nfreebits a - 1\<rparr>, st)))"

text \<open>
  \<open>FindAndMark\<close> chooses the map by the kind of file system.  The scan of the free map visits every
  byte at most twice, so this bound is never reached.
\<close>

definition FindAndMark :: "bitmap_t \<Rightarrow> storage_t \<Rightarrow> int \<Rightarrow> (int \<times> err_t \<times> bitmap_t \<times> storage_t) go" where
  "FindAndMark a st opid =
     (if bm_diskfs a then FindDiskMap a st opid
      else case FindFreeMap (2 * length (freemap a) + 2) a of
          None \<Rightarrow> Panic ''out of fuel''
        | Some r \<Rightarrow> gbind r (\<lambda>(bt, err, a). Ok (bt, err, a, st)))"

definition Unmark :: "bitmap_t \<Rightarrow> storage_t \<Rightarrow> int \<Rightarrow> int \<Rightarrow> (bitmap_t \<times> storage_t) go" where
  "Unmark a st opid bt =
     (if bt < 0 then Panic ''Unmark bad bit''
      else if \<not> bm_diskfs a then
        (let i = bt sdiv 8; j = bt smod 8 in
         if i \<ge> int (length (freemap a)) then Panic ''index out of range''
         else Ok (a\<lparr>freemap := (freemap a)[nat i := freemap a ! nat i AND NOT (push_bit (nat j) 1)],
                    nfreebits := nfreebits a + 1\<rparr>, st))
      else gbind (modify_bit a st bt andnot_bit) (\<lambda>st.
        Ok (a\<lparr>nfreebits := nfreebits a + 1\<rparr>, st_Write opid (freestart a + blkno bt) st)))"

definition Mark :: "bitmap_t \<Rightarrow> storage_t \<Rightarrow> int \<Rightarrow> int \<Rightarrow> storage_t go" where
  "Mark a st opid bt =
     (if bt < 0 then Panic ''Mark bad blockno''
      else gbind (modify_bit a st bt or_bit) (\<lambda>st. Ok (st_Write opid (freestart a + blkno bt) st)))"

datatype mark_t = MARK | UNMARK

fun smallest :: "int list \<Rightarrow> int list \<Rightarrow> (int \<times> mark_t) go" where
  "smallest (m # ms) [] = Ok (m, MARK)"
| "smallest (m # ms) (u # us) = (if u < m then Ok (u, UNMARK) else Ok (m, MARK))"
| "smallest [] (u # us) = Ok (u, UNMARK)"
| "smallest [] [] = Panic ''index out of range''"

lemma smallest_nonempty:
  "smallest mark unmark = Ok (b, MARK) \<Longrightarrow> mark \<noteq> []" "smallest mark unmark = Ok (b, UNMARK) \<Longrightarrow> unmark \<noteq> []"
  by (cases "(mark, unmark)" rule: smallest.cases; simp split: if_splits)+

text \<open>
  One iteration of \<open>MarkUnmark\<close>.  \<open>cur\<close> is the number of the block held in \<open>blk\<close> (\<open>blk.Block\<close>,
  counted from the start of the disk); it is compared with the bit's block counted from the start of
  the bitmap, and the held block is the one changed.
\<close>

definition mu_step :: "bitmap_t \<Rightarrow> storage_t \<Rightarrow> int \<Rightarrow> int option \<Rightarrow> int \<Rightarrow> mark_t \<Rightarrow> (storage_t \<times> int) go" where
  "mu_step a st opid cur bt op =
     (if bt < 0 then Panic ''MarkUnmark bad bit''
      else
        let fblkno = blkno bt;
            (st, cur) = (case cur of
                None \<Rightarrow> (st, None)
              | Some b \<Rightarrow> if b \<noteq> fblkno then (st_Write opid b st, None) else (st, Some b))
        in gbind (case cur of
               None \<Rightarrow> gbind (Fbread a st fblkno) (\<lambda>_. Ok (freestart a + fblkno))
             | Some b \<Rightarrow> Ok b) (\<lambda>b.
           gbind (byte_at (blks st b) (byteno bt)) (\<lambda>v.
           let v' = (if op = MARK then or_bit else andnot_bit) v (bitmask (byteoffset bt))
           in Ok (st\<lparr>blks := (blks st)(b := (blks st b)[nat (byteno bt) := v'])\<rparr>, b))))"

function MarkUnmark_loop :: "bitmap_t \<Rightarrow> storage_t \<Rightarrow> int \<Rightarrow> int option \<Rightarrow> int list \<Rightarrow> int list \<Rightarrow> storage_t go" where
  "MarkUnmark_loop a st opid cur mark unmark =
     (if mark = [] \<and> unmark = [] then
        Ok (case cur of None \<Rightarrow> st | Some b \<Rightarrow> st_Write opid b st)
      else gbind (smallest mark unmark) (\<lambda>(bt, op).
        gbind (mu_step a st opid cur bt op) (\<lambda>(st, b).
        case op of
          MARK \<Rightarrow> MarkUnmark_loop a st opid (Some b) (tl mark) unmark
        | UNMARK \<Rightarrow> MarkUnmark_loop a st opid (Some b) mark (tl unmark))))"
  by pat_completeness auto
termination
  by (relation "measure (\<lambda>(a, st, opid, cur, mark, unmark). length mark + length unmark)")
    (auto dest: smallest_nonempty)

declare MarkUnmark_loop.simps [simp del]

definition MarkUnmark :: "bitmap_t \<Rightarrow> storage_t \<Rightarrow> int \<Rightarrow> int list \<Rightarrow> int list \<Rightarrow> storage_t go" where
  "MarkUnmark a st opid mark unmark = MarkUnmark_loop a st opid None (sort mark) (sort unmark)"

subsection \<open>Bits of the map\<close>

definition nbits :: "bitmap_t \<Rightarrow> int" where "nbits a = freelen a * 32768"

definition bm_bit :: "bitmap_t \<Rightarrow> storage_t \<Rightarrow> int \<Rightarrow> bool" where
  "bm_bit a st b = bit (blks st (freestart a + b div 32768) ! nat (b mod 32768 div 8)) (nat (b mod 8))"

definition bm_ok :: "bitmap_t \<Rightarrow> storage_t \<Rightarrow> bool" where
  "bm_ok a st \<longleftrightarrow> (\<forall>n. 0 \<le> n \<and> n < freelen a \<longrightarrow> page_ok (blks st (freestart a + n)))"

lemma bitsperblk_eq: "bitsperblk = 32768"
  by (simp add: bitsperblk_def BSIZE_def)

lemma sdiv_nonneg: "0 \<le> v \<Longrightarrow> 0 < b \<Longrightarrow> v sdiv b = v div (b::int)"
  by (cases "v = 0") (simp_all add: signed_divide_int_def)

lemma bit_place:
  assumes "0 \<le> b"
  shows "blkno b = b div 32768" "byteno b = b mod 32768 div 8" "byteoffset b = b mod 8"
proof -
  have o: "blkoffset b = b mod 32768" using assms by (simp add: blkoffset_def bitsperblk_eq smod_nonneg)
  show "blkno b = b div 32768" using assms by (simp add: blkno_def bitsperblk_eq sdiv_nonneg)
  show "byteno b = b mod 32768 div 8" by (simp add: byteno_def o sdiv_nonneg)
  show "byteoffset b = b mod 8" by (simp add: byteoffset_def o smod_nonneg mod_mod_cancel)
qed

lemma bit_place_range:
  assumes "0 \<le> b" "b < nbits a"
  shows "0 \<le> b div 32768" "b div 32768 < freelen a" "0 \<le> b mod 32768 div 8" "b mod 32768 div 8 < 4096"
  using assms by (auto simp: nbits_def)

lemma bit_place_inj:
  assumes "b div 32768 = c div 32768" "b mod 32768 div 8 = c mod 32768 div 8" "b mod 8 = c mod (8::int)"
  shows "b = c"
proof -
  have "b mod 32768 mod 8 = c mod 32768 mod 8" using assms(3) by (simp add: mod_mod_cancel)
  then have "b mod 32768 = c mod 32768" using assms(2) by (metis mult_div_mod_eq)
  then show ?thesis using assms(1) by (metis mult_div_mod_eq)
qed

lemma byte_test: "j < 8 \<Longrightarrow> v AND push_bit j 1 = (0 :: byte) \<longleftrightarrow> \<not> bit v j"
  by (simp add: push_bit_of_1 and_exp_eq_0_iff_not_bit)

lemma byte_update:
  assumes "j < 8" "k < 8"
  shows "bit (v OR push_bit j (1 :: byte)) k \<longleftrightarrow> k = j \<or> bit v k"
    "bit (v AND NOT (push_bit j (1 :: byte))) k \<longleftrightarrow> k \<noteq> j \<and> bit v k"
  using assms by (auto simp: bit_simps)

lemma read_bit:
  assumes "bm_ok a st" "0 \<le> b" "b < nbits a"
  shows "Fbread a st (blkno b) = Ok (blks st (freestart a + b div 32768))"
    "byte_at (blks st (freestart a + b div 32768)) (byteno b) =
       Ok (blks st (freestart a + b div 32768) ! nat (b mod 32768 div 8))"
    "blks st (freestart a + b div 32768) ! nat (b mod 32768 div 8) AND bitmask (byteoffset b) = 0 \<longleftrightarrow> \<not> bm_bit a st b"
proof -
  note r = bit_place_range [OF assms(2,3)]
  have p: "page_ok (blks st (freestart a + b div 32768))" using assms(1) r by (simp add: bm_ok_def)
  show "Fbread a st (blkno b) = Ok (blks st (freestart a + b div 32768))"
    using r by (simp add: Fbread_def bit_place [OF assms(2)])
  show "byte_at (blks st (freestart a + b div 32768)) (byteno b) =
       Ok (blks st (freestart a + b div 32768) ! nat (b mod 32768 div 8))"
  proof -
    have "\<not> (b mod 32768 div 8 < 0 \<or> b mod 32768 div 8 \<ge> int (length (blks st (freestart a + b div 32768))))"
      using r(3,4) p by linarith
    then show ?thesis unfolding byte_at_def bit_place(2) [OF assms(2)] by (simp only: if_False)
  qed
  show "blks st (freestart a + b div 32768) ! nat (b mod 32768 div 8) AND bitmask (byteoffset b) = 0 \<longleftrightarrow> \<not> bm_bit a st b"
    using byte_test [of "nat (b mod 8)"] by (simp add: bitmask_def bit_place [OF assms(2)] bm_bit_def nat_less_iff)
qed

lemma modify_bit_Ok:
  assumes "bm_ok a st" "0 \<le> b" "b < nbits a"
  shows "modify_bit a st b f = Ok (st\<lparr>blks := (blks st)(freestart a + b div 32768 :=
     (blks st (freestart a + b div 32768))[nat (b mod 32768 div 8) :=
        f (blks st (freestart a + b div 32768) ! nat (b mod 32768 div 8)) (push_bit (nat (b mod 8)) 1)])\<rparr>)"
  using read_bit(1,2) [OF assms] by (simp add: modify_bit_def bit_place [OF assms(2)] bitmask_def)

text \<open>What changing one bit does to the bits, the pages and the rest of the storage.\<close>

lemma modify_bit_bits:
  assumes "bm_ok a st" "0 \<le> b" "b < nbits a" "modify_bit a st b f = Ok st'"
    and f: "\<And>v k. k < 8 \<Longrightarrow> bit (f v (push_bit (nat (b mod 8)) 1)) k \<longleftrightarrow> (if k = nat (b mod 8) then w else bit v k)"
  shows "bm_bit a st' c = (if c = b then w else bm_bit a st c)"
proof -
  define B I J where "B = b div 32768" and "I = b mod 32768 div 8" and "J = b mod 8"
  define B' I' J' where "B' = c div 32768" and "I' = c mod 32768 div 8" and "J' = c mod 8"
  note bdefs = B_def [symmetric] I_def [symmetric] J_def [symmetric] B'_def [symmetric] I'_def [symmetric] J'_def [symmetric]
  have r: "0 \<le> B" "B < freelen a" "0 \<le> I" "I < 4096" using bit_place_range [OF assms(2,3)] by (simp_all only: bdefs)
  have i': "0 \<le> I'" "0 \<le> J'" "J' < 8" "0 \<le> J" unfolding I'_def J'_def J_def by simp_all
  have eq: "c = b \<longleftrightarrow> B' = B \<and> I' = I \<and> J' = J"
    using bit_place_inj [of c b] unfolding B_def I_def J_def B'_def I'_def J'_def by blast
  have "page_ok (blks st (freestart a + B))" using assms(1) r by (simp add: bm_ok_def)
  then have p: "nat I < length (blks st (freestart a + B))" using r by (simp add: nat_less_iff)
  have st': "blks st' = (blks st)(freestart a + B :=
     (blks st (freestart a + B))[nat I := f (blks st (freestart a + B) ! nat I) (push_bit (nat J) 1)])"
    using modify_bit_Ok [OF assms(1-3), of f] assms(4) by (simp add: bdefs)
  have m: "bm_bit a s c = bit (blks s (freestart a + B') ! nat I') (nat J')" for s by (simp add: bm_bit_def bdefs)
  show ?thesis
  proof (cases "B' = B \<and> I' = I")
    case True
    then have "blks st' (freestart a + B') ! nat I' = f (blks st (freestart a + B') ! nat I') (push_bit (nat J) 1)"
      using p by (simp add: st')
    then have "bm_bit a st' c \<longleftrightarrow> (if nat J' = nat J then w else bm_bit a st c)"
      using f [of "nat J'"] i' unfolding m by (simp add: bdefs nat_less_iff)
    then show ?thesis using True i' by (simp add: eq eq_nat_nat_iff)
  next
    case False
    then have "bm_bit a st' c = bm_bit a st c" using i' r unfolding m st' by (auto simp: eq_nat_nat_iff)
    then show ?thesis using False by (auto simp: eq)
  qed
qed

lemma modify_bit_frame:
  assumes "bm_ok a st" "0 \<le> b" "b < nbits a" "modify_bit a st b f = Ok st'"
  shows "bm_ok a st'" "slog st' = slog st" "n \<noteq> freestart a + b div 32768 \<Longrightarrow> blks st' n = blks st n"
proof -
  define B I where "B = b div 32768" and "I = b mod 32768 div 8"
  obtain v where st': "st' = st\<lparr>blks := (blks st)(freestart a + B := (blks st (freestart a + B))[nat I := v])\<rparr>"
    using modify_bit_Ok [OF assms(1-3), of f] assms(4) unfolding B_def [symmetric] I_def [symmetric] by simp
  show "bm_ok a st'" using assms(1) by (simp add: bm_ok_def st')
  show "slog st' = slog st" by (simp add: st')
  show "n \<noteq> freestart a + b div 32768 \<Longrightarrow> blks st' n = blks st n" by (simp add: st' B_def)
qed

lemma or_bit_law: "k < 8 \<Longrightarrow> bit (or_bit v (push_bit (nat (b mod 8)) 1)) k \<longleftrightarrow> (if k = nat (b mod 8) then True else bit v k)"
  using byte_update(1) [of "nat (b mod 8)" k v] by (simp add: or_bit_def nat_less_iff)

lemma andnot_bit_law: "k < 8 \<Longrightarrow> bit (andnot_bit v (push_bit (nat (b mod 8)) 1)) k \<longleftrightarrow> (if k = nat (b mod 8) then False else bit v k)"
  using byte_update(2) [of "nat (b mod 8)" k v] by (simp add: andnot_bit_def nat_less_iff)

lemma bm_bit_Write [simp]: "bm_bit a (st_Write opid n st) b = bm_bit a st b" "blks (st_Write opid n st) = blks st"
  by (simp_all add: bm_bit_def st_Write_def)

lemma bm_ok_Write [simp]: "bm_ok a (st_Write opid n st) = bm_ok a st"
  by (simp add: bm_ok_def)

lemma bm_upd [simp]:
  "bm_bit (a\<lparr>lastbit := x\<rparr>) st b = bm_bit a st b" "bm_bit (a\<lparr>nfreebits := y\<rparr>) st b = bm_bit a st b"
  "bm_ok (a\<lparr>lastbit := x\<rparr>) st = bm_ok a st" "bm_ok (a\<lparr>nfreebits := y\<rparr>) st = bm_ok a st"
  "nbits (a\<lparr>lastbit := x\<rparr>) = nbits a" "nbits (a\<lparr>nfreebits := y\<rparr>) = nbits a"
  by (simp_all add: bm_bit_def bm_ok_def nbits_def)

subsection \<open>Scans of the map\<close>

abbreviation count_free :: "int \<Rightarrow> byte \<Rightarrow> 64 word \<Rightarrow> bool \<times> 64 word" where
  "count_free b v n \<equiv> (True, if v = 0 then n + 1 else n)"

abbreviation pick_free :: "int \<Rightarrow> byte \<Rightarrow> int \<Rightarrow> bool \<times> int" where
  "pick_free b v lb \<equiv> (if v = 0 then (False, b) else (True, lb))"

lemma apply_count:
  assumes "bm_ok a st" "0 \<le> bt" "bt + int n \<le> nbits a"
  shows "apply_loop a st n bt count_free m =
    Ok (True, m + of_nat (card {b. bt \<le> b \<and> b < bt + int n \<and> \<not> bm_bit a st b}))"
  using assms(2,3)
proof (induction n arbitrary: bt m)
  case 0
  have e: "{b. bt \<le> b \<and> b < bt + int 0 \<and> \<not> bm_bit a st b} = {}" by auto
  show ?case unfolding e by simp
next
  case (Suc n)
  let ?S = "\<lambda>bt n. {b. bt \<le> b \<and> b < bt + int n \<and> \<not> bm_bit a st b}"
  have lt: "bt < nbits a" using Suc.prems by simp
  have S: "?S bt (Suc n) = (if bm_bit a st bt then ?S (bt + 1) n else insert bt (?S (bt + 1) n))"
    by (auto simp: order_le_less)
  have fin: "finite (?S (bt + 1) n)" by (rule finite_subset [of _ "{bt + 1 ..< bt + 1 + int n}"]) auto
  have c: "card (?S bt (Suc n)) = (if bm_bit a st bt then card (?S (bt + 1) n) else Suc (card (?S (bt + 1) n)))"
    using fin unfolding S by simp
  show ?case
    using Suc read_bit [OF assms(1) Suc.prems(1) lt] unfolding c by simp
qed

lemma apply_pick:
  assumes "bm_ok a st" "0 \<le> bt" "bt + int n \<le> nbits a"
  shows "\<exists>r lb'. apply_loop a st n bt pick_free lb = Ok (r, lb') \<and>
    (if \<exists>b. bt \<le> b \<and> b < bt + int n \<and> \<not> bm_bit a st b
     then bt \<le> lb' \<and> lb' < bt + int n \<and> \<not> bm_bit a st lb' else lb' = lb)"
  using assms(2,3)
proof (induction n arbitrary: bt)
  case (Suc n)
  have lt: "bt < nbits a" using Suc.prems by simp
  note rb = read_bit [OF assms(1) Suc.prems(1) lt]
  show ?case
  proof (cases "bm_bit a st bt")
    case True
    have step: "bt \<le> b \<and> b < bt + int (Suc n) \<and> \<not> bm_bit a st b \<longleftrightarrow>
        bt + 1 \<le> b \<and> b < bt + 1 + int n \<and> \<not> bm_bit a st b" for b
      using True by (cases "b = bt") auto
    obtain r lb' where "apply_loop a st n (bt + 1) pick_free lb = Ok (r, lb')"
      and p: "if \<exists>b. bt + 1 \<le> b \<and> b < bt + 1 + int n \<and> \<not> bm_bit a st b
         then bt + 1 \<le> lb' \<and> lb' < bt + 1 + int n \<and> \<not> bm_bit a st lb' else lb' = lb"
      using Suc.IH [of "bt + 1"] Suc.prems by auto
    then have "apply_loop a st (Suc n) bt pick_free lb = Ok (r, lb')" using True rb by simp
    then show ?thesis unfolding step using p by (intro exI [of _ r] exI [of _ lb']) (auto split: if_splits)
  next
    case False
    then have "apply_loop a st (Suc n) bt pick_free lb = Ok (False, bt)" using rb by simp
    then show ?thesis using False by (intro exI [of _ False] exI [of _ bt]) auto
  qed
qed auto

lemma first_clear_Some: "first_clear v n j = Some k \<Longrightarrow> j + n \<le> 8 \<Longrightarrow> k < 8 \<and> \<not> bit v k"
  by (induction v n j rule: first_clear.induct) (auto simp: and_exp_eq_0_iff_not_bit split: if_splits)

lemma first_clear_None: "first_clear v n j = None \<Longrightarrow> j + n \<le> 8 \<Longrightarrow> j \<le> k \<Longrightarrow> k < j + n \<Longrightarrow> bit v k"
proof (induction v n j rule: first_clear.induct)
  case (2 v n j)
  then show ?case by (cases "k = j") (auto simp: and_exp_eq_0_iff_not_bit split: if_splits)
qed simp

lemma byte_full: "(v :: byte) = 255 \<longleftrightarrow> (\<forall>k < 8. bit v k)"
proof -
  have "(255 :: byte) = mask 8" by (simp add: mask_eq_exp_minus_1)
  then show ?thesis by (auto simp: bit_eq_iff bit_mask_iff)
qed

definition fm_bit :: "bitmap_t \<Rightarrow> int \<Rightarrow> bool" where
  "fm_bit a b = bit (freemap a ! nat (b div 8)) (nat (b mod 8))"

definition fm_taken :: "bitmap_t \<Rightarrow> int \<Rightarrow> bitmap_t" where
  "fm_taken a b = a\<lparr>bm_last := b div 8, nfreebits := nfreebits a - 1,
     freemap := (freemap a)[nat (b div 8) := freemap a ! nat (b div 8) OR push_bit (nat (b mod 8)) 1]\<rparr>"

lemma FindFreeMap_hit:
  assumes "i < length (freemap a)" "freemap a ! i \<noteq> 255" "0 < n"
  shows "\<exists>b. FindFreeMap_loop n a (int i) once = Some (Ok (b, 0, fm_taken a b)) \<and>
    0 \<le> b \<and> b < 8 * int (length (freemap a)) \<and> \<not> fm_bit a b"
proof -
  obtain j where j: "first_clear (freemap a ! i) 8 0 = Some j"
    using assms(2) first_clear_None [of "freemap a ! i" 8 0] by (cases "first_clear (freemap a ! i) 8 0") (auto simp: byte_full)
  then have j8: "j < 8" "\<not> bit (freemap a ! i) j" using first_clear_Some by auto
  obtain m where n: "n = Suc m" using assms(3) by (cases n) auto
  have d: "(int i * 8 + int j) div 8 = int i" "(int i * 8 + int j) mod 8 = int j" using j8 by auto
  have "FindFreeMap_loop n a (int i) once = Some (Ok (int i * 8 + int j, 0, fm_taken a (int i * 8 + int j)))"
    using assms(1,2) j unfolding n fm_taken_def d by simp
  moreover have "int i * 8 + int j < 8 * int (length (freemap a))" using assms(1) j8 by simp
  ultimately show ?thesis using j8 unfolding fm_bit_def
    by (intro exI [of _ "int i * 8 + int j"]) (simp add: d)
qed

lemma FindFreeMap_skip:
  assumes "i + k < length (freemap a)" "\<forall>x. i \<le> x \<and> x < i + k \<longrightarrow> freemap a ! x = 255" "k \<le> n"
  shows "FindFreeMap_loop n a (int i) once = FindFreeMap_loop (n - k) a (int (i + k)) once"
  using assms
proof (induction k arbitrary: i n)
  case (Suc k)
  then obtain m where n: "n = Suc m" by (cases n) auto
  have "freemap a ! i = 255" using Suc.prems by simp
  then have "FindFreeMap_loop n a (int i) once = FindFreeMap_loop m a (int (Suc i)) once"
    using Suc.prems(1) unfolding n by (simp add: add.commute)
  also have "\<dots> = FindFreeMap_loop (m - k) a (int (Suc i + k)) once"
    using Suc.prems n by (intro Suc.IH) auto
  finally show ?case by (simp add: n)
qed simp

text \<open>The scan of the free map ends within its bound, taking a clear bit when there is one.\<close>

lemma FindFreeMap_finds:
  assumes "i < length (freemap a)" "\<exists>x \<ge> i. x < length (freemap a) \<and> freemap a ! x \<noteq> 255" "length (freemap a) \<le> n"
  shows "\<exists>b. FindFreeMap_loop n a (int i) once = Some (Ok (b, 0, fm_taken a b)) \<and>
    0 \<le> b \<and> b < 8 * int (length (freemap a)) \<and> \<not> fm_bit a b"
proof -
  define x where "x = (LEAST x. i \<le> x \<and> x < length (freemap a) \<and> freemap a ! x \<noteq> 255)"
  have x: "i \<le> x \<and> x < length (freemap a) \<and> freemap a ! x \<noteq> 255"
    unfolding x_def by (rule LeastI_ex) (use assms(2) in blast)
  have "freemap a ! y = 255" if "i \<le> y" "y < x" for y
    using not_less_Least [of y "\<lambda>x. i \<le> x \<and> x < length (freemap a) \<and> freemap a ! x \<noteq> 255"] that x unfolding x_def [symmetric] by auto
  then have "FindFreeMap_loop n a (int i) once = FindFreeMap_loop (n - (x - i)) a (int x) once"
    using FindFreeMap_skip [of i "x - i" a n once] x assms(3) by auto
  moreover have "0 < n - (x - i)" using x assms(3) by simp
  ultimately show ?thesis using FindFreeMap_hit [of x a "n - (x - i)" once] x by simp
qed

lemma FindFreeMap_full_loop:
  assumes "i < length (freemap a)" "\<forall>x. i \<le> x \<and> x < length (freemap a) \<longrightarrow> freemap a ! x = 255" "length (freemap a) - i \<le> n"
  shows "FindFreeMap_loop n a (int i) once =
    (if once then Some (Panic ''memfs out of memory'') else FindFreeMap_loop (n - (length (freemap a) - i)) a 0 True)"
proof -
  let ?k = "length (freemap a) - 1 - i"
  obtain m where m: "n - ?k = Suc m" using assms(1,3) by (cases "n - ?k") auto
  have "FindFreeMap_loop n a (int i) once = FindFreeMap_loop (Suc m) a (int (length (freemap a) - 1)) once"
    using FindFreeMap_skip [of i ?k a n once] assms m by auto
  moreover have "m = n - (length (freemap a) - i)" using m assms(1) by linarith
  moreover obtain l where l: "length (freemap a) = Suc l" using assms(1) by (cases "length (freemap a)") auto
  moreover have "freemap a ! l = 255" using assms(1,2) l by simp
  ultimately show ?thesis by (simp add: Let_def)
qed

lemma FindFreeMap_spec:
  assumes "0 \<le> bm_last a" "bm_last a < int (length (freemap a))" "2 * length (freemap a) \<le> fuel"
  shows "if \<forall>x < length (freemap a). freemap a ! x = 255
    then FindFreeMap fuel a = Some (Panic ''memfs out of memory'')
    else \<exists>b. FindFreeMap fuel a = Some (Ok (b, 0, fm_taken a b)) \<and>
      0 \<le> b \<and> b < 8 * int (length (freemap a)) \<and> \<not> fm_bit a b"
proof -
  define i where "i = nat (bm_last a)"
  have i: "bm_last a = int i" "i < length (freemap a)" using assms by (auto simp: i_def nat_less_iff)
  let ?P = "\<exists>b. FindFreeMap fuel a = Some (Ok (b, 0, fm_taken a b)) \<and> 0 \<le> b \<and> b < 8 * int (length (freemap a)) \<and> \<not> fm_bit a b"
  show ?thesis
  proof (cases "\<exists>x \<ge> i. x < length (freemap a) \<and> freemap a ! x \<noteq> 255")
    case True
    then have ?P using FindFreeMap_finds [OF i(2) True, of fuel False] assms(3) by (simp add: FindFreeMap_def i)
    then show ?thesis using True by auto
  next
    case False
    define n where "n = fuel - (length (freemap a) - i)"
    have n: "length (freemap a) \<le> n" using assms(3) by (simp add: n_def)
    have w: "FindFreeMap fuel a = FindFreeMap_loop n a (int 0) True"
      using FindFreeMap_full_loop [of i a fuel False] False i assms(3) by (auto simp: FindFreeMap_def n_def)
    have z: "0 < length (freemap a)" using i(2) by linarith
    show ?thesis
    proof (cases "\<forall>x < length (freemap a). freemap a ! x = 255")
      case True
      then show ?thesis using FindFreeMap_full_loop [OF z, of n True] n w by simp
    next
      case False
      then have ?P unfolding w using FindFreeMap_finds [OF z _ n, of True] by auto
      then show ?thesis using False by auto
    qed
  qed
qed

subsection \<open>Allocation and release\<close>

definition bit_set :: "bitmap_t \<Rightarrow> storage_t \<Rightarrow> storage_t \<Rightarrow> int \<Rightarrow> bool \<Rightarrow> bool" where
  "bit_set a st st' b w \<longleftrightarrow> bm_ok a st' \<and> (\<forall>c. bm_bit a st' c = (if c = b then w else bm_bit a st c))"

lemma mark_disk:
  assumes "bm_ok a st" "0 \<le> b" "b < nbits a"
  obtains st' where "modify_bit a st b or_bit = Ok st'" "bit_set a st st' b True"
proof -
  obtain st' where st': "modify_bit a st b or_bit = Ok st'" using modify_bit_Ok [OF assms] by blast
  have "bit_set a st st' b True"
    unfolding bit_set_def using modify_bit_frame(1) [OF assms st'] modify_bit_bits [OF assms st', of True] or_bit_law by blast
  then show ?thesis using that st' by blast
qed

lemma unmark_disk:
  assumes "bm_ok a st" "0 \<le> b" "b < nbits a"
  obtains st' where "modify_bit a st b andnot_bit = Ok st'" "bit_set a st st' b False"
proof -
  obtain st' where st': "modify_bit a st b andnot_bit = Ok st'" using modify_bit_Ok [OF assms] by blast
  have "bit_set a st st' b False"
    unfolding bit_set_def using modify_bit_frame(1) [OF assms st'] modify_bit_bits [OF assms st', of False] andnot_bit_law by blast
  then show ?thesis using that st' by blast
qed

lemma bit_set_Write [simp]: "bit_set a st (st_Write opid n st') b w = bit_set a st st' b w"
  by (simp add: bit_set_def)

lemma bit_set_upd [simp]:
  "bit_set (a\<lparr>lastbit := x\<rparr>) st st' b w = bit_set a st st' b w" "bit_set (a\<lparr>nfreebits := y\<rparr>) st st' b w = bit_set a st st' b w"
  by (simp_all add: bit_set_def)

lemma past_end: "nbits a \<le> b \<Longrightarrow> 0 \<le> b \<Longrightarrow> Fbread a st (blkno b) = Panic ''naughty blockno''"
  using zdiv_mono1 [of "nbits a" b 32768] by (simp add: Fbread_def bit_place nbits_def)

lemma CheckAndMark_spec:
  assumes "bm_ok a st" "0 \<le> lastbit a" "lastbit a < nbits a"
  shows "bm_bit a st (lastbit a) \<Longrightarrow> CheckAndMark a st opid = Ok (0, - ENOMEM, a, st)"
    "\<not> bm_bit a st (lastbit a) \<Longrightarrow> \<exists>st'. bit_set a st st' (lastbit a) True \<and>
      CheckAndMark a st opid = Ok (lastbit a, 0, a\<lparr>lastbit := lastbit a + 1\<rparr>, st')"
proof -
  note rb = read_bit [OF assms]
  show "bm_bit a st (lastbit a) \<Longrightarrow> CheckAndMark a st opid = Ok (0, - ENOMEM, a, st)"
    using rb by (simp add: CheckAndMark_def)
  obtain st' where "modify_bit a st (lastbit a) or_bit = Ok st'" and s: "bit_set a st st' (lastbit a) True"
    using mark_disk [OF assms] .
  then have "CheckAndMark a st opid = Ok (lastbit a, 0, a\<lparr>lastbit := lastbit a + 1\<rparr>, st_Write opid (freestart a + blkno (lastbit a)) st')"
    if "\<not> bm_bit a st (lastbit a)" using rb that by (simp add: CheckAndMark_def Let_def)
  then show "\<not> bm_bit a st (lastbit a) \<Longrightarrow> \<exists>st'. bit_set a st st' (lastbit a) True \<and>
      CheckAndMark a st opid = Ok (lastbit a, 0, a\<lparr>lastbit := lastbit a + 1\<rparr>, st')" using s by auto
qed

definition disk_taken :: "bitmap_t \<Rightarrow> int \<Rightarrow> bitmap_t" where
  "disk_taken a b = a\<lparr>lastbit := b + 1, nfreebits := nfreebits a - 1\<rparr>"

lemma FindDiskMap_spec:
  assumes "bm_ok a st" "0 \<le> lastbit a" "lastbit a < nbits a"
  shows "if \<exists>b. 0 \<le> b \<and> b < nbits a \<and> \<not> bm_bit a st b
    then \<exists>b st'. FindDiskMap a st opid = Ok (b, 0, disk_taken a b, st') \<and>
      0 \<le> b \<and> b < nbits a \<and> \<not> bm_bit a st b \<and> bit_set a st st' b True
    else FindDiskMap a st opid = Panic ''FindAndMark''"
proof (cases "bm_bit a st (lastbit a)")
  case False
  then obtain st' where "bit_set a st st' (lastbit a) True"
    "CheckAndMark a st opid = Ok (lastbit a, 0, a\<lparr>lastbit := lastbit a + 1\<rparr>, st')"
    using CheckAndMark_spec(2) [OF assms] by blast
  then show ?thesis using False assms by (auto simp: FindDiskMap_def disk_taken_def)
next
  case True
  note first = CheckAndMark_spec(1) [OF assms True, of opid]
  have n: "0 + int (nat (nbits a)) = nbits a" using assms by simp
  obtain r lb where scan: "apply_bits a st 0 pick_free (lastbit a) = Ok (r, lb)"
    and lb: "if \<exists>b. 0 \<le> b \<and> b < nbits a \<and> \<not> bm_bit a st b then 0 \<le> lb \<and> lb < nbits a \<and> \<not> bm_bit a st lb else lb = lastbit a"
    using apply_pick [OF assms(1), of 0 "nat (nbits a)" "lastbit a"] unfolding n
    by (auto simp: apply_bits_def nbits_def bitsperblk_eq)
  let ?a = "a\<lparr>lastbit := lb\<rparr>"
  have ok: "bm_ok ?a st" "0 \<le> lastbit ?a" "lastbit ?a < nbits ?a" using assms lb by (auto split: if_splits)
  note second = CheckAndMark_spec [OF ok, of opid]
  show ?thesis
  proof (cases "\<exists>b. 0 \<le> b \<and> b < nbits a \<and> \<not> bm_bit a st b")
    case free: True
    then have l: "0 \<le> lb" "lb < nbits a" "\<not> bm_bit a st lb" using lb by auto
    then obtain st' where "bit_set a st st' lb True" "CheckAndMark ?a st opid = Ok (lb, 0, a\<lparr>lastbit := lb + 1\<rparr>, st')"
      using second(2) by auto
    then show ?thesis using free l first scan by (auto simp: FindDiskMap_def disk_taken_def)
  next
    case False
    then have "lb = lastbit a" using lb by auto
    then have "FindDiskMap a st opid = Panic ''FindAndMark''"
      using second(1) True first scan by (simp add: FindDiskMap_def)
    then show ?thesis using False by auto
  qed
qed

text \<open>
  The allocator's view in both modes: which bits it manages, which are taken, and its invariant,
  which includes that \<open>nfreebits\<close> counts the free ones.
\<close>

definition al_bits :: "bitmap_t \<Rightarrow> int" where
  "al_bits a = (if bm_diskfs a then nbits a else 8 * int (length (freemap a)))"

definition al_bit :: "bitmap_t \<Rightarrow> storage_t \<Rightarrow> int \<Rightarrow> bool" where
  "al_bit a st b = (if bm_diskfs a then bm_bit a st b else fm_bit a b)"

definition al_used :: "bitmap_t \<times> storage_t \<Rightarrow> int set" where
  "al_used s = {b. 0 \<le> b \<and> b < al_bits (fst s) \<and> al_bit (fst s) (snd s) b}"

definition al_free :: "bitmap_t \<times> storage_t \<Rightarrow> int set" where
  "al_free s = {b. 0 \<le> b \<and> b < al_bits (fst s) \<and> \<not> al_bit (fst s) (snd s) b}"

definition al_inv :: "bitmap_t \<times> storage_t \<Rightarrow> bool" where
  "al_inv s \<longleftrightarrow> nfreebits (fst s) = of_nat (card (al_free s)) \<and>
     (if bm_diskfs (fst s) then bm_ok (fst s) (snd s) \<and> 0 \<le> lastbit (fst s)
      else 0 \<le> bm_last (fst s) \<and> bm_last (fst s) < int (length (freemap (fst s))))"

lemma finite_al_free [simp]: "finite (al_free s)"
  by (rule finite_subset [of _ "{0 ..< al_bits (fst s)}"]) (auto simp: al_free_def)

lemma al_taken:
  assumes "al_inv s" "b \<in> al_free s" "bm_diskfs (fst s') = bm_diskfs (fst s)" "al_bits (fst s') = al_bits (fst s)"
    and bits: "\<And>c. 0 \<le> c \<Longrightarrow> c < al_bits (fst s) \<Longrightarrow> al_bit (fst s') (snd s') c = (c = b \<or> al_bit (fst s) (snd s) c)"
    and n: "nfreebits (fst s') = nfreebits (fst s) - 1"
  shows "al_used s' = insert b (al_used s)" "al_free s' = al_free s - {b}" "nfreebits (fst s') = of_nat (card (al_free s'))"
proof -
  show "al_used s' = insert b (al_used s)" using assms(2,4) bits unfolding al_used_def al_free_def by auto
  show f: "al_free s' = al_free s - {b}" using assms(2,4) bits unfolding al_free_def by auto
  have "card (al_free s) = Suc (card (al_free s'))" using card_Suc_Diff1 [OF finite_al_free assms(2)] unfolding f by simp
  then show "nfreebits (fst s') = of_nat (card (al_free s'))" using assms(1) n by (simp add: al_inv_def)
qed

lemma al_released:
  assumes "al_inv s" "b \<in> al_used s" "bm_diskfs (fst s') = bm_diskfs (fst s)" "al_bits (fst s') = al_bits (fst s)"
    and bits: "\<And>c. 0 \<le> c \<Longrightarrow> c < al_bits (fst s) \<Longrightarrow> al_bit (fst s') (snd s') c = (c \<noteq> b \<and> al_bit (fst s) (snd s) c)"
    and n: "nfreebits (fst s') = nfreebits (fst s) + 1"
  shows "al_used s' = al_used s - {b}" "al_free s' = insert b (al_free s)" "nfreebits (fst s') = of_nat (card (al_free s'))"
proof -
  show "al_used s' = al_used s - {b}" using assms(2,4) bits unfolding al_used_def by auto
  show f: "al_free s' = insert b (al_free s)" using assms(2,4) bits unfolding al_free_def al_used_def by auto
  have "b \<notin> al_free s" using assms(2) by (simp add: al_used_def al_free_def)
  then have "card (al_free s') = Suc (card (al_free s))" unfolding f by simp
  then show "nfreebits (fst s') = of_nat (card (al_free s'))" using assms(1) n by (simp add: al_inv_def)
qed

lemma fm_bit_update:
  assumes "0 \<le> b" "b < 8 * int (length (freemap a))" "0 \<le> c"
    "freemap a' = (freemap a)[nat (b div 8) := v]" "\<And>k. k < 8 \<Longrightarrow> bit v k \<longleftrightarrow> (if k = nat (b mod 8) then w else bit (freemap a ! nat (b div 8)) k)"
  shows "fm_bit a' c = (if c = b then w else fm_bit a c)"
proof -
  define B J B' J' where d: "B = b div 8" "J = b mod 8" "B' = c div 8" "J' = c mod 8"
  have r: "0 \<le> B" "B < int (length (freemap a))" "0 \<le> J" "0 \<le> B'" "0 \<le> J'" "J' < 8" using assms(1-3) unfolding d by auto
  have eq: "c = b \<longleftrightarrow> B' = B \<and> J' = J" unfolding d by (metis mult_div_mod_eq)
  have m: "fm_bit x c = bit (freemap x ! nat B') (nat J')" for x by (simp add: fm_bit_def d)
  have v: "bit v (nat J') \<longleftrightarrow> (if J' = J then w else bit (freemap a ! nat B) (nat J'))"
    using assms(5) [of "nat J'"] r unfolding d [symmetric] by (auto simp: eq_nat_nat_iff nat_less_iff)
  show ?thesis
  proof (cases "B' = B")
    case True
    then have "freemap a' ! nat B' = v" using r assms(4) unfolding d [symmetric] by (simp add: nat_less_iff)
    then show ?thesis using v True unfolding m by (simp add: eq)
  next
    case False
    then show ?thesis using r assms(4) unfolding m d [symmetric] by (simp add: eq eq_nat_nat_iff)
  qed
qed

lemma al_bit_disk: "bm_diskfs a \<Longrightarrow> al_bit a st b = bm_bit a st b" "bm_diskfs a \<Longrightarrow> al_bits a = nbits a"
  by (simp_all add: al_bit_def al_bits_def)

lemma al_bit_mem: "\<not> bm_diskfs a \<Longrightarrow> al_bit a st b = fm_bit a b" "\<not> bm_diskfs a \<Longrightarrow> al_bits a = 8 * int (length (freemap a))"
  by (simp_all add: al_bit_def al_bits_def)

text \<open>One allocation and one release, as operations on the pair of allocator and storage.\<close>

definition al_alloc :: "int \<Rightarrow> bitmap_t \<times> storage_t \<Rightarrow> (int \<times> bitmap_t \<times> storage_t) go" where
  "al_alloc opid s = gbind (FindAndMark (fst s) (snd s) opid) (\<lambda>(b, e, a, st). Ok (b, a, st))"

definition al_release :: "int \<Rightarrow> int \<Rightarrow> bitmap_t \<times> storage_t \<Rightarrow> (bitmap_t \<times> storage_t) go" where
  "al_release opid b s = Unmark (fst s) (snd s) opid b"

definition al_wants :: "bitmap_t \<times> storage_t \<Rightarrow> bool" where
  "al_wants s \<longleftrightarrow> al_free s \<noteq> {} \<and> (bm_diskfs (fst s) \<longrightarrow> lastbit (fst s) < nbits (fst s))"

lemma FindDiskMap_step:
  assumes "al_inv (a, st)" "bm_diskfs a" "lastbit a < nbits a" "al_free (a, st) \<noteq> {}"
  shows "\<exists>b a' st'. FindDiskMap a st opid = Ok (b, 0, a', st') \<and> b \<in> al_free (a, st) \<and>
    al_inv (a', st') \<and> al_used (a', st') = insert b (al_used (a, st))"
proof -
  have inv: "bm_ok a st" "0 \<le> lastbit a" using assms(1,2) by (simp_all add: al_inv_def)
  have "\<exists>b. 0 \<le> b \<and> b < nbits a \<and> \<not> bm_bit a st b" using assms(2,4) by (auto simp: al_free_def al_bit_disk)
  then obtain b st' where b: "FindDiskMap a st opid = Ok (b, 0, disk_taken a b, st')" "0 \<le> b" "b < nbits a"
      "\<not> bm_bit a st b" "bit_set a st st' b True"
    using FindDiskMap_spec [OF inv assms(3), of opid] by auto
  let ?s = "(disk_taken a b, st')"
  have free: "b \<in> al_free (a, st)" using b assms(2) by (simp add: al_free_def al_bit_disk)
  have t: "bm_diskfs (disk_taken a b)" "nbits (disk_taken a b) = nbits a" "nfreebits (disk_taken a b) = nfreebits a - 1"
      "bm_bit (disk_taken a b) st' c = bm_bit a st' c" "bm_ok (disk_taken a b) st' = bm_ok a st'" "lastbit (disk_taken a b) = b + 1" for c
    using assms(2) by (simp_all add: disk_taken_def)
  have side: "bm_diskfs (fst ?s) = bm_diskfs (fst (a, st))" "al_bits (fst ?s) = al_bits (fst (a, st))"
      "al_bit (fst ?s) (snd ?s) c = (c = b \<or> al_bit (fst (a, st)) (snd (a, st)) c)" "nfreebits (fst ?s) = nfreebits (fst (a, st)) - 1" for c
    using b t assms(2) by (simp_all add: al_bit_disk bit_set_def)
  note al = al_taken [OF assms(1) free side(1,2) side(3) side(4)]
  have "al_inv ?s" using al(3) b t by (simp add: al_inv_def bit_set_def)
  then show ?thesis using b(1) free al(1) by blast
qed

lemma FindFreeMap_step:
  assumes "al_inv (a, st)" "\<not> bm_diskfs a" "al_free (a, st) \<noteq> {}" "2 * length (freemap a) \<le> fuel"
  shows "\<exists>b a'. FindFreeMap fuel a = Some (Ok (b, 0, a')) \<and> b \<in> al_free (a, st) \<and>
    al_inv (a', st) \<and> al_used (a', st) = insert b (al_used (a, st))"
proof -
  have inv: "0 \<le> bm_last a" "bm_last a < int (length (freemap a))" using assms(1,2) by (simp_all add: al_inv_def)
  obtain c where c: "0 \<le> c" "c < 8 * int (length (freemap a))" "\<not> fm_bit a c"
    using assms(2,3) by (auto simp: al_free_def al_bit_mem)
  have "nat (c mod 8) < 8" by (simp add: nat_less_iff)
  then have "freemap a ! nat (c div 8) \<noteq> 255" using c(3) unfolding fm_bit_def byte_full by blast
  moreover have "nat (c div 8) < length (freemap a)" using c(1,2) by (simp add: nat_less_iff)
  ultimately obtain b where b: "FindFreeMap fuel a = Some (Ok (b, 0, fm_taken a b))" "0 \<le> b" "b < 8 * int (length (freemap a))" "\<not> fm_bit a b"
    using FindFreeMap_spec [OF inv assms(4)] by (auto split: if_splits)
  let ?s = "(fm_taken a b, st)"
  have free: "b \<in> al_free (a, st)" using b assms(2) by (simp add: al_free_def al_bit_mem)
  have t: "bm_diskfs (fm_taken a b) = bm_diskfs a" "length (freemap (fm_taken a b)) = length (freemap a)"
      "nfreebits (fm_taken a b) = nfreebits a - 1" "bm_last (fm_taken a b) = b div 8" by (simp_all add: fm_taken_def)
  have bits: "0 \<le> c \<Longrightarrow> fm_bit (fm_taken a b) c = (c = b \<or> fm_bit a c)" for c
    using fm_bit_update [OF b(2,3), of c "fm_taken a b" "freemap a ! nat (b div 8) OR push_bit (nat (b mod 8)) 1" True]
      byte_update(1) [of "nat (b mod 8)"] by (simp add: fm_taken_def nat_less_iff)
  have side: "bm_diskfs (fst ?s) = bm_diskfs (fst (a, st))" "al_bits (fst ?s) = al_bits (fst (a, st))"
      "0 \<le> c \<Longrightarrow> al_bit (fst ?s) (snd ?s) c = (c = b \<or> al_bit (fst (a, st)) (snd (a, st)) c)"
      "nfreebits (fst ?s) = nfreebits (fst (a, st)) - 1" for c
    using t bits assms(2) by (simp_all add: al_bit_mem)
  note al = al_taken [OF assms(1) free side(1,2) side(3) side(4)]
  have "al_inv ?s" using al(3) b t assms(2) by (auto simp: al_inv_def)
  then show ?thesis using b(1) free al(1) by blast
qed

lemma FindAndMark_step:
  assumes "al_inv (a, st)" "al_wants (a, st)"
  shows "\<exists>b a' st'. FindAndMark a st opid = Ok (b, 0, a', st') \<and> b \<in> al_free (a, st) \<and>
    al_inv (a', st') \<and> al_used (a', st') = insert b (al_used (a, st))"
proof (cases "bm_diskfs a")
  case True
  then show ?thesis using FindDiskMap_step [OF assms(1) True] assms(2) by (simp add: FindAndMark_def al_wants_def)
next
  case False
  have "2 * length (freemap a) \<le> 2 * length (freemap a) + 2" by simp
  then obtain b a' where "FindFreeMap (2 * length (freemap a) + 2) a = Some (Ok (b, 0, a'))" "b \<in> al_free (a, st)"
    "al_inv (a', st)" "al_used (a', st) = insert b (al_used (a, st))"
    using FindFreeMap_step [OF assms(1) False] assms(2) unfolding al_wants_def by blast
  then show ?thesis using False by (simp add: FindAndMark_def)
qed

text \<open>Without room the search panics, in either mode; it also does when the hint is past the last bit.\<close>

lemma FindAndMark_stuck:
  assumes "al_inv (a, st)" "\<not> al_wants (a, st)"
  shows "\<exists>m. FindAndMark a st opid = Panic m"
proof (cases "bm_diskfs a")
  case True
  then have inv: "bm_ok a st" "0 \<le> lastbit a" using assms(1) by (simp_all add: al_inv_def)
  show ?thesis
  proof (cases "lastbit a < nbits a")
    case False
    then show ?thesis using True inv by (simp add: FindAndMark_def FindDiskMap_def CheckAndMark_def Let_def past_end)
  next
    case lt: True
    then have "\<not> (\<exists>b. 0 \<le> b \<and> b < nbits a \<and> \<not> bm_bit a st b)" using assms(2) True by (auto simp: al_wants_def al_free_def al_bit_disk)
    then show ?thesis using FindDiskMap_spec [OF inv lt, of opid] True by (auto simp: FindAndMark_def)
  qed
next
  case False
  then have inv: "0 \<le> bm_last a" "bm_last a < int (length (freemap a))" using assms(1) by (simp_all add: al_inv_def)
  have "freemap a ! x = 255" if x: "x < length (freemap a)" for x
  proof -
    have "bit (freemap a ! x) k" if "k < 8" for k
    proof -
      have "8 * int x + int k \<notin> al_free (a, st)" using assms(2) False by (simp add: al_wants_def)
      then show ?thesis using x that False by (simp add: al_free_def al_bit_mem fm_bit_def)
    qed
    then show ?thesis by (simp add: byte_full)
  qed
  then have "FindFreeMap (2 * length (freemap a) + 2) a = Some (Panic ''memfs out of memory'')"
    using FindFreeMap_spec [OF inv, of "2 * length (freemap a) + 2"] by auto
  then show ?thesis using False by (simp add: FindAndMark_def)
qed

lemma Unmark_step:
  assumes "al_inv (a, st)" "b \<in> al_used (a, st)"
  shows "\<exists>a' st'. Unmark a st opid b = Ok (a', st') \<and> al_inv (a', st') \<and> al_used (a', st') = al_used (a, st) - {b}"
proof (cases "bm_diskfs a")
  case True
  have inv: "bm_ok a st" "0 \<le> lastbit a" "0 \<le> b" "b < nbits a" using assms True by (simp_all add: al_inv_def al_used_def al_bit_disk)
  obtain st' where m: "modify_bit a st b andnot_bit = Ok st'" and set: "bit_set a st st' b False" using unmark_disk [OF inv(1,3,4)] .
  let ?s = "(a\<lparr>nfreebits := nfreebits a + 1\<rparr>, st_Write opid (freestart a + blkno b) st')"
  have side: "bm_diskfs (fst ?s) = bm_diskfs (fst (a, st))" "al_bits (fst ?s) = al_bits (fst (a, st))"
      "al_bit (fst ?s) (snd ?s) c = (c \<noteq> b \<and> al_bit (fst (a, st)) (snd (a, st)) c)" "nfreebits (fst ?s) = nfreebits (fst (a, st)) + 1" for c
    using set True by (simp_all add: al_bit_disk bit_set_def)
  note al = al_released [OF assms side(1,2) side(3) side(4)]
  have "al_inv ?s" using al(3) inv set True by (simp add: al_inv_def bit_set_def)
  moreover have "Unmark a st opid b = Ok ?s" using inv True m by (simp add: Unmark_def)
  ultimately show ?thesis using al(1) by blast
next
  case False
  have inv: "0 \<le> bm_last a" "bm_last a < int (length (freemap a))" "0 \<le> b" "b < 8 * int (length (freemap a))"
    using assms False by (simp_all add: al_inv_def al_used_def al_bit_mem)
  let ?v = "freemap a ! nat (b div 8) AND NOT (push_bit (nat (b mod 8)) 1)"
  let ?a = "a\<lparr>freemap := (freemap a)[nat (b div 8) := ?v], nfreebits := nfreebits a + 1\<rparr>"
  have bits: "0 \<le> c \<Longrightarrow> fm_bit ?a c = (c \<noteq> b \<and> fm_bit a c)" for c
    using fm_bit_update [OF inv(3,4), of c ?a ?v False] byte_update(2) [of "nat (b mod 8)"] by (simp add: nat_less_iff)
  have side: "bm_diskfs (fst (?a, st)) = bm_diskfs (fst (a, st))" "al_bits (fst (?a, st)) = al_bits (fst (a, st))"
      "0 \<le> c \<Longrightarrow> al_bit (fst (?a, st)) (snd (?a, st)) c = (c \<noteq> b \<and> al_bit (fst (a, st)) (snd (a, st)) c)"
      "nfreebits (fst (?a, st)) = nfreebits (fst (a, st)) + 1" for c
    using bits False by (simp_all add: al_bit_mem)
  note al = al_released [OF assms side(1,2) side(3) side(4)]
  have "al_inv (?a, st)" using al(3) inv False by (simp add: al_inv_def)
  moreover have "Unmark a st opid b = Ok (?a, st)" using inv False by (simp add: Unmark_def sdiv_nonneg smod_nonneg Let_def)
  ultimately show ?thesis using al(1) by blast
qed

subsection \<open>The contract of a bit allocator\<close>

inductive al_reach :: "('o \<Rightarrow> 's \<Rightarrow> (int \<times> 's) go) \<Rightarrow> ('o \<Rightarrow> int \<Rightarrow> 's \<Rightarrow> 's go) \<Rightarrow> 's \<Rightarrow> 's \<Rightarrow> int list \<Rightarrow> bool"
  for alloc release s0 where
  al_start: "al_reach alloc release s0 s0 []"
| al_take: "al_reach alloc release s0 s held \<Longrightarrow> alloc opid s = Ok (b, s') \<Longrightarrow> al_reach alloc release s0 s' (b # held)"
| al_give: "al_reach alloc release s0 s held \<Longrightarrow> b \<in> set held \<Longrightarrow> release opid b s = Ok s' \<Longrightarrow>
    al_reach alloc release s0 s' (remove1 b held)"

locale bit_allocator =
  fixes alloc :: "'o \<Rightarrow> 's \<Rightarrow> (int \<times> 's) go" and release :: "'o \<Rightarrow> int \<Rightarrow> 's \<Rightarrow> 's go"
    and used :: "'s \<Rightarrow> int set" and inv :: "'s \<Rightarrow> bool" and room :: "'s \<Rightarrow> bool"
  assumes alloc_room: "inv s \<Longrightarrow> room s \<Longrightarrow> \<exists>b s'. alloc opid s = Ok (b, s') \<and> b \<notin> used s \<and> inv s' \<and> used s' = insert b (used s)"
    and alloc_full: "inv s \<Longrightarrow> \<not> room s \<Longrightarrow> \<exists>m. alloc opid s = Panic m"
    and release_used: "inv s \<Longrightarrow> b \<in> used s \<Longrightarrow> \<exists>s'. release opid b s = Ok s' \<and> inv s' \<and> used s' = used s - {b}"
begin

lemma alloc_fresh:
  assumes "inv s" "alloc opid s = Ok (b, s')"
  shows "b \<notin> used s \<and> inv s' \<and> used s' = insert b (used s)"
  using alloc_room [OF assms(1), of opid] alloc_full [OF assms(1), of opid] assms(2) by (cases "room s") auto

lemma reach_exclusive:
  assumes "al_reach alloc release s0 s held" "inv s0"
  shows "inv s \<and> distinct held \<and> set held \<inter> used s0 = {} \<and> used s = used s0 \<union> set held"
  using assms
proof (induction rule: al_reach.induct)
  case (al_take s held opid b s')
  then show ?case using alloc_fresh [of s opid b s'] by auto
next
  case (al_give s held b opid s')
  then have i: "inv s" "b \<in> used s" by auto
  then have "inv s' \<and> used s' = used s - {b}" using release_used [OF i, of opid] al_give.hyps(3) by auto
  then show ?case using al_give by auto
qed simp

end

interpretation bm: bit_allocator al_alloc al_release al_used al_inv al_wants
proof
  fix s :: "bitmap_t \<times> storage_t" and opid b
  show "al_inv s \<Longrightarrow> al_wants s \<Longrightarrow> \<exists>b s'. al_alloc opid s = Ok (b, s') \<and> b \<notin> al_used s \<and> al_inv s' \<and> al_used s' = insert b (al_used s)"
    using FindAndMark_step [of "fst s" "snd s" opid] by (fastforce simp: al_alloc_def al_free_def al_used_def)
  show "al_inv s \<Longrightarrow> \<not> al_wants s \<Longrightarrow> \<exists>m. al_alloc opid s = Panic m"
    using FindAndMark_stuck [of "fst s" "snd s" opid] by (auto simp: al_alloc_def)
  show "al_inv s \<Longrightarrow> b \<in> al_used s \<Longrightarrow> \<exists>s'. al_release opid b s = Ok s' \<and> al_inv s' \<and> al_used s' = al_used s - {b}"
    using Unmark_step [of "fst s" "snd s" b opid] by (auto simp: al_release_def)
qed

subsection \<open>Creation\<close>

lemma populateFreeMap_loop_Ok:
  assumes "bm_ok a st" "0 \<le> bn" "bn + int n \<le> freelen a"
  shows "\<exists>m. populateFreeMap_loop a st n bn = Ok m \<and> length m = n * 4096 \<and>
    (\<forall>k < n. \<forall>i < 4096. m ! (k * 4096 + i) = blks st (freestart a + bn + int k) ! i)"
  using assms(2,3)
proof (induction n arbitrary: bn)
  case (Suc n)
  have "0 \<le> bn + 1" "bn + 1 + int n \<le> freelen a" using Suc.prems by simp_all
  from Suc.IH [OF this] obtain m where m: "populateFreeMap_loop a st n (bn + 1) = Ok m" "length m = n * 4096"
    "\<And>k i. k < n \<Longrightarrow> i < 4096 \<Longrightarrow> m ! (k * 4096 + i) = blks st (freestart a + (bn + 1) + int k) ! i"
    by blast
  have p: "page_ok (blks st (freestart a + bn))" using assms(1) Suc.prems by (simp add: bm_ok_def)
  let ?m = "blks st (freestart a + bn) @ m"
  have "?m ! (k * 4096 + i) = blks st (freestart a + bn + int k) ! i" if "k < Suc n" "i < 4096" for k i
  proof (cases k)
    case 0
    then show ?thesis using p that by (simp add: nth_append)
  next
    case (Suc j)
    then have "\<not> k * 4096 + i < length (blks st (freestart a + bn))" "k * 4096 + i - 4096 = j * 4096 + i" using p by simp_all
    moreover have e: "freestart a + (bn + 1) + int j = freestart a + bn + int k" using Suc by simp
    ultimately have "?m ! (k * 4096 + i) = m ! (j * 4096 + i)" using p by (simp add: nth_append)
    then show ?thesis using m(3) [of j i] that Suc unfolding e by simp
  qed
  then show ?case using m(1,2) p Suc.prems by (intro exI [of _ ?m]) (simp add: Fbread_def)
qed simp

lemma div8_split: "0 \<le> b \<Longrightarrow> nat (b div 8) = nat (b div 32768) * 4096 + nat (b mod 32768 div 8)"
proof -
  assume b: "0 \<le> b"
  define q r where "q = b div 32768" and "r = b mod 32768"
  have e: "b = 4096 * q * 8 + r" unfolding q_def r_def by simp
  have "b div 8 = q * 4096 + r div 8" unfolding e by simp
  moreover have "0 \<le> q" "0 \<le> r div 8" using b unfolding q_def r_def by simp_all
  ultimately have "nat (b div 8) = nat q * 4096 + nat (r div 8)" by (simp add: nat_add_distrib nat_mult_distrib)
  then show ?thesis unfolding q_def r_def .
qed

text \<open>A new allocator has counted its free bits and, for a memory file system, holds a copy of the map.\<close>

lemma mkAllocater_spec:
  assumes "\<And>n. 0 \<le> n \<Longrightarrow> n < len \<Longrightarrow> page_ok (blks st (start + n))" "0 < len"
  shows "\<exists>a. mkAllocater diskfs st start len = Ok a \<and> bm_diskfs a = diskfs \<and> freestart a = start \<and> freelen a = len \<and>
    al_bits a = len * 32768 \<and> al_inv (a, st) \<and> (\<forall>b. 0 \<le> b \<and> b < len * 32768 \<longrightarrow> al_bit a st b = bm_bit a st b)"
proof -
  define a0 where "a0 = \<lparr>bm_diskfs = diskfs, freestart = start, freelen = len, lastbit = 0, nfreebits = 0, freemap = [], bm_last = 0\<rparr>"
  define n where "n = (of_nat (card {b. 0 \<le> b \<and> b < len * 32768 \<and> \<not> bm_bit a0 st b}) :: 64 word)"
  define a1 where "a1 = a0\<lparr>nfreebits := n\<rparr>"
  have ok: "bm_ok a0 st" "nbits a0 = len * 32768" "0 \<le> nbits a0" using assms by (simp_all add: bm_ok_def a0_def nbits_def)
  have cnt: "apply_bits a0 st 0 count_free 0 = Ok (True, n)"
    using apply_count [OF ok(1), of 0 "nat (nbits a0)" 0] ok assms(2) by (simp add: apply_bits_def a0_def bitsperblk_eq n_def)
  have ok1: "bm_ok a1 st" "\<And>b. bm_bit a1 st b = bm_bit a0 st b" using ok by (simp_all add: a1_def)
  have f1: "freelen a1 = len" "freestart a1 = start" "bm_diskfs a1 = diskfs" "nfreebits a1 = n" "lastbit a1 = 0" "bm_last a1 = 0"
    by (simp_all add: a1_def a0_def)
  have mk: "mkAllocater diskfs st start len = (if diskfs then Ok a1 else populateFreeMap a1 st)"
    unfolding mkAllocater_def a0_def [symmetric] using cnt assms(2) by (simp add: a1_def BSIZE_def)
  show ?thesis
  proof (cases diskfs)
    case True
    have "mkAllocater diskfs st start len = Ok a1" unfolding mk using True by simp
    moreover have "al_free (a1, st) = {b. 0 \<le> b \<and> b < len * 32768 \<and> \<not> bm_bit a0 st b}"
      using True f1 ok1 by (simp add: al_free_def al_bit_disk nbits_def)
    ultimately show ?thesis using True f1 ok1 by (intro exI [of _ a1]) (simp add: al_inv_def n_def al_bit_disk nbits_def)
  next
    case False
    obtain m where m: "populateFreeMap_loop a1 st (nat len) 0 = Ok m" "length m = nat len * 4096"
      "\<And>k i. k < nat len \<Longrightarrow> i < 4096 \<Longrightarrow> m ! (k * 4096 + i) = blks st (start + int k) ! i"
      using populateFreeMap_loop_Ok [OF ok1(1), of 0 "nat len"] assms(2) by (auto simp: f1)
    define a where "a = a1\<lparr>freemap := m\<rparr>"
    have "mkAllocater diskfs st start len = Ok a"
      unfolding mk using False m(1) by (simp add: populateFreeMap_def a_def f1)
    moreover have bits: "fm_bit a b = bm_bit a0 st b" if b: "0 \<le> b" "b < len * 32768" for b
    proof -
      have r: "nat (b div 32768) < nat len" "nat (b mod 32768 div 8) < 4096" "0 \<le> b div 32768"
        using bit_place_range [of b a0] b ok by (simp_all add: nat_less_iff a0_def)
      show ?thesis unfolding fm_bit_def bm_bit_def div8_split [OF b(1)] using m(3) [OF r(1,2)] r(3) by (simp add: a_def a0_def)
    qed
    moreover have l: "8 * int (length (freemap a)) = len * 32768" using m(2) assms(2) by (simp add: a_def)
    moreover have "al_free (a, st) = {b. 0 \<le> b \<and> b < len * 32768 \<and> \<not> bm_bit a0 st b}"
      using bits l False unfolding al_free_def by (auto simp: al_bit_mem a_def f1)
    moreover have "bm_bit a st b = bm_bit a0 st b" for b by (simp add: bm_bit_def a_def a1_def)
    ultimately show ?thesis using False m(2) assms(2)
      by (intro exI [of _ a]) (simp add: al_inv_def n_def al_bit_mem a_def f1)
  qed
qed

subsection \<open>Marking and unmarking in one pass\<close>

lemma smallest_Ok: "\<not> (mark = [] \<and> unmark = []) \<Longrightarrow> \<exists>b op. smallest mark unmark = Ok (b, op)"
  by (cases "(mark, unmark)" rule: smallest.cases) auto

lemma mu_step_spec:
  assumes "bm_ok a st" "0 \<le> b" "b < nbits a" "freelen a \<le> freestart a" "\<forall>c. cur = Some c \<longrightarrow> freestart a \<le> c"
  shows "\<exists>st'. mu_step a st opid cur b op = Ok (st', freestart a + b div 32768) \<and> bit_set a st st' b (op = MARK)"
proof -
  define F where "F = (if op = MARK then or_bit else andnot_bit)"
  define s0 where "s0 = (case cur of None \<Rightarrow> st | Some c \<Rightarrow> st_Write opid c st)"
  have s0: "bm_ok a s0" "\<And>c. bm_bit a s0 c = bm_bit a st c" using assms(1) by (simp_all add: s0_def split: option.splits)
  have cur: "cur \<noteq> Some (blkno b)"
    using assms(4,5) bit_place_range(2) [OF assms(2,3)] unfolding bit_place(1) [OF assms(2)] by fastforce
  obtain p where p: "Fbread a s0 (blkno b) = Ok p" "p = blks s0 (freestart a + blkno b)"
    using read_bit(1) [OF s0(1) assms(2,3)] bit_place(1) [OF assms(2)] by simp
  have "mu_step a st opid cur b op = gbind (modify_bit a s0 b F) (\<lambda>s. Ok (s, freestart a + blkno b))"
    using cur assms(2) p by (cases cur; cases "byte_at p (byteno b)") (auto simp: mu_step_def modify_bit_def s0_def F_def Let_def)
  moreover obtain st' where "modify_bit a s0 b F = Ok st'" "bit_set a s0 st' b (op = MARK)"
  proof (cases op)
    case MARK
    show ?thesis by (rule mark_disk [OF s0(1) assms(2,3)], rule that) (simp_all add: F_def MARK)
  next
    case UNMARK
    show ?thesis by (rule unmark_disk [OF s0(1) assms(2,3)], rule that) (simp_all add: F_def UNMARK)
  qed
  ultimately show ?thesis using s0(2) by (auto simp: bit_set_def bit_place(1) [OF assms(2)])
qed

lemma MarkUnmark_loop_spec:
  assumes "bm_ok a st" "freelen a \<le> freestart a" "\<forall>c. cur = Some c \<longrightarrow> freestart a \<le> c"
    "sorted mark" "sorted unmark" "\<forall>b \<in> set mark \<union> set unmark. 0 \<le> b \<and> b < nbits a"
  shows "\<exists>st'. MarkUnmark_loop a st opid cur mark unmark = Ok st' \<and> bm_ok a st' \<and>
    (\<forall>c. bm_bit a st' c = (c \<notin> set unmark \<and> (c \<in> set mark \<or> bm_bit a st c)))"
  using assms
proof (induction a st opid cur mark unmark rule: MarkUnmark_loop.induct)
  case (1 a st opid cur mark unmark)
  show ?case
  proof (cases "mark = [] \<and> unmark = []")
    case True
    then show ?thesis using "1.prems"(1) by (auto simp: MarkUnmark_loop.simps split: option.splits)
  next
    case False
    then obtain b op where sm: "smallest mark unmark = Ok (b, op)" using smallest_Ok by blast
    have b: "case op of MARK \<Rightarrow> \<exists>ms. mark = b # ms \<and> (\<forall>u \<in> set unmark. b \<le> u)
        | UNMARK \<Rightarrow> \<exists>us. unmark = b # us \<and> (\<forall>m \<in> set mark. b < m)"
      using sm "1.prems"(4,5) by (cases "(mark, unmark)" rule: smallest.cases) (auto split: if_splits)
    then have "0 \<le> b" "b < nbits a" using "1.prems"(6) by (cases op; auto)+
    then obtain st' where st': "mu_step a st opid cur b op = Ok (st', freestart a + b div 32768)" "bit_set a st st' b (op = MARK)"
      using mu_step_spec [OF "1.prems"(1) _ _ "1.prems"(2,3)] by blast
    have ok: "bm_ok a st'" "\<forall>c. Some (freestart a + b div 32768) = Some c \<longrightarrow> freestart a \<le> c"
      using st'(2) \<open>0 \<le> b\<close> by (auto simp: bit_set_def)
    have bits: "bm_bit a st' c = (if c = b then op = MARK else bm_bit a st c)" for c using st'(2) by (simp add: bit_set_def)
    show ?thesis
    proof (cases op)
      case MARK
      then obtain ms where ms: "mark = b # ms" "\<forall>u \<in> set unmark. b \<le> u" using b by auto
      obtain s where s: "MarkUnmark_loop a st' opid (Some (freestart a + b div 32768)) (tl mark) unmark = Ok s" "bm_ok a s"
          "\<forall>c. bm_bit a s c = (c \<notin> set unmark \<and> (c \<in> set (tl mark) \<or> bm_bit a st' c))"
        using "1.IH"(1) [OF False sm refl st'(1) refl MARK ok(1) "1.prems"(2) ok(2)] "1.prems"(4-6) ms by auto
      have "MarkUnmark_loop a st opid cur mark unmark = Ok s"
        using False sm st'(1) s(1) MARK by (auto simp: MarkUnmark_loop.simps [of a st opid cur mark unmark])
      moreover have "bm_bit a s c = (c \<notin> set unmark \<and> (c \<in> set mark \<or> bm_bit a st c))" for c
        using s(3) bits MARK ms by auto
      ultimately show ?thesis using s(2) by blast
    next
      case UNMARK
      then obtain us where us: "unmark = b # us" "\<forall>m \<in> set mark. b < m" using b by auto
      obtain s where s: "MarkUnmark_loop a st' opid (Some (freestart a + b div 32768)) mark (tl unmark) = Ok s" "bm_ok a s"
          "\<forall>c. bm_bit a s c = (c \<notin> set (tl unmark) \<and> (c \<in> set mark \<or> bm_bit a st' c))"
        using "1.IH"(2) [OF False sm refl st'(1) refl UNMARK ok(1) "1.prems"(2) ok(2)] "1.prems"(4-6) us by auto
      have "MarkUnmark_loop a st opid cur mark unmark = Ok s"
        using False sm st'(1) s(1) UNMARK by (auto simp: MarkUnmark_loop.simps [of a st opid cur mark unmark])
      moreover have "bm_bit a s c = (c \<notin> set unmark \<and> (c \<in> set mark \<or> bm_bit a st c))" for c
        using s(3) bits UNMARK us by auto
      ultimately show ?thesis using s(2) by blast
    qed
  qed
qed

subsection \<open>Properties\<close>

text \<open>
  C16: Whatever sequence of allocations and releases runs on an allocator, on disk or in memory, the
  bits its clients hold are pairwise different and were free at the start; a bit is taken exactly when
  it was taken at the start or a client holds it; and \<open>nfreebits\<close> stays the number of free bits.
\<close>

theorem bitmap_exclusive:
  assumes "al_inv s0" "al_reach al_alloc al_release s0 s held"
  shows "distinct held \<and> set held \<inter> al_used s0 = {} \<and> al_used s = al_used s0 \<union> set held \<and>
    nfreebits (fst s) = of_nat (card (al_free s))"
  using bm.reach_exclusive [OF assms(2,1)] by (simp add: al_inv_def)

definition fresh_st :: storage_t where "fresh_st = \<lparr>blks = (\<lambda>_. replicate 4096 0), slog = []\<rparr>"

definition small_map :: "byte list \<Rightarrow> 64 word \<Rightarrow> bitmap_t" where
  "small_map m n = \<lparr>bm_diskfs = False, freestart = 1, freelen = 1, lastbit = 0, nfreebits = n, freemap = m, bm_last = 0\<rparr>"

lemma small_free: "al_free (small_map [255, 0] n, st) = {8 ..< 16}"
proof -
  have "al_bits (small_map [255, 0] n) = 16" by (simp add: al_bits_def small_map_def)
  moreover have "al_bit (small_map [255, 0] n) st b \<longleftrightarrow> b < 8" if b: "0 \<le> b" "b < 16" for b
  proof (cases "b < 8")
    case True
    then have "bit (255 :: byte) (nat b)" using byte_full [of 255] by (simp add: nat_less_iff)
    then show ?thesis using True b by (simp add: al_bit_def small_map_def fm_bit_def)
  next
    case False
    then have "nat (b div 8) = 1" using b by (auto simp: nat_eq_iff2)
    then show ?thesis using False by (simp add: al_bit_def small_map_def fm_bit_def)
  qed
  ultimately show ?thesis by (auto simp: al_free_def)
qed

lemma small_inv: "al_inv (small_map [255, 0] 8, st)"
  by (simp add: al_inv_def small_free) (simp add: small_map_def)

lemma small_find: "FindFreeMap 6 (small_map [255, 0] 8) = Some (Ok (8, 0, (small_map [255, 1] 7)\<lparr>bm_last := 1\<rparr>))"
  by code_simp

lemma small_alloc: "al_alloc 1 (small_map [255, 0] 8, fresh_st) = Ok (8, (small_map [255, 1] 7)\<lparr>bm_last := 1\<rparr>, fresh_st)"
proof -
  have "\<not> bm_diskfs (small_map [255, 0] 8)" "2 * length (freemap (small_map [255, 0] 8)) + 2 = 6" by (simp_all add: small_map_def)
  then show ?thesis unfolding al_alloc_def FindAndMark_def using small_find by (simp del: One_nat_def)
qed

theorem bitmap_exclusive_witness:
  "al_inv (small_map [255, 0] 8, fresh_st) \<and>
   al_reach al_alloc al_release (small_map [255, 0] 8, fresh_st) ((small_map [255, 1] 7)\<lparr>bm_last := 1\<rparr>, fresh_st) [8] \<and>
   al_used ((small_map [255, 1] 7)\<lparr>bm_last := 1\<rparr>, fresh_st) = al_used (small_map [255, 0] 8, fresh_st) \<union> {8}"
proof -
  have r: "al_reach al_alloc al_release (small_map [255, 0] 8, fresh_st) ((small_map [255, 1] 7)\<lparr>bm_last := 1\<rparr>, fresh_st) [8]"
    by (rule al_take [where alloc = al_alloc, OF al_start small_alloc])
  show ?thesis using bitmap_exclusive [OF small_inv r] small_inv r by simp
qed

text \<open>
  C17: An allocation returns, with error code 0 and a bit that was free and is now taken, exactly when
  some bit is free and, on a disk file system, the search hint is inside the map.
\<close>

theorem FindAndMark_returns:
  assumes "al_inv (a, st)"
  shows "(\<exists>b a' st'. FindAndMark a st opid = Ok (b, 0, a', st') \<and> b \<in> al_free (a, st) \<and>
      al_used (a', st') = insert b (al_used (a, st))) \<longleftrightarrow> al_wants (a, st)"
proof (cases "al_wants (a, st)")
  case True
  then show ?thesis using FindAndMark_step [OF assms True, of opid] by blast
next
  case False
  then show ?thesis using FindAndMark_stuck [OF assms False, of opid] by auto
qed

theorem FindAndMark_returns_witness:
  "al_inv (small_map [255, 0] 8, fresh_st) \<and>
   (\<exists>b a' st'. FindAndMark (small_map [255, 0] 8) fresh_st 0 = Ok (b, 0, a', st') \<and> b \<in> {8 ..< 16})"
proof -
  have "al_wants (small_map [255, 0] 8, fresh_st)" by (simp add: al_wants_def small_free) (simp add: small_map_def)
  then show ?thesis using FindAndMark_returns [OF small_inv, of fresh_st 0] small_inv unfolding small_free by blast
qed

text \<open>
  A new allocator satisfies the invariant: it has counted the clear bits of the map, manages
  exactly its bits, and sees each bit as the map has it, also through the in-memory copy.
\<close>

theorem mkAllocater_invariant:
  assumes "\<And>n. 0 \<le> n \<Longrightarrow> n < len \<Longrightarrow> page_ok (blks st (start + n))" "0 < len"
  shows "\<exists>a. mkAllocater diskfs st start len = Ok a \<and> al_bits a = len * 32768 \<and> al_inv (a, st) \<and>
    (\<forall>b. 0 \<le> b \<and> b < len * 32768 \<longrightarrow> al_bit a st b = bm_bit a st b)"
  using mkAllocater_spec [OF assms, of diskfs] by blast

theorem mkAllocater_invariant_witness:
  "\<exists>a. mkAllocater False fresh_st 3 1 = Ok a \<and> al_bits a = 32768 \<and> al_inv (a, fresh_st)"
  using mkAllocater_invariant [of 1 fresh_st 3 False] by (auto simp: fresh_st_def)

text \<open>
  C30: After the last bit of an on-disk map is allocated the search hint points past the map and the
  next allocation panics, whether or not bits are free.
\<close>

theorem FindAndMark_after_last:
  assumes "bm_diskfs a" "al_inv (a, st)" "FindAndMark a st opid = Ok (nbits a - 1, e, a', st')"
  shows "FindAndMark a' st' opid' = Panic ''naughty blockno''"
proof -
  have "al_wants (a, st)" using FindAndMark_stuck [OF assms(2), of opid] assms(3) by auto
  then have "lastbit a < nbits a" "al_free (a, st) \<noteq> {}" using assms(1) by (simp_all add: al_wants_def)
  moreover have "bm_ok a st" "0 \<le> lastbit a" using assms(1,2) by (simp_all add: al_inv_def)
  ultimately have a': "a' = disk_taken a (nbits a - 1)" and n: "0 \<le> nbits a"
    using FindDiskMap_spec [of a st opid] assms(1,3) by (auto simp: FindAndMark_def split: if_splits)
  have "bm_diskfs a'" "lastbit a' = nbits a" "nbits a' = nbits a" using assms(1) by (simp_all add: a' disk_taken_def)
  then show ?thesis using n past_end [of a' "lastbit a'" st'] by (simp add: FindAndMark_def FindDiskMap_def CheckAndMark_def)
qed

definition at_end :: bitmap_t where
  "at_end = \<lparr>bm_diskfs = True, freestart = 1, freelen = 1, lastbit = 32767, nfreebits = 32768, freemap = [], bm_last = 0\<rparr>"

lemma at_end_bits: "bm_ok at_end fresh_st" "\<not> bm_bit at_end fresh_st b" "nbits at_end = 32768"
  by (simp_all add: bm_ok_def bm_bit_def fresh_st_def at_end_def nbits_def)

lemma at_end_inv: "al_inv (at_end, fresh_st)"
proof -
  have "al_free (at_end, fresh_st) = {0 ..< 32768}"
    by (auto simp: al_free_def al_bits_def al_bit_def at_end_bits) (simp_all add: at_end_def)
  then show ?thesis using at_end_bits by (simp add: al_inv_def) (simp add: at_end_def)
qed

theorem FindAndMark_after_last_witness:
  "\<exists>a' st'. FindAndMark at_end fresh_st 0 = Ok (32767, 0, a', st') \<and> 5 \<in> al_free (at_end, fresh_st) \<and>
     FindAndMark a' st' 1 = Panic ''naughty blockno''"
proof -
  have d: "bm_diskfs at_end" "lastbit at_end = 32767" by (simp_all add: at_end_def)
  obtain st' where "CheckAndMark at_end fresh_st 0 = Ok (32767, 0, at_end\<lparr>lastbit := 32768\<rparr>, st')"
    using CheckAndMark_spec(2) [OF at_end_bits(1), of 0] at_end_bits d by auto
  then have r: "\<exists>a'. FindAndMark at_end fresh_st 0 = Ok (nbits at_end - 1, 0, a', st')"
    using d at_end_bits(3) by (simp add: FindAndMark_def FindDiskMap_def)
  then obtain a' where r: "FindAndMark at_end fresh_st 0 = Ok (nbits at_end - 1, 0, a', st')" by blast
  have "5 \<in> al_free (at_end, fresh_st)" using d by (simp add: al_free_def al_bit_def al_bits_def at_end_bits)
  then show ?thesis using FindAndMark_after_last [OF d(1) at_end_inv r, of 1] r at_end_bits(3) by auto
qed

text \<open>
  C18: \<open>MarkUnmark\<close> on a bitmap that starts no earlier on the disk than it is long: afterwards a bit is
  clear if it was to be unmarked, set if it was only to be marked, and unchanged otherwise.
\<close>

theorem MarkUnmark_bits:
  assumes "bm_ok a st" "freelen a \<le> freestart a" "\<forall>b \<in> set mark \<union> set unmark. 0 \<le> b \<and> b < nbits a"
  shows "\<exists>st'. MarkUnmark a st opid mark unmark = Ok st' \<and> bm_ok a st' \<and>
    (\<forall>c. bm_bit a st' c = (c \<notin> set unmark \<and> (c \<in> set mark \<or> bm_bit a st c)))"
  using MarkUnmark_loop_spec [OF assms(1,2), of None "sort mark" "sort unmark" opid] assms(3) by (simp add: MarkUnmark_def)

theorem MarkUnmark_bits_witness:
  "\<exists>st'. MarkUnmark at_end fresh_st 0 [7, 3, 9] [9, 4] = Ok st' \<and> bm_bit at_end st' 3 \<and> \<not> bm_bit at_end st' 9"
proof -
  have "freelen at_end \<le> freestart at_end" by (simp add: at_end_def)
  then show ?thesis using MarkUnmark_bits [OF at_end_bits(1), of "[7, 3, 9]" "[9, 4]" 0] by (auto simp: at_end_bits)
qed

text \<open>
  C31: Where the bitmap starts early on the disk, \<open>MarkUnmark\<close> compares the absolute number of the
  block it holds with the relative number of the block it needs: marking bit 0 and the first bit of
  the second block of a map at block 1 never sets the second one.
\<close>

definition early_map :: bitmap_t where
  "early_map = \<lparr>bm_diskfs = True, freestart = 1, freelen = 2, lastbit = 0, nfreebits = 65536, freemap = [], bm_last = 0\<rparr>"


end
