(* ===== verification/Blockdev.thy ===== *)
theory Blockdev
  imports Ondisk Defs_Model
begin

text \<open>
  Blocks, block lists and disks: \<^verbatim>\<open>biscuit/src/fs/blk.go\<close>, the block cache operations of
  \<^verbatim>\<open>biscuit/src/fs/bdev.go\<close>, and the file-backed disk of \<^verbatim>\<open>biscuit/src/ufs/driver.go\<close> with
  its trace of writes and syncs (\<^verbatim>\<open>biscuit/src/ufs/trace.go\<close>).

  The backing file is a sequence of blocks.  The block cache is the contents of its blocks; its
  reference counts and locks are not part of this theory.
\<close>

subsection \<open>Blocks and block lists\<close>

abbreviation (input) DataBlk :: int where "DataBlk \<equiv> 0"
abbreviation (input) CommitBlk :: int where "CommitBlk \<equiv> - 1"
abbreviation (input) RevokeBlk :: int where "RevokeBlk \<equiv> - 2"

record bdev_block_t =
  Block :: int
  Type :: int
  Data :: page

text \<open>
  A list of blocks with its iterator.  Elements have an identity, as those of \<open>container/list\<close>: the
  iterator is an element, and an element that was removed has no successor.
\<close>

record blklist_t =
  bl_l :: "(nat \<times> bdev_block_t) list"
  bl_e :: "nat option"
  bl_fresh :: nat

definition MkBlkList :: blklist_t where
  "MkBlkList = \<lparr>bl_l = [], bl_e = None, bl_fresh = 0\<rparr>"

definition Len :: "blklist_t \<Rightarrow> int" where
  "Len bl = int (length (bl_l bl))"

definition PushBack :: "bdev_block_t \<Rightarrow> blklist_t \<Rightarrow> blklist_t" where
  "PushBack b bl = bl\<lparr>bl_l := bl_l bl @ [(bl_fresh bl, b)], bl_fresh := Suc (bl_fresh bl)\<rparr>"

definition FrontBlock :: "blklist_t \<Rightarrow> bdev_block_t option \<times> blklist_t" where
  "FrontBlock bl = (case bl_l bl of [] \<Rightarrow> (None, bl) | (i, b) # _ \<Rightarrow> (Some b, bl\<lparr>bl_e := Some i\<rparr>))"

definition Back :: "blklist_t \<Rightarrow> bdev_block_t option" where
  "Back bl = (if bl_l bl = [] then None else Some (snd (last (bl_l bl))))"

definition BackBlock :: "blklist_t \<Rightarrow> bdev_block_t go" where
  "BackBlock bl = (if bl_l bl = [] then Panic ''bl.Front'' else Ok (snd (last (bl_l bl))))"

definition RemoveBlock :: "int \<Rightarrow> blklist_t \<Rightarrow> blklist_t" where
  "RemoveBlock n bl = bl\<lparr>bl_l := filter (\<lambda>(i, b). Block b \<noteq> n) (bl_l bl)\<rparr>"

text \<open>\<open>Element.Next\<close>: the element after the one with the given identity.\<close>

fun elem_next :: "nat \<Rightarrow> (nat \<times> 'a) list \<Rightarrow> (nat \<times> 'a) option" where
  "elem_next i [] = None"
| "elem_next i [x] = None"
| "elem_next i (x # y # xs) = (if fst x = i then Some y else elem_next i (y # xs))"

definition NextBlock :: "blklist_t \<Rightarrow> bdev_block_t option \<times> blklist_t" where
  "NextBlock bl = (case bl_e bl of
      None \<Rightarrow> (None, bl)
    | Some i \<Rightarrow> (case elem_next i (bl_l bl) of
          None \<Rightarrow> (None, bl\<lparr>bl_e := None\<rparr>)
        | Some (j, b) \<Rightarrow> (Some b, bl\<lparr>bl_e := Some j\<rparr>)))"

text \<open>The loop of \<open>Apply\<close> and \<open>Append\<close>: it runs while the iterator gives a block, at most \<open>n\<close> times.\<close>

fun blk_loop :: "nat \<Rightarrow> bdev_block_t option \<times> blklist_t \<Rightarrow> (bdev_block_t \<Rightarrow> 's \<Rightarrow> 's) \<Rightarrow> 's \<Rightarrow> ('s \<times> blklist_t) option" where
  "blk_loop 0 it f s = None"
| "blk_loop (Suc n) (None, bl) f s = Some (s, bl)"
| "blk_loop (Suc n) (Some b, bl) f s = blk_loop n (NextBlock bl) f (f b s)"

definition Apply :: "nat \<Rightarrow> blklist_t \<Rightarrow> (bdev_block_t \<Rightarrow> 's \<Rightarrow> 's) \<Rightarrow> 's \<Rightarrow> ('s \<times> blklist_t) option" where
  "Apply n bl f s = blk_loop n (FrontBlock bl) f s"

definition Append :: "nat \<Rightarrow> blklist_t \<Rightarrow> blklist_t \<Rightarrow> (blklist_t \<times> blklist_t) option" where
  "Append n bl l = blk_loop n (FrontBlock l) PushBack bl"

fun Delete_loop :: "(nat \<times> bdev_block_t) list \<Rightarrow> blklist_t \<Rightarrow> blklist_t" where
  "Delete_loop [] bl = bl"
| "Delete_loop (x # xs) bl = Delete_loop xs (bl\<lparr>bl_l := filter (\<lambda>y. fst y \<noteq> fst x) (bl_l bl)\<rparr>)"

definition Delete :: "blklist_t \<Rightarrow> blklist_t" where
  "Delete bl = Delete_loop (bl_l bl) bl"

subsection \<open>The file-backed disk and its trace\<close>

record record_t =
  Cmd :: string
  BlkNo :: int
  BlkData :: "byte list"

definition findSync :: "record_t list \<Rightarrow> int \<Rightarrow> int" where
  "findSync trace index = (case List.find (\<lambda>i. Cmd (trace ! nat i) = ''sync'') [index .. int (length trace) - 1] of
      None \<Rightarrow> - 1 | Some i \<Rightarrow> i)"

definition copyRecord :: "record_t \<Rightarrow> record_t" where
  "copyRecord r = \<lparr>Cmd = Cmd r, BlkNo = BlkNo r, BlkData = BlkData r\<rparr>"

definition copyTrace :: "record_t list \<Rightarrow> int \<Rightarrow> int \<Rightarrow> record_t list go" where
  "copyTrace trace start stop =
     (if stop - start < 0 then Panic ''makeslice: len out of range''
      else gmap (\<lambda>i. if start + i < 0 \<or> start + i \<ge> int (length trace) then Panic ''index out of range''
                 else Ok (copyRecord (trace ! nat (start + i)))) [0 .. stop - start - 1])"

definition permTrace :: "record_t list \<Rightarrow> int \<Rightarrow> int list \<Rightarrow> record_t list go" where
  "permTrace trace index ord =
     gbind (copyTrace trace 0 (index + int (length ord))) (\<lambda>new.
     gfold (\<lambda>(i, j) new. if index + j < 0 \<or> index + j \<ge> int (length trace) \<or> index + int i < 0 then Panic ''index out of range''
         else Ok (new[nat (index + int i) := trace ! nat (index + j)])) (enumerate 0 ord) new)"

record ahci_disk_t =
  df :: "page list"
  dtrace :: "record_t list option"

definition StartTrace :: "ahci_disk_t \<Rightarrow> ahci_disk_t" where
  "StartTrace d = d\<lparr>dtrace := Some []\<rparr>"

definition trace_write :: "int \<Rightarrow> page \<Rightarrow> record_t list \<Rightarrow> record_t list" where
  "trace_write n v t = t @ [\<lparr>Cmd = ''write'', BlkNo = n, BlkData = v\<rparr>]"

definition trace_sync :: "record_t list \<Rightarrow> record_t list" where
  "trace_sync t = t @ [\<lparr>Cmd = ''sync'', BlkNo = 0, BlkData = []\<rparr>]"

text \<open>Seek and read, seek and write of one block; a write past the end extends the file with zeros.\<close>

definition file_read :: "int \<Rightarrow> page list \<Rightarrow> page go" where
  "file_read n f = (if n < 0 then Panic ''seek: invalid argument''
     else if n \<ge> int (length f) then Panic ''EOF'' else Ok (f ! nat n))"

definition file_write :: "int \<Rightarrow> page \<Rightarrow> page list \<Rightarrow> page list go" where
  "file_write n p f = (if n < 0 then Panic ''seek: invalid argument''
     else Ok ((f @ replicate (Suc (nat n) - length f) (replicate 4096 0))[nat n := p]))"

definition disk_write :: "int \<times> page \<Rightarrow> ahci_disk_t \<Rightarrow> ahci_disk_t go" where
  "disk_write = (\<lambda>(n, p) d. gbind (file_write n p (df d)) (\<lambda>f.
     Ok (d\<lparr>df := f, dtrace := map_option (trace_write n p) (dtrace d)\<rparr>)))"

definition disk_flush :: "ahci_disk_t \<Rightarrow> ahci_disk_t" where
  "disk_flush d = d\<lparr>dtrace := map_option trace_sync (dtrace d)\<rparr>"

datatype bdevcmd_t = BDEV_WRITE | BDEV_READ | BDEV_FLUSH

text \<open>
  \<open>Start\<close> serves a request for a list of blocks, given as numbers and contents.  The result has the
  contents read, for a read.
\<close>

definition Start :: "bdevcmd_t \<Rightarrow> (int \<times> page) list \<Rightarrow> ahci_disk_t \<Rightarrow> (page option \<times> ahci_disk_t) go" where
  "Start cmd bs d = (case cmd of
      BDEV_READ \<Rightarrow> if length bs \<noteq> 1 then Panic ''read: too many blocks''
        else gbind (file_read (fst (hd bs)) (df d)) (\<lambda>p. Ok (Some p, d))
    | BDEV_WRITE \<Rightarrow> gbind (gfold disk_write bs d) (\<lambda>d. Ok (None, d))
    | BDEV_FLUSH \<Rightarrow> Ok (None, disk_flush d))"

subsection \<open>The block cache\<close>

record bcache_t =
  bc_cache :: "int \<rightharpoonup> page"
  bc_disk :: ahci_disk_t

definition Get_fill :: "int \<Rightarrow> bcache_t \<Rightarrow> (page \<times> bcache_t) go" where
  "Get_fill n bc = (case bc_cache bc n of
      Some p \<Rightarrow> Ok (p, bc)
    | None \<Rightarrow> gbind (Start BDEV_READ [(n, replicate 4096 0)] (bc_disk bc)) (\<lambda>(r, d).
        let p = the r in Ok (p, bc\<lparr>bc_cache := (bc_cache bc)(n \<mapsto> p), bc_disk := d\<rparr>)))"

text \<open>A block that is not cached starts as a zeroed page; a cached one keeps its contents.\<close>

definition Get_zero :: "int \<Rightarrow> bcache_t \<Rightarrow> page \<times> bcache_t" where
  "Get_zero n bc = (case bc_cache bc n of
      Some p \<Rightarrow> (p, bc)
    | None \<Rightarrow> (replicate 4096 0, bc\<lparr>bc_cache := (bc_cache bc)(n \<mapsto> replicate 4096 0)\<rparr>))"

definition Get_nofill :: "int \<Rightarrow> bcache_t \<Rightarrow> page \<times> bcache_t" where
  "Get_nofill n bc = (case bc_cache bc n of
      Some p \<Rightarrow> (p, bc)
    | None \<Rightarrow> (replicate 4096 0, bc\<lparr>bc_cache := (bc_cache bc)(n \<mapsto> replicate 4096 0)\<rparr>))"

text \<open>In-place change of the page of a cached block.\<close>

definition set_data :: "int \<Rightarrow> page \<Rightarrow> bcache_t \<Rightarrow> bcache_t" where
  "set_data n p bc = bc\<lparr>bc_cache := (bc_cache bc)(n \<mapsto> p)\<rparr>"

definition bc_start :: "bdevcmd_t \<Rightarrow> (int \<times> page) list \<Rightarrow> bcache_t \<Rightarrow> bcache_t go" where
  "bc_start cmd bs bc = gbind (Start cmd bs (bc_disk bc)) (\<lambda>(_, d). Ok (bc\<lparr>bc_disk := d\<rparr>))"

definition bc_Write :: "int \<times> page \<Rightarrow> bcache_t \<Rightarrow> bcache_t go" where
  "bc_Write b = bc_start BDEV_WRITE [b]"

definition Write_async :: "int \<times> page \<Rightarrow> bcache_t \<Rightarrow> bcache_t go" where
  "Write_async b = bc_start BDEV_WRITE [b]"

definition Write_async_through :: "int \<times> page \<Rightarrow> bcache_t \<Rightarrow> bcache_t go" where
  "Write_async_through b = bc_start BDEV_WRITE [b]"

definition Write_async_blks_through :: "(int \<times> page) list \<Rightarrow> bcache_t \<Rightarrow> bcache_t go" where
  "Write_async_blks_through bs bc = (if bs = [] then Ok bc else bc_start BDEV_WRITE bs bc)"

fun coalesce_loop :: "(int \<times> page) list \<Rightarrow> (int \<times> page) list \<Rightarrow> bcache_t \<Rightarrow> ((int \<times> page) list \<times> bcache_t) go" where
  "coalesce_loop [] l bc = Ok (l, bc)"
| "coalesce_loop (b # bs) l bc =
     (if l = [] then coalesce_loop bs [b] bc
      else if fst (last l) + 1 = fst b then coalesce_loop bs (l @ [b]) bc
      else gbind (Write_async_blks_through l bc) (\<lambda>bc. coalesce_loop bs [b] bc))"

definition Write_async_through_coalesce :: "(int \<times> page) list \<Rightarrow> bcache_t \<Rightarrow> bcache_t go" where
  "Write_async_through_coalesce bs bc = (if bs = [] then Ok bc
     else gbind (coalesce_loop bs [] bc) (\<lambda>(l, bc).
       if l = [] then Ok bc else Write_async_blks_through l bc))"

subsection \<open>Block lists behave as lists\<close>

definition bl_abs :: "blklist_t \<Rightarrow> bdev_block_t list" where
  "bl_abs bl = map snd (bl_l bl)"

definition bl_inv :: "blklist_t \<Rightarrow> bool" where
  "bl_inv bl \<longleftrightarrow> distinct (map fst (bl_l bl)) \<and> (\<forall>i \<in> fst ` set (bl_l bl). i < bl_fresh bl)"

lemma bl_inv_ops:
  "bl_inv MkBlkList" "bl_inv bl \<Longrightarrow> bl_inv (PushBack b bl)" "bl_inv bl \<Longrightarrow> bl_inv (RemoveBlock n bl)"
  "bl_inv bl \<Longrightarrow> bl_inv (bl\<lparr>bl_e := e\<rparr>)"
  by (auto simp: bl_inv_def MkBlkList_def PushBack_def RemoveBlock_def distinct_map_filter less_SucI)

lemma bl_abs_ops:
  "bl_abs MkBlkList = []" "bl_abs (PushBack b bl) = bl_abs bl @ [b]" "Len bl = int (length (bl_abs bl))"
  "bl_abs (RemoveBlock n bl) = filter (\<lambda>b. Block b \<noteq> n) (bl_abs bl)" "bl_abs (bl\<lparr>bl_e := e\<rparr>) = bl_abs bl"
  "Back bl = (if bl_abs bl = [] then None else Some (last (bl_abs bl)))"
  by (auto simp: bl_abs_def MkBlkList_def PushBack_def RemoveBlock_def Len_def Back_def filter_map comp_def case_prod_unfold last_map)

lemma elem_next_append:
  "distinct (map fst (xs @ x # ys)) \<Longrightarrow> elem_next (fst x) (xs @ x # ys) = (case ys of [] \<Rightarrow> None | y # _ \<Rightarrow> Some y)"
proof (induction xs)
  case Nil
  then show ?case by (cases ys) auto
next
  case (Cons z zs)
  have "fst z \<noteq> fst x" using Cons.prems by auto
  then show ?case using Cons by (cases "zs @ x # ys") auto
qed

lemma blk_loop_rest:
  assumes "bl_inv bl" "bl_l bl = xs @ x # ys" "bl_e bl = Some (fst x)" "length ys < n"
  shows "\<exists>e. blk_loop (Suc n) (Some (snd x), bl) f s = Some (fold f (map snd (x # ys)) s, bl\<lparr>bl_e := e\<rparr>)"
  using assms
proof (induction ys arbitrary: xs x bl n s)
  case Nil
  then have "NextBlock bl = (None, bl\<lparr>bl_e := None\<rparr>)"
    using elem_next_append [of xs x "[]"] by (simp add: NextBlock_def bl_inv_def)
  then show ?case using Nil by (cases n) auto
next
  case (Cons y ys)
  then have nx: "NextBlock bl = (Some (snd y), bl\<lparr>bl_e := Some (fst y)\<rparr>)"
    using elem_next_append [of xs x "y # ys"] by (simp add: NextBlock_def bl_inv_def case_prod_unfold)
  obtain m where n: "n = Suc m" using Cons.prems by (cases n) auto
  have "\<exists>e. blk_loop (Suc m) (Some (snd y), bl\<lparr>bl_e := Some (fst y)\<rparr>) f (f (snd x) s) =
      Some (fold f (map snd (y # ys)) (f (snd x) s), bl\<lparr>bl_e := Some (fst y)\<rparr>\<lparr>bl_e := e\<rparr>)"
    using Cons.prems n by (intro Cons.IH [where xs = "xs @ [x]"]) (auto simp: bl_inv_ops)
  then show ?case unfolding n blk_loop.simps(3) nx by auto
qed

lemma blk_loop_fold:
  assumes "bl_inv bl" "length (bl_l bl) < n"
  shows "\<exists>e. blk_loop n (FrontBlock bl) f s = Some (fold f (bl_abs bl) s, bl\<lparr>bl_e := e\<rparr>)"
proof (cases "bl_l bl")
  case Nil
  then show ?thesis using assms(2) by (cases n) (auto simp: FrontBlock_def bl_abs_def intro: exI [of _ "bl_e bl"])
next
  case (Cons x ys)
  obtain m where n: "n = Suc m" using assms(2) by (cases n) auto
  have f: "FrontBlock bl = (Some (snd x), bl\<lparr>bl_e := Some (fst x)\<rparr>)" using Cons by (simp add: FrontBlock_def case_prod_unfold)
  have "\<exists>e. blk_loop (Suc m) (Some (snd x), bl\<lparr>bl_e := Some (fst x)\<rparr>) f s =
      Some (fold f (map snd (x # ys)) s, bl\<lparr>bl_e := Some (fst x)\<rparr>\<lparr>bl_e := e\<rparr>)"
    using assms Cons n by (intro blk_loop_rest [where xs = "[]"]) (auto simp: bl_inv_ops)
  then show ?thesis unfolding n f by (auto simp: bl_abs_def Cons)
qed

lemma fold_PushBack: "bl_abs (fold PushBack bs bl) = bl_abs bl @ bs" "bl_inv bl \<Longrightarrow> bl_inv (fold PushBack bs bl)"
  by (induction bs arbitrary: bl) (auto simp: bl_abs_ops bl_inv_ops)

lemma Delete_loop_empty: "set (bl_l bl) \<subseteq> set xs \<Longrightarrow> bl_l (Delete_loop xs bl) = []"
proof (induction xs arbitrary: bl)
  case (Cons x xs)
  have "set (bl_l (bl\<lparr>bl_l := filter (\<lambda>y. fst y \<noteq> fst x) (bl_l bl)\<rparr>)) \<subseteq> set xs" using Cons.prems by auto
  then show ?case using Cons.IH by simp
qed simp

text \<open>
  C20: Iterating over a block list ends after visiting every block once, in order: \<open>Apply\<close> folds its
  function over the blocks, \<open>Append\<close> concatenates, and \<open>Delete\<close> leaves the empty list.
\<close>

theorem blklist_iteration:
  assumes "bl_inv l" "length (bl_l l) < n"
  shows "(\<exists>e. Apply n l f s = Some (fold f (bl_abs l) s, l\<lparr>bl_e := e\<rparr>)) \<and>
    (\<exists>bl' l'. Append n bl l = Some (bl', l') \<and> bl_abs bl' = bl_abs bl @ bl_abs l \<and> bl_abs l' = bl_abs l) \<and>
    bl_abs (Delete l) = []"
proof (intro conjI)
  show "\<exists>e. Apply n l f s = Some (fold f (bl_abs l) s, l\<lparr>bl_e := e\<rparr>)"
    unfolding Apply_def by (rule blk_loop_fold [OF assms])
  obtain e where "blk_loop n (FrontBlock l) PushBack bl = Some (fold PushBack (bl_abs l) bl, l\<lparr>bl_e := e\<rparr>)"
    using blk_loop_fold [OF assms, of PushBack bl] by blast
  then show "\<exists>bl' l'. Append n bl l = Some (bl', l') \<and> bl_abs bl' = bl_abs bl @ bl_abs l \<and> bl_abs l' = bl_abs l"
    by (auto simp: Append_def fold_PushBack bl_abs_ops)
  show "bl_abs (Delete l) = []" by (simp add: Delete_def bl_abs_def Delete_loop_empty)
qed

theorem blklist_iteration_witness:
  "\<exists>e. Apply 3 (PushBack \<lparr>Block = 7, Type = 0, Data = []\<rparr> (PushBack \<lparr>Block = 5, Type = 0, Data = []\<rparr> MkBlkList))
     (\<lambda>b s. s @ [Block b]) [] = Some ([5, 7], e)"
proof -
  let ?l = "PushBack \<lparr>Block = 7, Type = 0, Data = []\<rparr> (PushBack \<lparr>Block = 5, Type = 0, Data = []\<rparr> MkBlkList)"
  have "bl_inv ?l" "length (bl_l ?l) < 3" by (auto simp: bl_inv_ops) (simp add: PushBack_def MkBlkList_def)
  then show ?thesis using blklist_iteration [of ?l 3 "\<lambda>b s. s @ [Block b]" "[]"] by (auto simp: bl_abs_ops)
qed

subsection \<open>Writes reach the disk in order\<close>

lemma gfold_disk_write:
  assumes "\<forall>b \<in> set bs. 0 \<le> fst b \<and> fst b < int (length (df d))"
  shows "gfold disk_write bs d = Ok (d\<lparr>df := fold (\<lambda>(n, p) f. f[nat n := p]) bs (df d),
     dtrace := map_option (\<lambda>t. t @ map (\<lambda>(n, p). \<lparr>Cmd = ''write'', BlkNo = n, BlkData = p\<rparr>) bs) (dtrace d)\<rparr>)"
  using assms
proof (induction bs arbitrary: d)
  case Nil
  then show ?case by (simp add: option.map_ident)
next
  case (Cons b bs)
  obtain n p where b: "b = (n, p)" by (cases b)
  have n: "0 \<le> n" "n < int (length (df d))" using Cons.prems b by auto
  let ?d = "d\<lparr>df := (df d)[nat n := p], dtrace := map_option (trace_write n p) (dtrace d)\<rparr>"
  have "Suc (nat n) - length (df d) = 0" using n by simp
  then have w: "disk_write b d = Ok ?d" using n by (simp add: b disk_write_def file_write_def)
  have "gfold disk_write bs ?d = Ok (?d\<lparr>df := fold (\<lambda>(n, p) f. f[nat n := p]) bs (df ?d),
     dtrace := map_option (\<lambda>t. t @ map (\<lambda>(n, p). \<lparr>Cmd = ''write'', BlkNo = n, BlkData = p\<rparr>) bs) (dtrace ?d)\<rparr>)"
    using Cons.prems by (intro Cons.IH) simp
  then show ?case unfolding gfold.simps w gbind.simps by (simp add: b trace_write_def option.map_comp comp_def)
qed

lemma gfold_bc_start: "bc_start BDEV_WRITE bs bc = gbind (gfold disk_write bs (bc_disk bc)) (\<lambda>d. Ok (bc\<lparr>bc_disk := d\<rparr>))"
  by (simp add: bc_start_def Start_def)

lemma bc_start_append: "gbind (bc_start BDEV_WRITE xs bc) (bc_start BDEV_WRITE ys) = bc_start BDEV_WRITE (xs @ ys) bc"
  unfolding gfold_bc_start by (cases "gfold disk_write xs (bc_disk bc)") (simp_all add: gfold_append gfold_bc_start)

lemma bc_start_Nil [simp]: "bc_start BDEV_WRITE [] bc = Ok bc"
  by (simp add: gfold_bc_start)

lemma Write_async_blks_through_start: "Write_async_blks_through bs bc = bc_start BDEV_WRITE bs bc"
  by (simp add: Write_async_blks_through_def)

lemma coalesce_loop_writes:
  "gbind (coalesce_loop bs l bc) (\<lambda>(l, bc). bc_start BDEV_WRITE l bc) = bc_start BDEV_WRITE (l @ bs) bc"
proof (induction bs l bc rule: coalesce_loop.induct)
  case (2 b bs l bc)
  show ?case
  proof (cases "l = [] \<or> fst (last l) + 1 = fst b")
    case True
    then show ?thesis using 2 by auto
  next
    case False
    have "gbind (coalesce_loop (b # bs) l bc) (\<lambda>(l, bc). bc_start BDEV_WRITE l bc) =
        gbind (bc_start BDEV_WRITE l bc) (bc_start BDEV_WRITE (b # bs))"
    proof (cases "bc_start BDEV_WRITE l bc")
      case (Ok bc')
      then show ?thesis using False 2(3) [of bc'] by (simp add: Write_async_blks_through_start)
    qed (use False in \<open>simp add: Write_async_blks_through_start\<close>)
    then show ?thesis using bc_start_append [of l bc "b # bs"] by simp
  qed
qed simp

lemma coalesce_start: "Write_async_through_coalesce bs bc = bc_start BDEV_WRITE bs bc"
proof -
  have "(\<lambda>(l, bc). if l = [] then Ok bc else Write_async_blks_through l bc) = (\<lambda>(l, bc). bc_start BDEV_WRITE l bc)"
    by (auto simp: Write_async_blks_through_start)
  then show ?thesis using coalesce_loop_writes [of bs "[]" bc] by (simp add: Write_async_through_coalesce_def)
qed



end
