(* ===== verification/Log.thy ===== *)
theory Log
  imports Blockdev
begin

text \<open>
  The file-system journal, \<^verbatim>\<open>biscuit/src/fs/log.go\<close>.

  Log indices are the code's \<open>uint64\<close> counters.  A transaction's lists of logged and ordered blocks
  hold block numbers: there is one cached block per number, whose page is read when the transaction
  is committed.  The transactions of \<open>translog\<close> are those already handed to the committer; what the
  committer later changes in them besides the list of logged blocks is not read from there.

  Waiting on a condition variable is an operation that is not enabled (\<open>None\<close>); waking up is not
  modelled.  Statistics and debug output are left out.
\<close>

abbreviation (input) LogOffset :: int where "LogOffset \<equiv> 1"
abbreviation (input) MaxBlkPerOp :: int where "MaxBlkPerOp \<equiv> 10"
abbreviation (input) MaxDescriptor :: int where "MaxDescriptor \<equiv> 512"
abbreviation (input) MaxOrdered :: int where "MaxOrdered \<equiv> 3000"
abbreviation (input) EndDescriptor :: int where "EndDescriptor \<equiv> 0"
abbreviation (input) NCommitBlk :: index_t where "NCommitBlk \<equiv> 1"
abbreviation (input) Canceled :: int where "Canceled \<equiv> - 2"

text \<open>The values of a loop \<open>for i := a; i != b; i++\<close> over log indices.\<close>

definition indices :: "index_t \<Rightarrow> index_t \<Rightarrow> index_t list" where
  "indices a b = map (\<lambda>k. a + of_nat k) [0 ..< unat (b - a)]"

subsection \<open>The in-memory log\<close>

record memlog_t =
  ml_log :: "bdev_block_t list"
  loglen :: int
  maxtrans :: int
  logstart :: int

definition mk_memlog :: "int \<Rightarrow> int \<Rightarrow> memlog_t go" where
  "mk_memlog ls ll =
     (let n = ll - LogOffset; mt = Min_int (ll sdiv 2) MaxDescriptor in
      if mt > MaxDescriptor then Panic ''max trans too large''
      else if n < 0 then Panic ''makeslice: len out of range''
      else Ok \<lparr>ml_log = replicate (nat n) \<lparr>Block = 0, Type = DataBlk, Data = replicate 4096 0\<rparr>,
               loglen = n, maxtrans = mt, logstart = ls\<rparr>)"

definition logindex :: "memlog_t \<Rightarrow> index_t \<Rightarrow> int go" where
  "logindex ml i = (if loglen ml = 0 then Panic ''integer divide by zero'' else Ok (sint i smod loglen ml))"

definition loginc :: "memlog_t \<Rightarrow> index_t \<Rightarrow> int go" where
  "loginc ml i = (if loglen ml = 0 then Panic ''integer divide by zero'' else Ok (sint (i + 1) smod loglen ml))"

definition diskindex :: "memlog_t \<Rightarrow> index_t \<Rightarrow> int go" where
  "diskindex ml i = gbind (logindex ml i) (\<lambda>li. Ok (logstart ml + LogOffset + li))"

definition getmemlog :: "memlog_t \<Rightarrow> index_t \<Rightarrow> bdev_block_t go" where
  "getmemlog ml i = gbind (logindex ml i) (\<lambda>n.
     if n < 0 \<or> n \<ge> int (length (ml_log ml)) then Panic ''index out of range'' else Ok (ml_log ml ! nat n))"

text \<open>Storing through the pointer that \<open>getmemlog\<close> returns.\<close>

definition setmemlog :: "memlog_t \<Rightarrow> index_t \<Rightarrow> (bdev_block_t \<Rightarrow> bdev_block_t) \<Rightarrow> memlog_t go" where
  "setmemlog ml i f = gbind (logindex ml i) (\<lambda>n.
     if n < 0 \<or> n \<ge> int (length (ml_log ml)) then Panic ''index out of range''
     else Ok (ml\<lparr>ml_log := (ml_log ml)[nat n := f (ml_log ml ! nat n)]\<rparr>))"

definition readhdr :: "memlog_t \<Rightarrow> bcache_t \<Rightarrow> (page \<times> bcache_t) go" where
  "readhdr ml bc = Get_fill (logstart ml) bc"

definition mkdescriptor :: "memlog_t \<Rightarrow> page \<Rightarrow> logdescriptor_t" where
  "mkdescriptor ml p = \<lparr>ld_data = p, ld_max = maxtrans ml\<rparr>"

definition getdescriptor :: "memlog_t \<Rightarrow> index_t \<Rightarrow> logdescriptor_t go" where
  "getdescriptor ml i = gbind (getmemlog ml i) (\<lambda>b. Ok (mkdescriptor ml (Data b)))"

definition readdescriptor :: "memlog_t \<Rightarrow> index_t \<Rightarrow> bcache_t \<Rightarrow> (logdescriptor_t \<times> bcache_t) go" where
  "readdescriptor ml i bc = gbind (diskindex ml i) (\<lambda>n. gbind (Get_fill n bc) (\<lambda>(p, bc). Ok (mkdescriptor ml p, bc)))"

definition ml_flush :: "bcache_t \<Rightarrow> bcache_t go" where
  "ml_flush bc = bc_start BDEV_FLUSH [] bc"

definition commit_head :: "memlog_t \<Rightarrow> index_t \<Rightarrow> bcache_t \<Rightarrow> bcache_t go" where
  "commit_head ml head bc =
     gbind (readhdr ml bc) (\<lambda>(p, bc).
     gbind (w_head p head) (\<lambda>p.
     gbind (Write_async (logstart ml, p) (set_data (logstart ml) p bc)) ml_flush))"

definition commit_tail :: "memlog_t \<Rightarrow> index_t \<Rightarrow> bcache_t \<Rightarrow> bcache_t go" where
  "commit_tail ml tail bc =
     gbind (readhdr ml bc) (\<lambda>(p, bc).
     gbind (w_tail p tail) (\<lambda>p.
     gbind (Write_async (logstart ml, p) (set_data (logstart ml) p bc)) ml_flush))"

definition freespace :: "memlog_t \<Rightarrow> index_t \<Rightarrow> index_t \<Rightarrow> bool go" where
  "freespace ml head tail =
     (let n = loglen ml - sint (head - tail) in
      if n < 0 then Panic ''space'' else Ok (n \<ge> maxtrans ml))"

definition almosthalffull :: "memlog_t \<Rightarrow> index_t \<Rightarrow> index_t \<Rightarrow> bool" where
  "almosthalffull ml tail head \<longleftrightarrow> sint (head - tail + 10) \<ge> loglen ml sdiv 2"

subsection \<open>Transactions\<close>

record revokelist_t =
  revoked :: "bdev_block_t list"
  rl_index :: int

definition mkRevokeList :: revokelist_t where
  "mkRevokeList = \<lparr>revoked = [], rl_index = 0\<rparr>"

definition rl_len :: "revokelist_t \<Rightarrow> int" where
  "rl_len rl = int (length (revoked rl))"

definition addRevokeRecord :: "memlog_t \<Rightarrow> int \<Rightarrow> revokelist_t \<Rightarrow> revokelist_t go" where
  "addRevokeRecord ml blkno rl =
     gbind (if revoked rl = [] \<or> rl_index rl \<ge> MaxDescriptor
        then gbind (w_logdest (mkdescriptor ml (replicate 4096 0)) 0 RevokeBlk) (\<lambda>db.
          Ok (\<lparr>revoked = revoked rl @ [\<lparr>Block = blkno, Type = RevokeBlk, Data = ld_data db\<rparr>], rl_index = 1\<rparr>, db))
        else Ok (rl, mkdescriptor ml (Data (last (revoked rl))))) (\<lambda>(rl, db).
     gbind (w_logdest db (rl_index rl) blkno) (\<lambda>db.
     gbind (w_logdest db (rl_index rl + 1) EndDescriptor) (\<lambda>db.
     Ok (\<lparr>revoked = butlast (revoked rl) @ [(last (revoked rl))\<lparr>Data := ld_data db\<rparr>], rl_index = rl_index rl + 1\<rparr>))))"

record trans_t =
  tr_start :: index_t
  tr_head :: index_t
  inprogress :: int
  logged :: "int list"
  ordered :: "int list"
  revokel :: revokelist_t
  logpresent :: "int set"
  orderedpresent :: "int set"
  tr_force :: bool
  forceapply :: bool
  forcedone :: bool
  committing :: bool

definition mk_trans :: "index_t \<Rightarrow> trans_t" where
  "mk_trans start = \<lparr>tr_start = start, tr_head = start + NCommitBlk, inprogress = 0, logged = [], ordered = [],
     revokel = mkRevokeList, logpresent = {}, orderedpresent = {}, tr_force = False, forceapply = False,
     forcedone = False, committing = False\<rparr>"

definition add_op :: "trans_t \<Rightarrow> trans_t" where
  "add_op t = t\<lparr>inprogress := inprogress t + 1\<rparr>"

definition mark_done :: "trans_t \<Rightarrow> trans_t go" where
  "mark_done t = (if inprogress t = 0 then Panic ''mark done'' else Ok (t\<lparr>inprogress := inprogress t - 1\<rparr>))"

definition islogged :: "trans_t list \<Rightarrow> int \<Rightarrow> bool" where
  "islogged tlg blkno \<longleftrightarrow> list_ex (\<lambda>t. blkno \<in> logpresent t) tlg"

text \<open>The first part of \<open>add_write\<close>: a block that changes between logged and ordered leaves the other list.\<close>

definition switch_list :: "int \<Rightarrow> bool \<Rightarrow> trans_t \<Rightarrow> trans_t" where
  "switch_list n ord t =
     (let t = (if ord \<and> n \<in> logpresent t
         then t\<lparr>logged := filter (\<lambda>m. m \<noteq> n) (logged t), logpresent := logpresent t - {n}\<rparr> else t)
      in if \<not> ord \<and> n \<in> orderedpresent t
         then t\<lparr>ordered := filter (\<lambda>m. m \<noteq> n) (ordered t), orderedpresent := orderedpresent t - {n}\<rparr> else t)"

definition add_write :: "memlog_t \<Rightarrow> trans_t list \<Rightarrow> int \<Rightarrow> int \<Rightarrow> bool \<Rightarrow> trans_t \<Rightarrow> trans_t go" where
  "add_write ml tlg opid n ord t =
     (if opid = 0 then Panic ''zero opid''
      else let t = switch_list n ord t in
        if n \<in> logpresent t \<or> n \<in> orderedpresent t then Ok t
        else gbind (if ord \<and> islogged tlg n
             then gbind (addRevokeRecord ml n (revokel t)) (\<lambda>rl. Ok (t\<lparr>revokel := rl\<rparr>)) else Ok t) (\<lambda>t.
          if ord then
            let t = t\<lparr>ordered := ordered t @ [n]\<rparr>
            in if int (length (ordered t)) \<ge> MaxOrdered then Panic ''add_write''
               else Ok (t\<lparr>orderedpresent := insert n (orderedpresent t)\<rparr>)
          else Ok (t\<lparr>logged := logged t @ [n], logpresent := insert n (logpresent t)\<rparr>)))"

definition iscommittable :: "trans_t \<Rightarrow> bool" where
  "iscommittable t \<longleftrightarrow> inprogress t = 0"

definition isorderedfull :: "trans_t \<Rightarrow> bool" where
  "isorderedfull t \<longleftrightarrow> int (length (ordered t)) + MaxBlkPerOp \<ge> MaxOrdered"

definition iscommitdescriptorfull :: "memlog_t \<Rightarrow> trans_t \<Rightarrow> bool" where
  "iscommitdescriptorfull ml t \<longleftrightarrow>
     int (length (logged t)) + rl_len (revokel t) + inprogress t * MaxBlkPerOp + MaxBlkPerOp \<ge> maxtrans ml"

definition isempty :: "trans_t \<Rightarrow> bool" where
  "isempty t \<longleftrightarrow> logged t = [] \<and> ordered t = []"

definition isfull :: "memlog_t \<Rightarrow> trans_t \<Rightarrow> bool" where
  "isfull ml t \<longleftrightarrow> iscommitdescriptorfull ml t \<or> isorderedfull t"

definition copyrevoked :: "memlog_t \<Rightarrow> trans_t \<Rightarrow> memlog_t go" where
  "copyrevoked ml t =
     gbind (gfold (\<lambda>b (i, ml). gbind (setmemlog ml i (\<lambda>_. b)) (\<lambda>ml. Ok (i + 1, ml)))
       (revoked (revokel t)) (tr_start t + NCommitBlk, ml)) (\<lambda>(i, ml). Ok ml)"

text \<open>The page of a cached block; a block in a transaction's lists is in the cache.\<close>

definition cached :: "bcache_t \<Rightarrow> int \<Rightarrow> page" where
  "cached bc n = (case bc_cache bc n of Some p \<Rightarrow> p | None \<Rightarrow> replicate 4096 0)"

definition copylogged :: "memlog_t \<Rightarrow> bcache_t \<Rightarrow> trans_t \<Rightarrow> memlog_t go" where
  "copylogged ml bc t =
     gbind (gfold (\<lambda>n (i, ml). gbind (setmemlog ml i (\<lambda>_. \<lparr>Block = n, Type = DataBlk, Data = cached bc n\<rparr>)) (\<lambda>ml. Ok (i + 1, ml)))
       (logged t) (tr_start t + NCommitBlk + of_nat (length (revoked (revokel t))), ml)) (\<lambda>(i, ml).
     if i \<noteq> tr_head t then Panic ''copylogged'' else Ok ml)"

definition write_ordered :: "bcache_t \<Rightarrow> trans_t \<Rightarrow> (trans_t \<times> bcache_t) go" where
  "write_ordered bc t =
     gbind (Write_async_through_coalesce (map (\<lambda>n. (n, cached bc n)) (ordered t)) bc) (\<lambda>bc. Ok (t\<lparr>ordered := []\<rparr>, bc))"

text \<open>
  The loop of \<open>commit\<close>: destinations go into the commit block, and the log slots to write are collected
  in two lists, split where the log wraps around.  The lists share the pages of the log.
\<close>

definition commit_iter :: "index_t \<Rightarrow> index_t \<Rightarrow> index_t \<Rightarrow>
    memlog_t \<times> int \<times> index_t list \<times> index_t list \<times> bool \<Rightarrow> (memlog_t \<times> int \<times> index_t list \<times> index_t list \<times> bool) go" where
  "commit_iter tail start i = (\<lambda>(ml, j, b1, b2, second).
     if tail > i then Panic ''commit runs into log start''
     else gbind (getmemlog ml i) (\<lambda>l.
       gbind (getdescriptor ml start) (\<lambda>db.
       gbind (w_logdest db j (if Type l = DataBlk then Block l else Type l)) (\<lambda>db.
       gbind (setmemlog ml start (\<lambda>b. b\<lparr>Data := ld_data db\<rparr>)) (\<lambda>ml.
       gbind (loginc ml i) (\<lambda>n.
       Ok (ml, j + 1, if second then b1 else b1 @ [i], if second then b2 @ [i] else b2, second \<or> n = 0)))))))"

definition log_slots :: "memlog_t \<Rightarrow> index_t list \<Rightarrow> (int \<times> page) list go" where
  "log_slots ml is = gmap (\<lambda>i. gbind (diskindex ml i) (\<lambda>n. gbind (getmemlog ml i) (\<lambda>l. Ok (n, Data l)))) is"

definition commit_build :: "index_t \<Rightarrow> trans_t \<Rightarrow> memlog_t \<Rightarrow> (memlog_t \<times> (int \<times> page) list \<times> (int \<times> page) list) go" where
  "commit_build tail t ml =
     gbind (setmemlog ml (tr_start t) (\<lambda>b. b\<lparr>Type := CommitBlk\<rparr>)) (\<lambda>ml.
     gbind (gfold (commit_iter tail (tr_start t)) (indices (tr_start t) (tr_head t)) (ml, 0, [], [], False)) (\<lambda>(ml, j, b1, b2, _).
     gbind (getdescriptor ml (tr_start t)) (\<lambda>db.
     gbind (w_logdest db j EndDescriptor) (\<lambda>db.
     gbind (setmemlog ml (tr_start t) (\<lambda>b. b\<lparr>Data := ld_data db\<rparr>)) (\<lambda>ml.
     gbind (log_slots ml b1) (\<lambda>w1. gbind (log_slots ml b2) (\<lambda>w2. Ok (ml, w1, w2))))))))"

text \<open>The writes of \<open>commit\<close>: the log slots, the ordered blocks, and only after a flush the header.\<close>

definition commit_io :: "trans_t \<Rightarrow> memlog_t \<Rightarrow> (int \<times> page) list \<Rightarrow> (int \<times> page) list \<Rightarrow> bcache_t \<Rightarrow> (trans_t \<times> bcache_t) go" where
  "commit_io t ml w1 w2 bc =
     gbind (Write_async_blks_through w1 bc) (\<lambda>bc.
     gbind (if w2 \<noteq> [] then Write_async_blks_through w2 bc else Ok bc) (\<lambda>bc.
     gbind (write_ordered bc t) (\<lambda>(t, bc).
     gbind (ml_flush bc) (\<lambda>bc.
     gbind (if tr_start t \<noteq> tr_head t then commit_head ml (tr_head t) bc else Ok bc) (\<lambda>bc.
     Ok (t, bc))))))"

definition commit :: "index_t \<Rightarrow> trans_t \<Rightarrow> memlog_t \<Rightarrow> bcache_t \<Rightarrow> (trans_t \<times> memlog_t \<times> bcache_t) go" where
  "commit tail t ml bc = gbind (commit_build tail t ml) (\<lambda>(ml, w1, w2).
     gbind (commit_io t ml w1 w2 bc) (\<lambda>(t, bc). Ok (t, ml, bc)))"

subsection \<open>The journal\<close>

record log_t =
  lt_ml :: memlog_t
  curtrans :: trans_t
  lt_tail :: index_t
  lt_head :: index_t
  translog :: "trans_t list"
  lt_stop :: bool
  logging :: bool
  nextop :: int

definition translog_add :: "trans_t \<Rightarrow> trans_t list \<Rightarrow> trans_t list" where
  "translog_add t tlg = tlg @ [t]"

definition translog_last :: "trans_t list \<Rightarrow> trans_t go" where
  "translog_last tlg = (if tlg = [] then Panic ''index out of range'' else Ok (last tlg))"

text \<open>The loop ranges over the list as it was, and drops one element from the front per hit.\<close>

definition translog_remove :: "index_t \<Rightarrow> trans_t list \<Rightarrow> trans_t list" where
  "translog_remove tail tlg = drop (length (filter (\<lambda>t. tr_head t \<le> tail) tlg)) tlg"

definition mk_log :: "int \<Rightarrow> int \<Rightarrow> bool \<Rightarrow> log_t go" where
  "mk_log ls ll lg = gbind (mk_memlog ls ll) (\<lambda>ml.
     Ok \<lparr>lt_ml = ml, curtrans = mk_trans 0, lt_tail = 0, lt_head = 0, translog = [], lt_stop = False, logging = lg, nextop = 1\<rparr>)"

definition Op_begin_id :: "log_t \<Rightarrow> int \<times> log_t" where
  "Op_begin_id log = (if \<not> logging log then (0, log) else (nextop log, log\<lparr>nextop := nextop log + 1\<rparr>))"

definition Op_begin_admit :: "log_t \<Rightarrow> log_t option" where
  "Op_begin_admit log = (if \<not> logging log then Some log
     else if isfull (lt_ml log) (curtrans log) \<or> committing (curtrans log) then None
     else Some (log\<lparr>curtrans := add_op (curtrans log)\<rparr>))"

definition Op_end :: "log_t \<Rightarrow> log_t go" where
  "Op_end log = (if \<not> logging log then Ok log
     else gbind (mark_done (curtrans log)) (\<lambda>t.
       Ok (log\<lparr>curtrans := (if (isfull (lt_ml log) t \<or> tr_force t) \<and> iscommittable t then t\<lparr>committing := True\<rparr> else t)\<rparr>)))"

text \<open>\<open>Force\<close> up to its wait; the result says whether the caller waits for \<open>forcedone\<close>.\<close>

definition Force :: "bool \<Rightarrow> log_t \<Rightarrow> bool \<times> log_t" where
  "Force doapply log =
     (let t = curtrans log in
      if \<not> logging log \<or> isempty t \<or> forcedone t then (False, log)
      else let t = t\<lparr>tr_force := True\<rparr>;
               t = (if doapply then t\<lparr>forceapply := True\<rparr> else t);
               t = (if iscommittable t then t\<lparr>committing := True\<rparr> else t)
           in (\<not> forcedone t, log\<lparr>curtrans := t\<rparr>))"

definition log_write :: "int \<Rightarrow> int \<Rightarrow> bool \<Rightarrow> log_t \<Rightarrow> log_t go" where
  "log_write opid n ord log = (if \<not> logging log then Ok log
     else gbind (add_write (lt_ml log) (translog log) opid n ord (curtrans log)) (\<lambda>t. Ok (log\<lparr>curtrans := t\<rparr>)))"

definition log_Write :: "int \<Rightarrow> int \<Rightarrow> log_t \<Rightarrow> log_t go" where
  "log_Write opid n log = log_write opid n False log"

definition Write_ordered :: "int \<Rightarrow> int \<Rightarrow> log_t \<Rightarrow> log_t go" where
  "Write_ordered opid n log = log_write opid n True log"

definition Log_Get_fill :: "int \<Rightarrow> bcache_t \<Rightarrow> (page \<times> bcache_t) go" where
  "Log_Get_fill n bc = Get_fill n bc"

definition Log_Get_zero :: "int \<Rightarrow> bcache_t \<Rightarrow> page \<times> bcache_t" where
  "Log_Get_zero n bc = Get_zero n bc"

definition Log_Get_nofill :: "int \<Rightarrow> bcache_t \<Rightarrow> page \<times> bcache_t" where
  "Log_Get_nofill n bc = Get_nofill n bc"

definition Log_Loglen :: "log_t \<Rightarrow> int" where
  "Log_Loglen log = loglen (lt_ml log)"

text \<open>The records of one revoke block, from field 1 up to the end marker or a panic at the last field.\<close>

fun revoke_records :: "nat \<Rightarrow> logdescriptor_t \<Rightarrow> int \<Rightarrow> int list go" where
  "revoke_records 0 rb k = Panic ''bad dnum''"
| "revoke_records (Suc n) rb k = gbind (r_logdest rb k) (\<lambda>r.
     if r = EndDescriptor then Ok [] else gbind (revoke_records n rb (k + 1)) (\<lambda>rs. Ok (r # rs)))"

definition cancel_one :: "index_t \<Rightarrow> index_t \<Rightarrow> int \<Rightarrow> memlog_t \<Rightarrow> memlog_t go" where
  "cancel_one tail head r ml = gfold (\<lambda>i ml. gbind (getmemlog ml i) (\<lambda>l.
     if Block l = r then setmemlog ml i (\<lambda>l. l\<lparr>Type := Canceled\<rparr>) else Ok ml)) (indices tail head) ml"

definition cancel :: "index_t \<Rightarrow> index_t \<Rightarrow> revokelist_t \<Rightarrow> memlog_t \<Rightarrow> memlog_t go" where
  "cancel tail head rl ml = gfold (\<lambda>b ml.
     gbind (revoke_records (nat (maxtrans ml)) (mkdescriptor ml (Data b)) 1) (\<lambda>rs.
     gfold (cancel_one tail head) rs ml)) (revoked rl) ml"

definition apply_iter :: "memlog_t \<Rightarrow> index_t \<Rightarrow> int set \<times> bcache_t \<Rightarrow> (int set \<times> bcache_t) go" where
  "apply_iter ml i = (\<lambda>(done, bc).
     gbind (getmemlog ml i) (\<lambda>l.
     if Type l = CommitBlk \<or> Type l = RevokeBlk \<or> Type l = Canceled then Ok (done, bc)
     else if Block l \<notin> done
       then gbind (Write_async_through (Block l, Data l) bc) (\<lambda>bc. Ok (insert (Block l) done, bc))
       else Ok (done, bc)))"

definition apply_log :: "memlog_t \<Rightarrow> index_t \<Rightarrow> index_t \<Rightarrow> trans_t list \<Rightarrow> bcache_t \<Rightarrow> (index_t \<times> trans_t list \<times> bcache_t) go" where
  "apply_log ml tail head tlg bc =
     (if tail = head then Ok (head, tlg, bc)
      else gbind (gfold (apply_iter ml) (if head - 1 > tail then rev (indices (tail + 1) head) else []) ({}, bc)) (\<lambda>(_, bc).
        gbind (ml_flush bc) (\<lambda>bc.
        let tlg = map (\<lambda>t. t\<lparr>logged := []\<rparr>) (takeWhile (\<lambda>t. \<not> tr_head t > head) tlg) @ dropWhile (\<lambda>t. \<not> tr_head t > head) tlg
        in gbind (commit_tail ml head bc) (\<lambda>bc. Ok (head, tlg, bc)))))"

text \<open>
  The committer's iteration on a transaction that is to be committed: what it does before it releases
  the lock, and after it has taken it again.
\<close>

definition committer_prepare :: "bcache_t \<Rightarrow> log_t \<Rightarrow> (bool \<times> trans_t \<times> log_t) go" where
  "committer_prepare bc log =
     (let t = curtrans log;
          t = t\<lparr>tr_head := tr_head t + of_int (int (length (logged t)) + rl_len (revokel t))\<rparr>
      in gbind (copyrevoked (lt_ml log) t) (\<lambda>ml.
         gbind (copylogged ml bc t) (\<lambda>ml.
         let t = (if tr_start t + 1 = tr_head t then t\<lparr>tr_head := tr_start t\<rparr> else t);
             log = log\<lparr>lt_ml := ml, curtrans := t, translog := translog_add t (translog log)\<rparr>
         in gbind (freespace ml (tr_head t) (lt_tail log)) (\<lambda>early.
            Ok (early, t, if early then log\<lparr>curtrans := mk_trans (tr_head t)\<rparr> else log)))))"

definition committer_finish :: "bool \<Rightarrow> trans_t \<Rightarrow> log_t \<Rightarrow> bcache_t \<Rightarrow> (log_t \<times> bcache_t) go" where
  "committer_finish early t log bc =
     (let t = t\<lparr>forcedone := True\<rparr> in
      gbind (if forceapply t \<or> almosthalffull (lt_ml log) (lt_tail log) (tr_head t)
         then gbind (cancel (lt_tail log) (tr_head t) (revokel t) (lt_ml log)) (\<lambda>ml.
           gbind (apply_log ml (lt_tail log) (tr_head t) (translog log) bc) (\<lambda>(tail, tlg, bc).
           Ok (log\<lparr>lt_ml := ml, lt_tail := tail, translog := translog_remove tail tlg\<rparr>, bc)))
         else Ok (log, bc)) (\<lambda>(log, bc).
      Ok (if early then log else log\<lparr>curtrans := mk_trans (tr_head t)\<rparr>, bc)))"

definition committer_step :: "log_t \<Rightarrow> bcache_t \<Rightarrow> (log_t \<times> bcache_t) go" where
  "committer_step log bc =
     (if \<not> committing (curtrans log) then Ok (log, bc)
      else gbind (committer_prepare bc log) (\<lambda>(early, t, log).
        gbind (commit (lt_tail log) t (lt_ml log) bc) (\<lambda>(t, ml, bc).
        committer_finish early t (log\<lparr>lt_ml := ml\<rparr>) bc)))"

subsection \<open>Recovery\<close>

definition revoke :: "memlog_t \<Rightarrow> index_t \<Rightarrow> index_t \<Rightarrow> int \<Rightarrow> int list \<Rightarrow> int list go" where
  "revoke ml tail until r im = gfold (\<lambda>i im. gbind (logindex ml i) (\<lambda>li.
     if li < 0 \<or> li \<ge> int (length im) then Panic ''index out of range''
     else Ok (if im ! nat li = r then im[nat li := Canceled] else im))) (indices tail until) im"

definition im_set :: "memlog_t \<Rightarrow> index_t \<Rightarrow> int \<Rightarrow> int list \<Rightarrow> int list go" where
  "im_set ml i v im = gbind (logindex ml i) (\<lambda>li.
     if li < 0 \<or> li \<ge> int (length im) then Panic ''index out of range'' else Ok (im[nat li := v]))"

text \<open>
  The two inner loops of \<open>installmap\<close>, over the revoke blocks and over the logged blocks of a
  transaction; both end at the latest with the panic of \<open>r_logdest\<close> past the last field.
\<close>

fun im_revokes :: "nat \<Rightarrow> memlog_t \<Rightarrow> index_t \<Rightarrow> index_t \<Rightarrow> logdescriptor_t \<Rightarrow> index_t \<Rightarrow> int \<Rightarrow> int list \<Rightarrow> bcache_t \<Rightarrow>
    (index_t \<times> int \<times> int list \<times> bcache_t) go" where
  "im_revokes 0 ml tail ti db i j im bc = Panic ''bad dnum''"
| "im_revokes (Suc n) ml tail ti db i j im bc =
     gbind (r_logdest db j) (\<lambda>r.
     if r = RevokeBlk then
       gbind (readdescriptor ml i bc) (\<lambda>(rb, bc).
       gbind (im_set ml (ti + of_int j) Canceled im) (\<lambda>im.
       gbind (revoke_records (nat (maxtrans ml)) rb 1) (\<lambda>rs.
       gbind (gfold (revoke ml tail ti) rs im) (\<lambda>im.
       im_revokes n ml tail ti db (i + 1) (j + 1) im bc))))
     else Ok (i, j, im, bc))"

fun im_dests :: "nat \<Rightarrow> memlog_t \<Rightarrow> logdescriptor_t \<Rightarrow> index_t \<Rightarrow> int \<Rightarrow> int list \<Rightarrow> (index_t \<times> int list) go" where
  "im_dests 0 ml db i j im = Panic ''bad dnum''"
| "im_dests (Suc n) ml db i j im =
     gbind (r_logdest db j) (\<lambda>bdest.
     if bdest = EndDescriptor then Ok (i, im)
     else gbind (im_set ml i bdest im) (\<lambda>im. im_dests n ml db (i + 1) (j + 1) im))"

definition im_trans :: "memlog_t \<Rightarrow> index_t \<Rightarrow> index_t \<Rightarrow> int list \<Rightarrow> bcache_t \<Rightarrow> (index_t \<times> int list \<times> bcache_t) go" where
  "im_trans ml tail i im bc =
     gbind (readdescriptor ml i bc) (\<lambda>(db, bc).
     gbind (im_set ml i Canceled im) (\<lambda>im.
     gbind (im_revokes (nat (maxtrans ml)) ml tail i db (i + NCommitBlk) 1 im bc) (\<lambda>(i, j, im, bc).
     gbind (im_dests (nat (maxtrans ml)) ml db i j im) (\<lambda>(i, im).
     Ok (i, im, bc)))))"

text \<open>\<open>installmap\<close> with a bound on its iterations; each one advances by at least the commit block.\<close>

fun im_loop :: "nat \<Rightarrow> memlog_t \<Rightarrow> index_t \<Rightarrow> index_t \<Rightarrow> index_t \<Rightarrow> int list \<Rightarrow> bcache_t \<Rightarrow> (int list \<times> bcache_t) go option" where
  "im_loop 0 ml tail head i im bc = None"
| "im_loop (Suc n) ml tail head i im bc =
     (if i = head then Some (Ok (im, bc))
      else case im_trans ml tail i im bc of
          Panic m \<Rightarrow> Some (Panic m)
        | Ok (i, im, bc) \<Rightarrow> im_loop n ml tail head i im bc)"

definition installmap :: "memlog_t \<Rightarrow> index_t \<Rightarrow> index_t \<Rightarrow> bcache_t \<Rightarrow> (int list \<times> bcache_t) go option" where
  "installmap ml tail head bc =
     (if loglen ml < 0 then Some (Panic ''makeslice: len out of range'')
      else im_loop (Suc (unat (head - tail))) ml tail head tail (replicate (nat (loglen ml)) 0) bc)"

definition install_iter :: "memlog_t \<Rightarrow> int list \<Rightarrow> index_t \<Rightarrow> bcache_t \<Rightarrow> bcache_t go" where
  "install_iter ml im i bc =
     gbind (logindex ml i) (\<lambda>li.
     if li < 0 \<or> li \<ge> int (length im) then Panic ''index out of range''
     else let dst = im ! nat li in
       if dst \<noteq> Canceled then
         gbind (diskindex ml i) (\<lambda>n.
         gbind (Get_fill n bc) (\<lambda>(lb, bc).
         gbind (Get_fill dst bc) (\<lambda>(fb, bc).
         bc_Write (dst, lb) (set_data dst lb bc))))
       else Ok bc)"

definition install :: "memlog_t \<Rightarrow> index_t \<Rightarrow> index_t \<Rightarrow> bcache_t \<Rightarrow> bcache_t go option" where
  "install ml tail head bc = (case installmap ml tail head bc of
      None \<Rightarrow> None
    | Some r \<Rightarrow> Some (gbind r (\<lambda>(im, bc). gfold (install_iter ml im) (indices tail head) bc)))"

definition log_recover :: "log_t \<Rightarrow> bcache_t \<Rightarrow> (log_t \<times> bcache_t) go option" where
  "log_recover log bc = (case readhdr (lt_ml log) bc of
      Panic m \<Rightarrow> Some (Panic m)
    | Ok (p, bc) \<Rightarrow> (case (r_tail p, r_head p) of
        (Ok tail, Ok head) \<Rightarrow>
          let log = log\<lparr>lt_tail := tail, lt_head := head\<rparr> in
          if tail = head then Some (Ok (log, bc))
          else (case install (lt_ml log) tail head bc of
              None \<Rightarrow> None
            | Some r \<Rightarrow> Some (gbind r (\<lambda>bc. gbind (commit_tail (lt_ml log) head bc) (\<lambda>bc.
                Ok (log\<lparr>lt_tail := head\<rparr>, bc)))))
      | (Panic m, _) \<Rightarrow> Some (Panic m)
      | (_, Panic m) \<Rightarrow> Some (Panic m)))"

definition StartLog :: "int \<Rightarrow> int \<Rightarrow> bcache_t \<Rightarrow> bool \<Rightarrow> (log_t \<times> bcache_t) go option" where
  "StartLog ls ll bc lg = (case mk_log ls ll lg of
      Panic m \<Rightarrow> Some (Panic m)
    | Ok log \<Rightarrow> (case log_recover log bc of
        None \<Rightarrow> None
      | Some r \<Rightarrow> Some (gbind r (\<lambda>(log, bc). Ok (log\<lparr>curtrans := mk_trans (lt_head log)\<rparr>, bc)))))"

end
