(* ===== verification/Recovery.thy ===== *)
theory Recovery
  imports Log
begin

text \<open>
  Correctness of the journal: what recovery installs, and that a commit is atomic under crashes.

  Positions in the log are natural numbers below \<open>2 ^ 63\<close>; \<open>of_nat\<close> gives the code's index.
\<close>

subsection \<open>Positions and slots\<close>

abbreviation (input) maxpos :: nat where "maxpos \<equiv> 9223372036854775808"

lemma sint_of_nat_small: "n < maxpos \<Longrightarrow> sint (of_nat n :: index_t) = int n"
proof -
  assume n: "n < maxpos"
  have "sint (word_of_int (int n) :: index_t) = signed_take_bit 63 (int n)" unfolding sint_sbintrunc' by simp
  also have "\<dots> = int n" using n by (intro signed_take_bit_int_eq_self) auto
  finally show ?thesis by simp
qed

lemma unat_of_nat_small: "n < maxpos \<Longrightarrow> unat (of_nat n :: index_t) = n"
  by (simp add: unsigned_of_nat take_bit_nat_eq_self)

lemma indices_nat:
  assumes "a \<le> b" "b < maxpos"
  shows "indices (of_nat a) (of_nat b) = map of_nat [a ..< b]"
proof -
  have "(of_nat b :: index_t) - of_nat a = of_nat (b - a)" using assms(1) by (simp add: of_nat_diff)
  then have "unat ((of_nat b :: index_t) - of_nat a) = unat (of_nat (b - a) :: index_t)" by (simp only:)
  also have "\<dots> = b - a" using assms by (intro unat_of_nat_small) simp
  finally have "unat ((of_nat b :: index_t) - of_nat a) = b - a" .
  moreover have "map (\<lambda>k. of_nat a + of_nat k :: index_t) [0 ..< b - a] = map of_nat [a ..< b]"
    using assms(1) by (intro nth_equalityI) simp_all
  ultimately show ?thesis by (simp add: indices_def)
qed

definition spos :: "memlog_t \<Rightarrow> nat \<Rightarrow> nat" where
  "spos ml n = n mod nat (loglen ml)"

definition dpos :: "memlog_t \<Rightarrow> nat \<Rightarrow> int" where
  "dpos ml n = logstart ml + 1 + int (spos ml n)"

definition ml_ok :: "memlog_t \<Rightarrow> bool" where
  "ml_ok ml \<longleftrightarrow> 0 < loglen ml \<and> int (length (ml_log ml)) = loglen ml \<and> 0 < maxtrans ml \<and> maxtrans ml \<le> 512 \<and>
     (\<forall>b \<in> set (ml_log ml). page_ok (Data b))"

lemma spos_less: "0 < loglen ml \<Longrightarrow> spos ml n < nat (loglen ml)"
  by (simp add: spos_def)

lemma logindex_nat:
  assumes "0 < loglen ml" "n < maxpos"
  shows "logindex ml (of_nat n) = Ok (int (spos ml n))"
  using assms by (simp add: logindex_def sint_of_nat_small smod_nonneg spos_def zmod_int)

lemma diskindex_nat: "0 < loglen ml \<Longrightarrow> n < maxpos \<Longrightarrow> diskindex ml (of_nat n) = Ok (dpos ml n)"
  by (simp add: diskindex_def logindex_nat dpos_def)

lemma spos_inj:
  assumes "spos ml a = spos ml b" "a \<le> b" "b - a < nat (loglen ml)"
  shows "a = b"
proof -
  have "nat (loglen ml) dvd b - a"
    using mod_eq_dvd_iff_nat [OF assms(2), of "nat (loglen ml)"] assms(1) unfolding spos_def by metis
  then show ?thesis using nat_dvd_not_less [of "b - a" "nat (loglen ml)"] assms(2,3) by linarith
qed

lemma spos_window:
  assumes "T \<le> a" "a < T + nat (loglen ml)" "T \<le> b" "b < T + nat (loglen ml)"
  shows "spos ml a = spos ml b \<longleftrightarrow> a = b"
proof (cases "a \<le> b")
  case True
  have "b - a < nat (loglen ml)" using assms True by linarith
  then show ?thesis using spos_inj [OF _ True] by blast
next
  case False
  then have "b \<le> a" "a - b < nat (loglen ml)" using assms by linarith+
  then show ?thesis using spos_inj [of ml b a] by metis
qed

subsection \<open>The cache agrees with the disk\<close>

abbreviation dfile :: "bcache_t \<Rightarrow> page list" where "dfile bc \<equiv> df (bc_disk bc)"

definition coherent :: "bcache_t \<Rightarrow> bool" where
  "coherent bc \<longleftrightarrow> (\<forall>n p. bc_cache bc n = Some p \<longrightarrow> 0 \<le> n \<and> n < int (length (dfile bc)) \<and> dfile bc ! nat n = p)"

lemma coherentD:
  assumes "coherent bc" "bc_cache bc n = Some p"
  shows "0 \<le> n" "n < int (length (dfile bc))" "dfile bc ! nat n = p"
  using assms unfolding coherent_def by blast+

lemma coherent_fill:
  assumes "coherent bc" "0 \<le> n" "n < int (length (dfile bc))"
  shows "coherent (bc\<lparr>bc_cache := (bc_cache bc)(n \<mapsto> dfile bc ! nat n)\<rparr>)"
  unfolding coherent_def
proof (intro allI impI)
  fix m q assume c: "bc_cache (bc\<lparr>bc_cache := (bc_cache bc)(n \<mapsto> dfile bc ! nat n)\<rparr>) m = Some q"
  show "0 \<le> m \<and> m < int (length (dfile (bc\<lparr>bc_cache := (bc_cache bc)(n \<mapsto> dfile bc ! nat n)\<rparr>))) \<and>
      dfile (bc\<lparr>bc_cache := (bc_cache bc)(n \<mapsto> dfile bc ! nat n)\<rparr>) ! nat m = q"
    using c coherentD [OF assms(1), of m q] assms(2,3) by (cases "m = n") simp_all
qed

lemma Get_fill_coherent:
  assumes "coherent bc" "0 \<le> n" "n < int (length (dfile bc))"
  obtains bc' where "Get_fill n bc = Ok (dfile bc ! nat n, bc')" "coherent bc'" "bc_disk bc' = bc_disk bc"
proof (cases "bc_cache bc n")
  case None
  then show ?thesis using assms that [of "bc\<lparr>bc_cache := (bc_cache bc)(n \<mapsto> dfile bc ! nat n)\<rparr>"]
      coherent_fill [OF assms] by (simp add: Get_fill_def Start_def file_read_def Let_def)
next
  case (Some p)
  then show ?thesis using assms(1) that [of bc] coherentD(3) [OF assms(1) Some] by (simp add: Get_fill_def)
qed

lemma write_block:
  assumes "0 \<le> n" "n < int (length (dfile bc))"
  shows "bc_start BDEV_WRITE [(n, p)] (set_data n p bc) = Ok (set_data n p bc\<lparr>bc_disk := (bc_disk bc)\<lparr>df := (dfile bc)[nat n := p],
      dtrace := map_option (trace_write n p) (dtrace (bc_disk bc))\<rparr>\<rparr>)"
  using assms by (simp add: gfold_bc_start disk_write_def file_write_def set_data_def)

lemma write_block_coherent:
  assumes "coherent bc" "0 \<le> n" "n < int (length (dfile bc))"
  obtains bc' where "bc_start BDEV_WRITE [(n, p)] (set_data n p bc) = Ok bc'" "coherent bc'" "dfile bc' = (dfile bc)[nat n := p]"
proof -
  have "coherent (set_data n p bc\<lparr>bc_disk := (bc_disk bc)\<lparr>df := (dfile bc)[nat n := p], dtrace := x\<rparr>\<rparr>)" for x
    unfolding coherent_def
  proof (intro allI impI)
    fix m q assume c: "bc_cache (set_data n p bc\<lparr>bc_disk := (bc_disk bc)\<lparr>df := (dfile bc)[nat n := p], dtrace := x\<rparr>\<rparr>) m = Some q"
    show "0 \<le> m \<and> m < int (length (dfile (set_data n p bc\<lparr>bc_disk := (bc_disk bc)\<lparr>df := (dfile bc)[nat n := p], dtrace := x\<rparr>\<rparr>))) \<and>
        dfile (set_data n p bc\<lparr>bc_disk := (bc_disk bc)\<lparr>df := (dfile bc)[nat n := p], dtrace := x\<rparr>\<rparr>) ! nat m = q"
    proof (cases "m = n")
      case True
      then show ?thesis using c assms by (simp add: set_data_def nat_less_iff)
    next
      case False
      then have "bc_cache bc m = Some q" using c by (simp add: set_data_def)
      then have m: "0 \<le> m" "m < int (length (dfile bc))" "dfile bc ! nat m = q" using coherentD [OF assms(1)] by blast+
      then have "nat m \<noteq> nat n" using False assms(2) by (simp add: eq_nat_nat_iff)
      then show ?thesis using m by simp
    qed
  qed
  then show ?thesis using that write_block [OF assms(2,3), of p] by auto
qed

subsection \<open>Fields of descriptor blocks\<close>

definition fields :: "page \<Rightarrow> int \<Rightarrow> int list \<Rightarrow> bool" where
  "fields p j xs \<longleftrightarrow> (\<forall>i < length xs. fieldr p (j + int i) = Ok (xs ! i))"

lemma fields_Cons: "fields p j (x # xs) \<longleftrightarrow> fieldr p j = Ok x \<and> fields p (j + 1) xs"
  unfolding fields_def
proof (intro iffI conjI allI impI, goal_cases)
  case (2 i)
  then show ?case using 2(1) [rule_format, of "Suc i"] by (simp add: add.assoc)
next
  case (3 i)
  then show ?case by (cases i) (auto simp: add.assoc)
qed force

lemma fields_Nil [simp]: "fields p j []"
  by (simp add: fields_def)

lemma fields_append: "fields p j (xs @ ys) \<longleftrightarrow> fields p j xs \<and> fields p (j + int (length xs)) ys"
proof (induction xs arbitrary: j)
  case Nil
  then show ?case by (simp add: fields_def)
next
  case (Cons x xs)
  then show ?case by (auto simp: fields_Cons add.assoc)
qed

lemma r_logdest_field: "0 \<le> j \<Longrightarrow> j < maxtrans ml \<Longrightarrow> r_logdest (mkdescriptor ml p) j = fieldr p j"
  by (simp add: r_logdest_def mkdescriptor_def)

lemma revoke_records_fields:
  assumes "fields p k (rs @ [0])" "0 \<notin> set rs" "0 \<le> k" "k + int (length rs) < maxtrans ml" "length rs < n"
  shows "revoke_records n (mkdescriptor ml p) k = Ok rs"
  using assms
proof (induction rs arbitrary: k n)
  case Nil
  then show ?case by (cases n) (auto simp: fields_Cons r_logdest_field)
next
  case (Cons r rs)
  then obtain m where n: "n = Suc m" by (cases n) auto
  have "revoke_records m (mkdescriptor ml p) (k + 1) = Ok rs" using Cons.prems n by (intro Cons.IH) (auto simp: fields_Cons)
  then show ?case using Cons.prems by (auto simp: n fields_Cons r_logdest_field)
qed

subsection \<open>The install map\<close>

text \<open>The map as a list over the positions from the tail on.\<close>

definition im_rep :: "memlog_t \<Rightarrow> nat \<Rightarrow> int list \<Rightarrow> int list \<Rightarrow> bool" where
  "im_rep ml T im xs \<longleftrightarrow> 0 < loglen ml \<and> int (length im) = loglen ml \<and> int (length xs) \<le> loglen ml \<and> T + length xs < maxpos \<and>
     (\<forall>k < length xs. im ! spos ml (T + k) = xs ! k)"

lemma im_slot:
  assumes "im_rep ml T im xs" "k \<le> length xs"
  shows "logindex ml (of_nat (T + k)) = Ok (int (spos ml (T + k)))" "spos ml (T + k) < length im"
proof -
  have 0: "0 < loglen ml" "T + k < maxpos" "nat (loglen ml) = length im" using assms by (auto simp: im_rep_def)
  show "logindex ml (of_nat (T + k)) = Ok (int (spos ml (T + k)))" by (rule logindex_nat [OF 0(1,2)])
  show "spos ml (T + k) < length im" using spos_less [OF 0(1), of "T + k"] 0(3) by simp
qed

lemma im_rep_nth:
  assumes "im_rep ml T im xs" "k < length xs" "j < length xs"
  shows "spos ml (T + j) = spos ml (T + k) \<longleftrightarrow> j = k"
proof -
  have "length xs \<le> nat (loglen ml)" using assms(1) unfolding im_rep_def by linarith
  then show ?thesis using spos_window [of T "T + j" ml "T + k"] assms(2,3) by simp
qed

lemma im_rep_update:
  assumes "im_rep ml T im xs" "k < length xs"
  shows "im_rep ml T (im[spos ml (T + k) := v]) (xs[k := v])"
proof -
  have "(im[spos ml (T + k) := v]) ! spos ml (T + j) = (xs[k := v]) ! j" if "j < length xs" for j
    using im_rep_nth [OF assms that] im_slot(2) [OF assms(1), of k] assms that by (cases "j = k") (auto simp: im_rep_def)
  then show ?thesis using assms(1) by (simp add: im_rep_def)
qed

lemma im_rep_extend:
  assumes "im_rep ml T im xs" "int (length xs) < loglen ml" "Suc (T + length xs) < maxpos"
  shows "im_rep ml T (im[spos ml (T + length xs) := v]) (xs @ [v])"
proof -
  have "(im[spos ml (T + length xs) := v]) ! spos ml (T + j) = (xs @ [v]) ! j" if "j < Suc (length xs)" for j
  proof (cases "j = length xs")
    case True
    then show ?thesis using im_slot(2) [OF assms(1), of "length xs"] by simp
  next
    case False
    then have j: "j < length xs" using that by simp
    have "spos ml (T + j) \<noteq> spos ml (T + length xs)"
      using spos_window [of T "T + j" ml "T + length xs"] j assms(2) by simp
    then show ?thesis using assms(1) j by (simp add: im_rep_def nth_append)
  qed
  then show ?thesis using assms by (simp add: im_rep_def)
qed

lemma im_set_extend:
  assumes "im_rep ml T im xs" "int (length xs) < loglen ml" "Suc (T + length xs) < maxpos"
  obtains im' where "im_set ml (of_nat (T + length xs)) v im = Ok im'" "im_rep ml T im' (xs @ [v])"
proof -
  have "im_set ml (of_nat (T + length xs)) v im = Ok (im[spos ml (T + length xs) := v])"
    unfolding im_set_def im_slot(1) [OF assms(1) order_refl] gbind.simps
    using im_slot(2) [OF assms(1), of "length xs"] by simp
  then show ?thesis using that im_rep_extend [OF assms] by blast
qed

definition cancel_in :: "int list \<Rightarrow> int \<Rightarrow> int" where
  "cancel_in rs x = (if x \<in> set rs then - 2 else x)"

lemma cancel_in_comp [simp]: "cancel_in rs' (cancel_in rs x) = cancel_in (rs @ rs') x" "cancel_in [] x = x"
  by (auto simp: cancel_in_def)

lemma revoke_rep:
  assumes "im_rep ml T im xs" "t \<le> length xs"
  shows "\<exists>im'. revoke ml (of_nat T) (of_nat (T + t)) r im = Ok im' \<and> im_rep ml T im' (map (cancel_in [r]) (take t xs) @ drop t xs)"
proof -
  have "indices (of_nat T) (of_nat (T + t)) = map of_nat [T ..< T + t]"
    using assms by (intro indices_nat) (auto simp: im_rep_def)
  moreover have "\<exists>im'. gfold (\<lambda>i im. gbind (logindex ml i) (\<lambda>li. if li < 0 \<or> li \<ge> int (length im) then Panic ''index out of range''
      else Ok (if im ! nat li = r then im[nat li := - 2] else im))) (map of_nat [T ..< T + t]) im = Ok im' \<and>
      im_rep ml T im' (map (cancel_in [r]) (take t xs) @ drop t xs)"
    using assms(2)
  proof (induction t)
    case 0
    then show ?case using assms(1) by simp
  next
    case (Suc t)
    let ?xs = "map (cancel_in [r]) (take t xs) @ drop t xs"
    from Suc obtain im1 where im1: "gfold (\<lambda>i im. gbind (logindex ml i) (\<lambda>li. if li < 0 \<or> li \<ge> int (length im) then Panic ''index out of range''
      else Ok (if im ! nat li = r then im[nat li := - 2] else im))) (map of_nat [T ..< T + t]) im = Ok im1" and rep: "im_rep ml T im1 ?xs" by auto
    have t: "t < length ?xs" "?xs ! t = xs ! t" using Suc.prems by (simp_all add: nth_append)
    have v: "im1 ! spos ml (T + t) = xs ! t" using rep t by (simp add: im_rep_def)
    have e: "map (cancel_in [r]) (take (Suc t) xs) @ drop (Suc t) xs = ?xs[t := cancel_in [r] (xs ! t)]"
      using Suc.prems by (simp add: take_Suc_conv_app_nth list_update_append Cons_nth_drop_Suc [symmetric])
    have "im_rep ml T (if im1 ! spos ml (T + t) = r then im1[spos ml (T + t) := - 2] else im1) (?xs[t := cancel_in [r] (xs ! t)])"
    proof (cases "xs ! t = r")
      case True
      then show ?thesis using im_rep_update [OF rep t(1), of "- 2"] v by (simp add: cancel_in_def)
    next
      case False
      then have "?xs[t := cancel_in [r] (xs ! t)] = ?xs" using t(2) list_update_id [of ?xs t] by (simp add: cancel_in_def)
      then show ?thesis using False rep v by (simp only: if_False)
    qed
    moreover have "logindex ml (of_nat T + of_nat t) = Ok (int (spos ml (T + t)))" "\<not> length im1 \<le> spos ml (T + t)"
      using im_slot [OF rep, of t] Suc.prems by simp_all
    ultimately show ?case using im1 unfolding e by (auto simp: gfold_append split: if_splits)
  qed
  ultimately show ?thesis by (simp add: revoke_def)
qed

lemma revokes_rep:
  assumes "im_rep ml T im xs" "t \<le> length xs"
  shows "\<exists>im'. gfold (revoke ml (of_nat T) (of_nat (T + t))) rs im = Ok im' \<and> im_rep ml T im' (map (cancel_in rs) (take t xs) @ drop t xs)"
proof (induction rs rule: rev_induct)
  case Nil
  then show ?case using assms(1) by (simp add: map_idI)
next
  case (snoc r rs)
  obtain im1 where im1: "gfold (revoke ml (of_nat T) (of_nat (T + t))) rs im = Ok im1" "im_rep ml T im1 (map (cancel_in rs) (take t xs) @ drop t xs)"
    using snoc by blast
  let ?xs = "map (cancel_in rs) (take t xs) @ drop t xs"
  have t: "t \<le> length ?xs" "take t ?xs = map (cancel_in rs) (take t xs)" "drop t ?xs = drop t xs" using assms(2) by simp_all
  obtain im2 where "revoke ml (of_nat T) (of_nat (T + t)) r im1 = Ok im2" "im_rep ml T im2 (map (cancel_in [r]) (take t ?xs) @ drop t ?xs)"
    using revoke_rep [OF im1(2) t(1)] by blast
  then show ?case using im1(1) unfolding t(2,3) by (simp add: gfold_append comp_def)
qed

subsection \<open>Transactions on disk\<close>

datatype tx = Tx (tx_revs: "int list list") (tx_ws: "(int \<times> page) list")

definition tx_size :: "tx \<Rightarrow> nat" where
  "tx_size tx = 1 + length (tx_revs tx) + length (tx_ws tx)"

text \<open>A transaction whose block numbers and sizes fit: destinations are positive, and so are the revoked blocks.\<close>

definition tx_ok :: "memlog_t \<Rightarrow> tx \<Rightarrow> bool" where
  "tx_ok ml tx \<longleftrightarrow> int (tx_size tx) < maxtrans ml \<and> (\<forall>w \<in> set (tx_ws tx). 0 < fst w \<and> fst w < int maxpos) \<and>
     (\<forall>rs \<in> set (tx_revs tx). (\<forall>r \<in> set rs. 0 < r) \<and> int (length rs) + 1 < maxtrans ml)"

definition tx_at :: "memlog_t \<Rightarrow> (int \<Rightarrow> page) \<Rightarrow> nat \<Rightarrow> tx \<Rightarrow> bool" where
  "tx_at ml D a tx \<longleftrightarrow>
     fields (D (dpos ml a)) 1 (replicate (length (tx_revs tx)) (- 2) @ map fst (tx_ws tx) @ [0]) \<and>
     (\<forall>k < length (tx_revs tx). fields (D (dpos ml (a + 1 + k))) 1 (tx_revs tx ! k @ [0])) \<and>
     (\<forall>k < length (tx_ws tx). D (dpos ml (a + 1 + length (tx_revs tx) + k)) = snd (tx_ws tx ! k))"

fun txs_at :: "memlog_t \<Rightarrow> (int \<Rightarrow> page) \<Rightarrow> nat \<Rightarrow> tx list \<Rightarrow> bool" where
  "txs_at ml D a [] = True"
| "txs_at ml D a (tx # txs) = (tx_ok ml tx \<and> tx_at ml D a tx \<and> txs_at ml D (a + tx_size tx) txs)"

definition txs_size :: "tx list \<Rightarrow> nat" where
  "txs_size txs = sum_list (map tx_size txs)"

lemma txs_size_simps [simp]: "txs_size [] = 0" "txs_size (tx # txs) = tx_size tx + txs_size txs" "txs_size (txs @ txs') = txs_size txs + txs_size txs'"
  by (simp_all add: txs_size_def)

lemma txs_at_append: "txs_at ml D a (txs @ txs') \<longleftrightarrow> txs_at ml D a txs \<and> txs_at ml D (a + txs_size txs) txs'"
  by (induction txs arbitrary: a) (auto simp: add.assoc)

text \<open>What \<open>installmap\<close> computes: later transactions cancel earlier entries for the blocks they revoke.\<close>

fun imap :: "tx list \<Rightarrow> int list \<Rightarrow> int list" where
  "imap [] xs = xs"
| "imap (tx # txs) xs =
     imap txs (map (cancel_in (concat (tx_revs tx))) xs @ replicate (1 + length (tx_revs tx)) (- 2) @ map fst (tx_ws tx))"

lemma length_imap [simp]: "length (imap txs xs) = length xs + txs_size txs"
  by (induction txs arbitrary: xs) (auto simp: tx_size_def)

definition in_log :: "memlog_t \<Rightarrow> bcache_t \<Rightarrow> bool" where
  "in_log ml bc \<longleftrightarrow> coherent bc \<and> 0 < loglen ml \<and> 0 \<le> logstart ml \<and> logstart ml + loglen ml < int (length (dfile bc))"

abbreviation dview :: "bcache_t \<Rightarrow> int \<Rightarrow> page" where "dview bc n \<equiv> dfile bc ! nat n"

lemma dpos_range: "0 < loglen ml \<Longrightarrow> logstart ml < dpos ml a \<and> dpos ml a \<le> logstart ml + loglen ml"
  using spos_less [of ml a] by (auto simp: dpos_def)

lemma readdescriptor_log:
  assumes "in_log ml bc" "a < maxpos"
  obtains bc' where "readdescriptor ml (of_nat a) bc = Ok (mkdescriptor ml (dview bc (dpos ml a)), bc')" "in_log ml bc'" "bc_disk bc' = bc_disk bc"
proof -
  have "0 < loglen ml" "0 \<le> dpos ml a" "dpos ml a < int (length (dfile bc))" "coherent bc"
    using assms(1) dpos_range [of ml a] by (auto simp: in_log_def)
  then obtain bc' where "Get_fill (dpos ml a) bc = Ok (dview bc (dpos ml a), bc')" "coherent bc'" "bc_disk bc' = bc_disk bc"
    using Get_fill_coherent by blast
  then show ?thesis using that assms by (simp add: readdescriptor_def diskindex_nat in_log_def)
qed

lemma im_dests_rep:
  assumes "im_rep ml T im xs" "fields p j (ds @ [0])" "0 \<notin> set ds" "0 \<le> j" "j + int (length ds) < maxtrans ml" "length ds < n"
    "int (length xs + length ds) \<le> loglen ml" "Suc (T + length xs + length ds) < maxpos"
  shows "\<exists>im'. im_dests n ml (mkdescriptor ml p) (of_nat (T + length xs)) j im = Ok (of_nat (T + length xs + length ds), im') \<and>
    im_rep ml T im' (xs @ ds)"
  using assms
proof (induction ds arbitrary: n j im xs)
  case Nil
  then show ?case by (cases n) (auto simp: fields_Cons r_logdest_field)
next
  case (Cons d ds)
  obtain m where n: "n = Suc m" using Cons.prems by (cases n) auto
  have sz: "int (length xs) < loglen ml" "Suc (T + length xs) < maxpos" using Cons.prems by auto
  obtain im1 where im1: "im_set ml (of_nat (T + length xs)) d im = Ok im1" "im_rep ml T im1 (xs @ [d])"
    using im_set_extend [OF Cons.prems(1) sz] .
  have "\<exists>im'. im_dests m ml (mkdescriptor ml p) (of_nat (T + length (xs @ [d]))) (j + 1) im1 =
      Ok (of_nat (T + length (xs @ [d]) + length ds), im') \<and> im_rep ml T im' ((xs @ [d]) @ ds)"
    using Cons.prems n im1(2) by (intro Cons.IH) (auto simp: fields_Cons)
  moreover have "r_logdest (mkdescriptor ml p) j = Ok d" "d \<noteq> 0" using Cons.prems by (auto simp: fields_Cons r_logdest_field)
  moreover have "(of_nat (T + length xs) :: index_t) + 1 = of_nat (T + length (xs @ [d]))" by (simp add: add.commute add.left_commute)
  ultimately show ?case using im1(1) unfolding n im_dests.simps by (simp add: add_ac)
qed

lemma im_revokes_rep:
  assumes "in_log ml bc" "im_rep ml T im xs" "t + j = length xs" "0 < j" "fields p (int j) (replicate (length revs) (- 2) @ [d])" "d \<noteq> - 2"
    "\<forall>k < length revs. fields (dview bc (dpos ml (T + length xs + k))) 1 (revs ! k @ [0])"
    "\<forall>rs \<in> set revs. 0 \<notin> set rs \<and> int (length rs) + 1 < maxtrans ml"
    "int (j + length revs) < maxtrans ml" "length revs < n"
    "int (length xs + length revs) \<le> loglen ml" "Suc (T + length xs + length revs) < maxpos"
  shows "\<exists>im' bc'. im_revokes n ml (of_nat T) (of_nat (T + t)) (mkdescriptor ml p) (of_nat (T + length xs)) (int j) im bc =
      Ok (of_nat (T + length xs + length revs), int (j + length revs), im', bc') \<and> in_log ml bc' \<and> bc_disk bc' = bc_disk bc \<and>
    im_rep ml T im' (map (cancel_in (concat revs)) (take t xs) @ drop t xs @ replicate (length revs) (- 2))"
  using assms
proof (induction revs arbitrary: n j im xs bc)
  case Nil
  then obtain m where n: "n = Suc m" by (cases n) auto
  have "r_logdest (mkdescriptor ml p) (int j) = Ok d" using Nil.prems by (simp add: fields_Cons r_logdest_field)
  then show ?case using Nil.prems n by (simp add: map_idI)
next
  case (Cons rs revs)
  obtain m where n: "n = Suc m" using Cons.prems by (cases n) auto
  have sz: "int (length xs) < loglen ml" "Suc (T + length xs) < maxpos" "T + length xs < maxpos" using Cons.prems by auto
  obtain bc1 where bc1: "readdescriptor ml (of_nat (T + length xs)) bc = Ok (mkdescriptor ml (dview bc (dpos ml (T + length xs))), bc1)"
      "in_log ml bc1" "bc_disk bc1 = bc_disk bc"
    using readdescriptor_log [OF Cons.prems(1) sz(3)] .
  obtain im1 where im1: "im_set ml (of_nat (T + length xs)) (- 2) im = Ok im1" "im_rep ml T im1 (xs @ [- 2])"
    using im_set_extend [OF Cons.prems(2) sz(1,2)] .
  have recs: "revoke_records (nat (maxtrans ml)) (mkdescriptor ml (dview bc (dpos ml (T + length xs)))) 1 = Ok rs"
    using Cons.prems(7) [rule_format, of 0] Cons.prems(8) by (intro revoke_records_fields) auto
  have t: "t \<le> length xs" using Cons.prems(3) by simp
  obtain im2 where im2: "gfold (revoke ml (of_nat T) (of_nat (T + t))) rs im1 = Ok im2"
      "im_rep ml T im2 (map (cancel_in rs) (take t xs) @ drop t xs @ [- 2])"
    using revokes_rep [OF im1(2), of t rs] t by auto
  let ?xs = "map (cancel_in rs) (take t xs) @ drop t xs @ [- 2]"
  have len: "length ?xs = length xs + 1" using t by simp
  have f: "\<forall>k < length revs. fields (dview bc1 (dpos ml (T + length ?xs + k))) 1 (revs ! k @ [0])"
  proof (intro allI impI)
    fix k assume "k < length revs"
    then show "fields (dview bc1 (dpos ml (T + length ?xs + k))) 1 (revs ! k @ [0])"
      using Cons.prems(7) [rule_format, of "Suc k"] unfolding len bc1(3) by simp
  qed
  have "\<exists>im' bc'. im_revokes m ml (of_nat T) (of_nat (T + t)) (mkdescriptor ml p) (of_nat (T + length ?xs)) (int (j + 1)) im2 bc1 =
      Ok (of_nat (T + length ?xs + length revs), int (j + 1 + length revs), im', bc') \<and> in_log ml bc' \<and> bc_disk bc' = bc_disk bc1 \<and>
      im_rep ml T im' (map (cancel_in (concat revs)) (take t ?xs) @ drop t ?xs @ replicate (length revs) (- 2))"
    using Cons.prems n bc1(2) im2(2) f len by (intro Cons.IH) (auto simp: fields_Cons add.commute)
  then obtain im' bc' where rest: "im_revokes m ml (of_nat T) (of_nat (T + t)) (mkdescriptor ml p) (of_nat (T + length ?xs)) (int (j + 1)) im2 bc1 =
      Ok (of_nat (T + length ?xs + length revs), int (j + 1 + length revs), im', bc')" "in_log ml bc'" "bc_disk bc' = bc_disk bc1"
      and rep: "im_rep ml T im' (map (cancel_in (concat revs)) (take t ?xs) @ drop t ?xs @ replicate (length revs) (- 2))" by blast
  have eql: "map (cancel_in (concat revs)) (take t ?xs) @ drop t ?xs @ replicate (length revs) (- 2) =
      map (cancel_in (concat (rs # revs))) (take t xs) @ drop t xs @ replicate (length (rs # revs)) (- 2)"
    using t by (simp add: comp_def replicate_app_Cons_same)
  have "im_rep ml T im' (map (cancel_in (concat (rs # revs))) (take t xs) @ drop t xs @ replicate (length (rs # revs)) (- 2))"
    using rep unfolding eql .
  moreover have "r_logdest (mkdescriptor ml p) (int j) = Ok (- 2)" using Cons.prems by (simp add: fields_Cons r_logdest_field)
  moreover have "(of_nat (T + t) :: index_t) + of_int (int j) = of_nat (T + length xs)"
    using Cons.prems(3) by (simp flip: of_nat_add add: add.assoc)
  moreover have "(of_nat (T + length xs) :: index_t) + 1 = of_nat (T + length ?xs)" unfolding len by (simp add: add_ac)
  moreover have "int j + 1 = int (j + 1)" by simp
  ultimately show ?case using rest im1(1) im2(1) bc1 recs unfolding n im_revokes.simps len by (simp add: add_ac)
qed

definition im_step :: "tx \<Rightarrow> int list \<Rightarrow> int list" where
  "im_step tx xs = map (cancel_in (concat (tx_revs tx))) xs @ replicate (1 + length (tx_revs tx)) (- 2) @ map fst (tx_ws tx)"

lemma im_trans_rep:
  assumes "in_log ml bc" "im_rep ml T im xs" "tx_ok ml tx" "tx_at ml (dview bc) (T + length xs) tx"
    "int (length xs + tx_size tx) \<le> loglen ml" "Suc (T + length xs + tx_size tx) < maxpos"
  shows "\<exists>im' bc'. im_trans ml (of_nat T) (of_nat (T + length xs)) im bc = Ok (of_nat (T + length xs + tx_size tx), im', bc') \<and>
    in_log ml bc' \<and> bc_disk bc' = bc_disk bc \<and> im_rep ml T im' (im_step tx xs)"
proof -
  let ?m = "length (tx_revs tx)" and ?p = "dview bc (dpos ml (T + length xs))" and ?ws = "map fst (tx_ws tx)"
  have fp: "fields ?p 1 (replicate ?m (- 2) @ ?ws @ [0])"
    and fr: "\<And>k. k < ?m \<Longrightarrow> fields (dview bc (dpos ml (T + length xs + 1 + k))) 1 (tx_revs tx ! k @ [0])"
    using assms(4) by (auto simp: tx_at_def)
  have pos: "\<forall>w \<in> set ?ws. 0 < w" "\<forall>rs \<in> set (tx_revs tx). 0 \<notin> set rs \<and> int (length rs) + 1 < maxtrans ml" "int (1 + ?m + length ?ws) < maxtrans ml"
    using assms(3) by (auto simp: tx_ok_def tx_size_def)
  have sz: "int (length xs) < loglen ml" "Suc (T + length xs) < maxpos" "T + length xs < maxpos" using assms(5,6) by (auto simp: tx_size_def)
  obtain bc1 where bc1: "readdescriptor ml (of_nat (T + length xs)) bc = Ok (mkdescriptor ml ?p, bc1)" "in_log ml bc1" "bc_disk bc1 = bc_disk bc"
    using readdescriptor_log [OF assms(1) sz(3)] .
  obtain im1 where im1: "im_set ml (of_nat (T + length xs)) (- 2) im = Ok im1" "im_rep ml T im1 (xs @ [- 2])"
    using im_set_extend [OF assms(2) sz(1,2)] .
  obtain d rest where d: "?ws @ [0] = d # rest" by (cases "?ws @ [0]") auto
  have dn: "d \<noteq> - 2" using d pos(1) by (cases ?ws) auto
  have f1: "fields ?p (int 1) (replicate ?m (- 2) @ [d])" using fp unfolding d by (simp add: fields_append fields_Cons)
  have f2: "fields ?p (int (1 + ?m)) (?ws @ [0])" using fp by (simp add: fields_append)
  have "\<exists>im' bc'. im_revokes (nat (maxtrans ml)) ml (of_nat T) (of_nat (T + length xs)) (mkdescriptor ml ?p) (of_nat (T + length (xs @ [- 2]))) (int 1) im1 bc1 =
      Ok (of_nat (T + length (xs @ [- 2]) + ?m), int (1 + ?m), im', bc') \<and> in_log ml bc' \<and> bc_disk bc' = bc_disk bc1 \<and>
      im_rep ml T im' (map (cancel_in (concat (tx_revs tx))) (take (length xs) (xs @ [- 2])) @ drop (length xs) (xs @ [- 2]) @ replicate ?m (- 2))"
    using pos sz assms(5,6) fr bc1 f1 dn im1(2) by (intro im_revokes_rep) (auto simp: tx_size_def)
  then obtain im2 bc2 where im2: "im_revokes (nat (maxtrans ml)) ml (of_nat T) (of_nat (T + length xs)) (mkdescriptor ml ?p) (of_nat (T + length (xs @ [- 2]))) (int 1) im1 bc1 =
      Ok (of_nat (T + length (xs @ [- 2]) + ?m), int (1 + ?m), im2, bc2)" "in_log ml bc2" "bc_disk bc2 = bc_disk bc"
      and rep2: "im_rep ml T im2 (map (cancel_in (concat (tx_revs tx))) xs @ replicate (1 + ?m) (- 2))"
    using bc1(3) by auto
  let ?xs = "map (cancel_in (concat (tx_revs tx))) xs @ replicate (1 + ?m) (- 2)"
  have len: "length ?xs = length xs + 1 + ?m" by simp
  have "\<exists>im'. im_dests (nat (maxtrans ml)) ml (mkdescriptor ml ?p) (of_nat (T + length ?xs)) (int (1 + ?m)) im2 =
      Ok (of_nat (T + length ?xs + length ?ws), im') \<and> im_rep ml T im' (?xs @ ?ws)"
    using pos assms(5,6) f2 rep2 by (intro im_dests_rep) (auto simp: tx_size_def)
  then obtain im' where im': "im_dests (nat (maxtrans ml)) ml (mkdescriptor ml ?p) (of_nat (T + length ?xs)) (int (1 + ?m)) im2 =
      Ok (of_nat (T + length ?xs + length ?ws), im')" "im_rep ml T im' (?xs @ ?ws)" by blast
  have e: "(of_nat (T + length xs) :: index_t) + 1 = of_nat (T + length (xs @ [- 2]))" by (simp add: add_ac)
  have e2: "T + length (xs @ [- 2]) + ?m = T + length ?xs" "T + length ?xs + length ?ws = T + length xs + tx_size tx" by (simp_all add: tx_size_def)
  have "im_trans ml (of_nat T) (of_nat (T + length xs)) im bc = Ok (of_nat (T + length xs + tx_size tx), im', bc2)"
    using bc1(1) im1(1) im2(1) im'(1) unfolding im_trans_def e e2 by (simp only: gbind.simps case_prod_conv of_nat_1)
  then show ?thesis using im2(2,3) im'(2) by (auto simp: im_step_def)
qed

lemma im_loop_rep:
  assumes "in_log ml bc" "im_rep ml T im xs" "txs_at ml (dview bc) (T + length xs) txs" "length txs < n"
    "int (length xs + txs_size txs) \<le> loglen ml" "Suc (T + length xs + txs_size txs) < maxpos"
  shows "\<exists>im' bc'. im_loop n ml (of_nat T) (of_nat (T + length xs + txs_size txs)) (of_nat (T + length xs)) im bc = Some (Ok (im', bc')) \<and>
    in_log ml bc' \<and> bc_disk bc' = bc_disk bc \<and> im_rep ml T im' (imap txs xs)"
  using assms
proof (induction txs arbitrary: n im xs bc)
  case Nil
  then show ?case by (cases n) auto
next
  case (Cons tx txs)
  obtain m where n: "n = Suc m" using Cons.prems by (cases n) auto
  have len: "length (im_step tx xs) = length xs + tx_size tx" by (simp add: im_step_def tx_size_def)
  have tx: "tx_ok ml tx" "tx_at ml (dview bc) (T + length xs) tx" "0 < tx_size tx" using Cons.prems(3) by (auto simp: tx_size_def)
  have sz: "int (length xs + tx_size tx) \<le> loglen ml" "Suc (T + length xs + tx_size tx) < maxpos" using Cons.prems(5,6) by auto
  obtain im1 bc1 where im1: "im_trans ml (of_nat T) (of_nat (T + length xs)) im bc = Ok (of_nat (T + length xs + tx_size tx), im1, bc1)"
      "in_log ml bc1" "bc_disk bc1 = bc_disk bc" "im_rep ml T im1 (im_step tx xs)"
    using im_trans_rep [OF Cons.prems(1,2) tx(1,2) sz] by blast
  have "(of_nat (T + length xs) :: index_t) \<noteq> of_nat (T + length xs + txs_size (tx # txs))"
  proof
    assume "(of_nat (T + length xs) :: index_t) = of_nat (T + length xs + txs_size (tx # txs))"
    then have "unat (of_nat (T + length xs) :: index_t) = unat (of_nat (T + length xs + txs_size (tx # txs)) :: index_t)" by (rule arg_cong)
    then have "T + length xs = T + length xs + txs_size (tx # txs)"
      using unat_of_nat_small [of "T + length xs"] unat_of_nat_small [of "T + length xs + txs_size (tx # txs)"] Cons.prems(6) by linarith
    then show False using tx(3) by simp
  qed
  then have "im_loop n ml (of_nat T) (of_nat (T + length xs + txs_size (tx # txs))) (of_nat (T + length xs)) im bc =
      im_loop m ml (of_nat T) (of_nat (T + length (im_step tx xs) + txs_size txs)) (of_nat (T + length (im_step tx xs))) im1 bc1"
    unfolding n im_loop.simps len using im1(1) by (simp add: add_ac)
  moreover have "\<exists>im' bc'. im_loop m ml (of_nat T) (of_nat (T + length (im_step tx xs) + txs_size txs)) (of_nat (T + length (im_step tx xs))) im1 bc1 =
      Some (Ok (im', bc')) \<and> in_log ml bc' \<and> bc_disk bc' = bc_disk bc1 \<and> im_rep ml T im' (imap txs (im_step tx xs))"
    using Cons.prems n im1(2-4) len by (intro Cons.IH) (auto simp: add.assoc)
  ultimately show ?case using im1(3) by (simp add: im_step_def)
qed

lemma txs_size_ge: "length txs \<le> txs_size txs"
  by (induction txs) (auto simp: tx_size_def)

lemma installmap_rep:
  assumes "in_log ml bc" "txs_at ml (dview bc) T txs" "int (txs_size txs) \<le> loglen ml" "Suc (T + txs_size txs) < maxpos"
  shows "\<exists>im bc'. installmap ml (of_nat T) (of_nat (T + txs_size txs)) bc = Some (Ok (im, bc')) \<and>
    in_log ml bc' \<and> bc_disk bc' = bc_disk bc \<and> im_rep ml T im (imap txs [])"
proof -
  have l: "0 < loglen ml" using assms(1) by (simp add: in_log_def)
  have "unat ((of_nat (T + txs_size txs) :: index_t) - of_nat T) = txs_size txs"
    using assms(4) unat_of_nat_small [of "txs_size txs"] by simp
  then have n: "length txs < Suc (unat ((of_nat (T + txs_size txs) :: index_t) - of_nat T))" using txs_size_ge [of txs] by simp
  have "im_rep ml T (replicate (nat (loglen ml)) 0) []" using l assms(4) by (simp add: im_rep_def)
  from im_loop_rep [OF assms(1) this _ n] show ?thesis using assms l by (simp add: installmap_def)
qed

subsection \<open>What recovery installs\<close>

definition upd_all :: "(int \<times> page) list \<Rightarrow> page list \<Rightarrow> page list" where
  "upd_all ws f = fold (\<lambda>(n, p) f. f[nat n := p]) ws f"

lemma upd_all_simps [simp]:
  "upd_all [] f = f" "upd_all (w # ws) f = upd_all ws (f[nat (fst w) := snd w])" "upd_all (ws @ ws') f = upd_all ws' (upd_all ws f)"
  "length (upd_all ws f) = length f"
proof -
  show "length (upd_all ws f) = length f" unfolding upd_all_def by (induction ws arbitrary: f) (auto simp: case_prod_unfold)
qed (simp_all add: upd_all_def case_prod_unfold)

lemma upd_all_other: "nat n \<notin> nat ` fst ` set ws \<Longrightarrow> upd_all ws f ! nat n = f ! nat n"
  by (induction ws arbitrary: f) auto

text \<open>
  The abstract journal: the writes of the transactions in order, where a transaction first removes
  the earlier writes of the blocks it revokes.
\<close>

definition journal_step :: "(int \<times> page) list \<Rightarrow> tx \<Rightarrow> (int \<times> page) list" where
  "journal_step ws tx = filter (\<lambda>w. fst w \<notin> set (concat (tx_revs tx))) ws @ tx_ws tx"

definition journal :: "tx list \<Rightarrow> (int \<times> page) list" where
  "journal txs = foldl journal_step [] txs"

abbreviation live :: "(int \<times> page) list \<Rightarrow> (int \<times> page) list" where
  "live ws \<equiv> filter (\<lambda>w. fst w \<noteq> - 2) ws"

lemma live_cancel:
  "length xs = length ss \<Longrightarrow> live (zip (map (cancel_in rs) xs) ss) = filter (\<lambda>w. fst w \<notin> set rs) (live (zip xs ss))"
  by (induction xs ss rule: list_induct2) (auto simp: cancel_in_def)

lemma live_replicate: "live (zip (replicate n (- 2)) ss) = []"
  by (auto simp: filter_empty_conv dest: set_zip_leftD)

lemma map_upt_add: "map f [0 ..< a + b] = map f [0 ..< a] @ map (\<lambda>k. f (a + k)) [0 ..< b]"
  by (rule nth_equalityI) (auto simp: nth_append)

lemma tx_slots:
  assumes "tx_ok ml tx" "tx_at ml D a tx" "length ss = length xs"
  shows "live (zip (im_step tx xs) (ss @ map (\<lambda>k. D (dpos ml (a + k))) [0 ..< tx_size tx])) = journal_step (live (zip xs ss)) tx"
proof -
  let ?m = "length (tx_revs tx)"
  have ws: "zip (map fst (tx_ws tx)) (map (\<lambda>k. D (dpos ml (a + (1 + ?m + k)))) [0 ..< length (tx_ws tx)]) = tx_ws tx"
    using assms(2) by (intro nth_equalityI) (auto simp: tx_at_def prod_eq_iff add.assoc)
  have pos: "live (tx_ws tx) = tx_ws tx" using assms(1) by (force simp: tx_ok_def filter_id_conv)
  show ?thesis
    unfolding im_step_def tx_size_def map_upt_add [of _ "1 + ?m"] journal_step_def
    using assms(3) by (simp add: zip_append live_cancel live_replicate ws [simplified] pos del: upt_Suc replicate.simps)
qed

lemma imap_journal:
  assumes "txs_at ml D (T + length xs) txs" "length ss = length xs"
  shows "live (zip (imap txs xs) (ss @ map (\<lambda>k. D (dpos ml (T + length xs + k))) [0 ..< txs_size txs])) =
    foldl journal_step (live (zip xs ss)) txs"
  using assms
proof (induction txs arbitrary: xs ss)
  case (Cons tx txs)
  let ?ss = "ss @ map (\<lambda>k. D (dpos ml (T + length xs + k))) [0 ..< tx_size tx]"
  have len: "length (im_step tx xs) = length xs + tx_size tx" by (simp add: im_step_def tx_size_def)
  have "live (zip (imap txs (im_step tx xs)) (?ss @ map (\<lambda>k. D (dpos ml (T + length (im_step tx xs) + k))) [0 ..< txs_size txs])) =
      foldl journal_step (live (zip (im_step tx xs) ?ss)) txs"
    using Cons.prems len by (intro Cons.IH) (auto simp: add.assoc)
  also have "live (zip (im_step tx xs) ?ss) = journal_step (live (zip xs ss)) tx"
    using Cons.prems by (intro tx_slots) auto
  finally show ?case unfolding len txs_size_simps map_upt_add by (simp add: add.assoc im_step_def)
qed simp

definition dest_ok :: "memlog_t \<Rightarrow> bcache_t \<Rightarrow> int \<Rightarrow> bool" where
  "dest_ok ml bc x \<longleftrightarrow> 0 \<le> x \<and> x < int (length (dfile bc)) \<and> \<not> (logstart ml \<le> x \<and> x \<le> logstart ml + loglen ml)"

lemma install_iter_canceled:
  assumes "im_rep ml T im xs" "k < length xs" "xs ! k = - 2"
  shows "install_iter ml im (of_nat (T + k)) bc = Ok bc"
  using assms im_slot [OF assms(1), of k] by (simp add: install_iter_def im_rep_def)

lemma install_iter_write:
  assumes "im_rep ml T im xs" "k < length xs" "xs ! k \<noteq> - 2" "in_log ml bc" "dest_ok ml bc (xs ! k)"
  obtains bc' where "install_iter ml im (of_nat (T + k)) bc = Ok bc'" "in_log ml bc'"
    "dfile bc' = (dfile bc)[nat (xs ! k) := dview bc (dpos ml (T + k))]"
proof -
  have k: "k \<le> length xs" "T + k < maxpos" using assms(1,2) by (auto simp: im_rep_def)
  have l: "coherent bc" "0 < loglen ml" "0 \<le> dpos ml (T + k)" "dpos ml (T + k) < int (length (dfile bc))"
    using assms(4) dpos_range [of ml "T + k"] by (auto simp: in_log_def)
  have x: "0 \<le> xs ! k" "xs ! k < int (length (dfile bc))" using assms(5) by (auto simp: dest_ok_def)
  obtain bc1 where bc1: "Get_fill (dpos ml (T + k)) bc = Ok (dview bc (dpos ml (T + k)), bc1)" "coherent bc1" "bc_disk bc1 = bc_disk bc"
    using Get_fill_coherent [OF l(1,3,4)] .
  obtain bc2 where bc2: "Get_fill (xs ! k) bc1 = Ok (dview bc1 (xs ! k), bc2)" "coherent bc2" "bc_disk bc2 = bc_disk bc1"
    using Get_fill_coherent [OF bc1(2), of "xs ! k"] x bc1(3) by auto
  obtain bc3 where bc3: "bc_start BDEV_WRITE [(xs ! k, dview bc (dpos ml (T + k)))] (set_data (xs ! k) (dview bc (dpos ml (T + k))) bc2) = Ok bc3"
      "coherent bc3" "dfile bc3 = (dfile bc2)[nat (xs ! k) := dview bc (dpos ml (T + k))]"
    using write_block_coherent [OF bc2(2), of "xs ! k"] x bc1(3) bc2(3) by auto
  have im: "im ! spos ml (T + k) = xs ! k" "int (spos ml (T + k)) < int (length im)"
    using assms(1,2) im_slot(2) [OF assms(1) k(1)] by (auto simp: im_rep_def)
  have "install_iter ml im (of_nat (T + k)) bc = Ok bc3"
    unfolding install_iter_def im_slot(1) [OF assms(1) k(1)] diskindex_nat [OF l(2) k(2)]
    using im assms(3) bc1(1) bc2(1) bc3(1) by (simp add: bc_Write_def)
  then show ?thesis using that bc3 assms(4) bc1(3) bc2(3) by (simp add: in_log_def)
qed

lemma gfold_Nil_Ok [simp]: "gfold f [] = Ok"
  by (rule ext) simp

lemma install_loop:
  assumes "im_rep ml T im xs" "in_log ml bc" "\<forall>x \<in> set xs. x = - 2 \<or> dest_ok ml bc x" "n \<le> length xs"
  shows "\<exists>bc'. gfold (install_iter ml im) (map of_nat [T ..< T + n]) bc = Ok bc' \<and> in_log ml bc' \<and>
    dfile bc' = upd_all (live (zip (take n xs) (map (\<lambda>k. dview bc (dpos ml (T + k))) [0 ..< n]))) (dfile bc)"
  using assms(4)
proof (induction n)
  case 0
  then show ?case using assms(2) by simp
next
  case (Suc n)
  let ?ws = "\<lambda>n. live (zip (take n xs) (map (\<lambda>k. dview bc (dpos ml (T + k))) [0 ..< n]))"
  obtain bc1 where bc1: "gfold (install_iter ml im) (map of_nat [T ..< T + n]) bc = Ok bc1" "in_log ml bc1" "dfile bc1 = upd_all (?ws n) (dfile bc)"
    using Suc by auto
  have n: "n < length xs" using Suc.prems by simp
  have ws: "?ws (Suc n) = ?ws n @ live [(xs ! n, dview bc (dpos ml (T + n)))]"
    using n by (simp add: take_Suc_conv_app_nth)
  have fold: "gfold (install_iter ml im) (map of_nat [T ..< T + Suc n]) bc = install_iter ml im (of_nat (T + n)) bc1"
    using bc1(1) by (simp add: gfold_append)
  show ?case
  proof (cases "xs ! n = - 2")
    case True
    then show ?thesis using bc1 ws install_iter_canceled [OF assms(1) n True, of bc1] unfolding fold by simp
  next
    case False
    have d: "dest_ok ml bc1 (xs ! n)" using assms(3) n False bc1(3) by (auto simp: dest_ok_def)
    obtain bc2 where bc2: "install_iter ml im (of_nat (T + n)) bc1 = Ok bc2" "in_log ml bc2"
        "dfile bc2 = (dfile bc1)[nat (xs ! n) := dview bc1 (dpos ml (T + n))]"
      using install_iter_write [OF assms(1) n False bc1(2) d] .
    have r: "logstart ml < dpos ml (T + n)" "dpos ml (T + n) \<le> logstart ml + loglen ml" "0 \<le> logstart ml"
      using assms(2) dpos_range [of ml "T + n"] by (auto simp: in_log_def)
    have "nat (dpos ml (T + n)) \<notin> nat ` fst ` set (?ws n)"
    proof
      assume "nat (dpos ml (T + n)) \<in> nat ` fst ` set (?ws n)"
      then obtain x where x: "x \<in> set xs" "x \<noteq> - 2" "nat x = nat (dpos ml (T + n))"
        by (auto dest!: set_zip_leftD in_set_takeD)
      then have "dest_ok ml bc x" using assms(3) by auto
      then show False using x(3) r by (auto simp: dest_ok_def)
    qed
    then have "dview bc1 (dpos ml (T + n)) = dview bc (dpos ml (T + n))" unfolding bc1(3) by (rule upd_all_other)
    then show ?thesis using bc1(3) bc2 False unfolding fold ws by simp
  qed
qed

subsection \<open>The header\<close>

lemma write_header_field:
  assumes "page_ok p"
  shows "\<exists>q. w_tail p t = Ok q \<and> page_ok q \<and> r_tail q = Ok t \<and> r_head q = r_head p"
    "\<exists>q. w_head p t = Ok q \<and> page_ok q \<and> r_head q = Ok t \<and> r_tail q = r_tail p"
proof -
  obtain q where q: "fieldw p LOG_START (sint t) = Ok q" using fs.wr_total [OF assms, of LOG_START] by (auto simp: LOG_START_def)
  then show "\<exists>q. w_tail p t = Ok q \<and> page_ok q \<and> r_tail q = Ok t \<and> r_head q = r_head p"
    using fs.wr_okp [OF q assms] fs.rd_wr_same [OF q] fs.rd_wr_other [OF q, of LOG_END]
    by (auto simp: w_tail_def r_tail_def r_head_def i64_sint LOG_START_def LOG_END_def)
  obtain q where q: "fieldw p LOG_END (sint t) = Ok q" using fs.wr_total [OF assms, of LOG_END] by (auto simp: LOG_END_def)
  then show "\<exists>q. w_head p t = Ok q \<and> page_ok q \<and> r_head q = Ok t \<and> r_tail q = r_tail p"
    using fs.wr_okp [OF q assms] fs.rd_wr_same [OF q] fs.rd_wr_other [OF q, of LOG_START]
    by (auto simp: w_head_def r_tail_def r_head_def i64_sint LOG_START_def LOG_END_def)
qed

abbreviation bctrace :: "bcache_t \<Rightarrow> record_t list option" where "bctrace bc \<equiv> dtrace (bc_disk bc)"

lemma flush_Ok:
  obtains bc' where "ml_flush bc = Ok bc'" "bc_cache bc' = bc_cache bc" "dfile bc' = dfile bc" "bctrace bc' = map_option trace_sync (bctrace bc)"
    "coherent bc' = coherent bc"
  using that [of "bc\<lparr>bc_disk := disk_flush (bc_disk bc)\<rparr>"] by (simp add: ml_flush_def bc_start_def Start_def disk_flush_def coherent_def)

lemma write_header:
  assumes "in_log ml bc" "page_ok q"
  obtains bc' where "gbind (Write_async (logstart ml, q) (set_data (logstart ml) q bc)) ml_flush = Ok bc'" "in_log ml bc'"
    "dfile bc' = (dfile bc)[nat (logstart ml) := q]" "bctrace bc' = map_option (\<lambda>t. trace_sync (trace_write (logstart ml) q t)) (bctrace bc)"
proof -
  have l: "coherent bc" "0 \<le> logstart ml" "logstart ml < int (length (dfile bc))" "0 < loglen ml" using assms(1) by (auto simp: in_log_def)
  obtain bc1 where bc1: "bc_start BDEV_WRITE [(logstart ml, q)] (set_data (logstart ml) q bc) = Ok bc1" "coherent bc1"
      "dfile bc1 = (dfile bc)[nat (logstart ml) := q]"
    using write_block_coherent [OF l(1-3)] .
  have t1: "bctrace bc1 = map_option (trace_write (logstart ml) q) (bctrace bc)"
    using bc1(1) write_block [OF l(2,3), of q] by auto
  obtain bc2 where "ml_flush bc1 = Ok bc2" "dfile bc2 = dfile bc1" "bctrace bc2 = map_option trace_sync (bctrace bc1)" "coherent bc2 = coherent bc1"
    using flush_Ok by blast
  then show ?thesis using that [of bc2] bc1 t1 assms(1) by (simp add: Write_async_def in_log_def option.map_comp comp_def)
qed

lemma readhdr_Ok:
  assumes "in_log ml bc"
  obtains bc' where "readhdr ml bc = Ok (dview bc (logstart ml), bc')" "in_log ml bc'" "bc_disk bc' = bc_disk bc"
proof -
  have "coherent bc" "0 \<le> logstart ml" "logstart ml < int (length (dfile bc))" using assms by (auto simp: in_log_def)
  then obtain bc' where "Get_fill (logstart ml) bc = Ok (dview bc (logstart ml), bc')" "coherent bc'" "bc_disk bc' = bc_disk bc"
    using Get_fill_coherent by blast
  then show ?thesis using that assms by (simp add: readhdr_def in_log_def)
qed

lemma commit_tail_Ok:
  assumes "in_log ml bc" "page_ok (dview bc (logstart ml))"
  obtains bc' q where "commit_tail ml t bc = Ok bc'" "in_log ml bc'" "dfile bc' = (dfile bc)[nat (logstart ml) := q]" "page_ok q"
    "r_tail q = Ok t" "r_head q = r_head (dview bc (logstart ml))"
proof -
  obtain bc1 where bc1: "readhdr ml bc = Ok (dview bc (logstart ml), bc1)" "in_log ml bc1" "bc_disk bc1 = bc_disk bc" using readhdr_Ok [OF assms(1)] .
  obtain q where q: "w_tail (dview bc (logstart ml)) t = Ok q" "page_ok q" "r_tail q = Ok t" "r_head q = r_head (dview bc (logstart ml))"
    using write_header_field(1) [OF assms(2)] by blast
  obtain bc' where "gbind (Write_async (logstart ml, q) (set_data (logstart ml) q bc1)) ml_flush = Ok bc'" "in_log ml bc'"
    "dfile bc' = (dfile bc1)[nat (logstart ml) := q]" using write_header [OF bc1(2) q(2)] by blast
  then show ?thesis using that [of bc' q] bc1 q by (simp add: commit_tail_def)
qed

lemma commit_head_Ok:
  assumes "in_log ml bc" "page_ok (dview bc (logstart ml))"
  obtains bc' q where "commit_head ml h bc = Ok bc'" "in_log ml bc'" "dfile bc' = (dfile bc)[nat (logstart ml) := q]" "page_ok q"
    "r_head q = Ok h" "r_tail q = r_tail (dview bc (logstart ml))"
    "bctrace bc' = map_option (\<lambda>t. trace_sync (trace_write (logstart ml) q t)) (bctrace bc)"
proof -
  obtain bc1 where bc1: "readhdr ml bc = Ok (dview bc (logstart ml), bc1)" "in_log ml bc1" "bc_disk bc1 = bc_disk bc" using readhdr_Ok [OF assms(1)] .
  obtain q where q: "w_head (dview bc (logstart ml)) h = Ok q" "page_ok q" "r_head q = Ok h" "r_tail q = r_tail (dview bc (logstart ml))"
    using write_header_field(2) [OF assms(2)] by blast
  obtain bc' where "gbind (Write_async (logstart ml, q) (set_data (logstart ml) q bc1)) ml_flush = Ok bc'" "in_log ml bc'"
    "dfile bc' = (dfile bc1)[nat (logstart ml) := q]" "bctrace bc' = map_option (\<lambda>t. trace_sync (trace_write (logstart ml) q t)) (bctrace bc1)"
    using write_header [OF bc1(2) q(2)] by blast
  then show ?thesis using that [of bc' q] bc1 q by (simp add: commit_head_def)
qed

subsection \<open>Recovery\<close>

text \<open>A disk whose log, from position \<open>T\<close> on, holds the committed transactions \<open>txs\<close>.\<close>

definition log_on_file :: "memlog_t \<Rightarrow> page list \<Rightarrow> nat \<Rightarrow> tx list \<Rightarrow> bool" where
  "log_on_file ml f T txs \<longleftrightarrow>
     0 < loglen ml \<and> 0 \<le> logstart ml \<and> logstart ml + loglen ml < int (length f) \<and>
     page_ok (f ! nat (logstart ml)) \<and> r_tail (f ! nat (logstart ml)) = Ok (of_nat T) \<and>
     r_head (f ! nat (logstart ml)) = Ok (of_nat (T + txs_size txs)) \<and>
     txs_at ml (\<lambda>n. f ! nat n) T txs \<and> int (txs_size txs) \<le> loglen ml \<and> Suc (T + txs_size txs) < maxpos \<and>
     (\<forall>tx \<in> set txs. \<forall>w \<in> set (tx_ws tx). fst w < int (length f) \<and> \<not> (logstart ml \<le> fst w \<and> fst w \<le> logstart ml + loglen ml))"

lemma set_imap: "x \<in> set (imap txs xs) \<Longrightarrow> x \<in> set xs \<or> x = - 2 \<or> (\<exists>tx \<in> set txs. x \<in> fst ` set (tx_ws tx))"
proof (induction txs arbitrary: xs)
  case (Cons tx txs)
  then have "x \<in> set (im_step tx xs) \<or> x = - 2 \<or> (\<exists>tx \<in> set txs. x \<in> fst ` set (tx_ws tx))"
    unfolding imap.simps im_step_def [symmetric] by blast
  then show ?case by (auto simp: im_step_def cancel_in_def split: if_splits)
qed simp

lemma txs_at_ok: "txs_at ml D a txs \<Longrightarrow> tx \<in> set txs \<Longrightarrow> tx_ok ml tx"
  by (induction txs arbitrary: a) auto

lemma install_journal:
  assumes "coherent bc" "log_on_file ml (dfile bc) T txs"
  obtains bc' where "install ml (of_nat T) (of_nat (T + txs_size txs)) bc = Some (Ok bc')" "in_log ml bc'" "dfile bc' = upd_all (journal txs) (dfile bc)"
proof -
  have il: "in_log ml bc" using assms by (simp add: in_log_def log_on_file_def)
  have tx: "txs_at ml (dview bc) T txs" "int (txs_size txs) \<le> loglen ml" "Suc (T + txs_size txs) < maxpos" using assms(2) by (simp_all add: log_on_file_def)
  obtain im bc1 where im: "installmap ml (of_nat T) (of_nat (T + txs_size txs)) bc = Some (Ok (im, bc1))" "in_log ml bc1"
      "bc_disk bc1 = bc_disk bc" "im_rep ml T im (imap txs [])"
    using installmap_rep [OF il tx] by blast
  have "x = - 2 \<or> dest_ok ml bc1 x" if x: "x \<in> set (imap txs [])" for x
  proof (cases "x = - 2")
    case False
    then obtain tx w where w: "tx \<in> set txs" "w \<in> set (tx_ws tx)" "x = fst w" using set_imap [OF x] by auto
    then have "0 < x" using txs_at_ok [OF tx(1) w(1)] by (simp add: tx_ok_def)
    moreover have "x < int (length (dfile bc))" "\<not> (logstart ml \<le> x \<and> x \<le> logstart ml + loglen ml)"
      using assms(2) w unfolding log_on_file_def by blast+
    ultimately show ?thesis using im(3) by (simp add: dest_ok_def)
  qed simp
  then obtain bc' where bc': "gfold (install_iter ml im) (map of_nat [T ..< T + txs_size txs]) bc1 = Ok bc'" "in_log ml bc'"
      "dfile bc' = upd_all (live (zip (take (txs_size txs) (imap txs [])) (map (\<lambda>k. dview bc1 (dpos ml (T + k))) [0 ..< txs_size txs]))) (dfile bc1)"
    using install_loop [OF im(4,2), of "txs_size txs"] by auto
  have "live (zip (imap txs []) (map (\<lambda>k. dview bc (dpos ml (T + k))) [0 ..< txs_size txs])) = journal txs"
    using imap_journal [of ml "dview bc" T "[]" txs "[]"] tx(1) by (simp add: journal_def)
  then have "dfile bc' = upd_all (journal txs) (dfile bc)" using bc'(3) im(3) by simp
  moreover have "indices (of_nat T) (of_nat (T + txs_size txs)) = map of_nat [T ..< T + txs_size txs]"
    using tx(3) by (intro indices_nat) auto
  ultimately show ?thesis using that bc'(1,2) im(1) by (simp add: install_def)
qed

lemma journal_dests: "w \<in> set (journal txs) \<Longrightarrow> \<exists>tx \<in> set txs. w \<in> set (tx_ws tx)"
  unfolding journal_def by (induction txs rule: rev_induct) (auto simp: journal_step_def)

lemma journal_header:
  assumes "log_on_file ml f T txs"
  shows "upd_all (journal txs) f ! nat (logstart ml) = f ! nat (logstart ml)"
proof (rule upd_all_other)
  show "nat (logstart ml) \<notin> nat ` fst ` set (journal txs)"
  proof
    assume "nat (logstart ml) \<in> nat ` fst ` set (journal txs)"
    then obtain tx w where w: "tx \<in> set txs" "w \<in> set (tx_ws tx)" "nat (fst w) = nat (logstart ml)" using journal_dests by fastforce
    have l: "txs_at ml (\<lambda>n. f ! nat n) T txs" "0 \<le> logstart ml" "0 < loglen ml" using assms by (simp_all add: log_on_file_def)
    have "0 < fst w" using txs_at_ok [OF l(1) w(1)] w(2) by (simp add: tx_ok_def)
    moreover have "\<not> (logstart ml \<le> fst w \<and> fst w \<le> logstart ml + loglen ml)" using assms w(1,2) unfolding log_on_file_def by blast
    ultimately show False using w(3) l by (simp add: eq_nat_nat_iff)
  qed
qed

lemma recover_journal:
  assumes "coherent bc" "log_on_file (lt_ml log) (dfile bc) T txs"
  shows "\<exists>log' bc'. log_recover log bc = Some (Ok (log', bc')) \<and> lt_tail log' = of_nat (T + txs_size txs) \<and>
    lt_head log' = of_nat (T + txs_size txs) \<and> coherent bc' \<and> log_on_file (lt_ml log) (dfile bc') (T + txs_size txs) [] \<and>
    (\<forall>n. n \<noteq> nat (logstart (lt_ml log)) \<longrightarrow> dfile bc' ! n = upd_all (journal txs) (dfile bc) ! n)"
proof -
  let ?ml = "lt_ml log" and ?H = "T + txs_size txs"
  have h: "r_tail (dview bc (logstart ?ml)) = Ok (of_nat T)" "r_head (dview bc (logstart ?ml)) = Ok (of_nat ?H)" "page_ok (dview bc (logstart ?ml))"
    using assms(2) by (simp_all add: log_on_file_def)
  have il: "in_log ?ml bc" using assms by (simp add: in_log_def log_on_file_def)
  obtain bc1 where bc1: "readhdr ?ml bc = Ok (dview bc (logstart ?ml), bc1)" "in_log ?ml bc1" "bc_disk bc1 = bc_disk bc" using readhdr_Ok [OF il] .
  show ?thesis
  proof (cases "txs = []")
    case True
    have "log_recover log bc = Some (Ok (log\<lparr>lt_tail := of_nat T, lt_head := of_nat T\<rparr>, bc1))"
      using bc1(1) h True by (simp add: log_recover_def)
    then show ?thesis using True bc1 assms(2) by (simp add: journal_def in_log_def)
  next
    case False
    then have ne: "0 < txs_size txs" using txs_size_ge [of txs] by (cases txs) auto
    have "(of_nat T :: index_t) \<noteq> of_nat ?H"
    proof
      assume "(of_nat T :: index_t) = of_nat ?H"
      then have "unat (of_nat T :: index_t) = unat (of_nat ?H :: index_t)" by (rule arg_cong)
      moreover have "Suc ?H < maxpos" using assms(2) by (simp add: log_on_file_def)
      ultimately show False using ne unat_of_nat_small [of T] unat_of_nat_small [of ?H] by linarith
    qed
    moreover obtain bc2 where bc2: "install ?ml (of_nat T) (of_nat ?H) bc1 = Some (Ok bc2)" "in_log ?ml bc2"
        "dfile bc2 = upd_all (journal txs) (dfile bc1)"
      using install_journal [of bc1 ?ml T txs] bc1(2,3) assms(2) by (auto simp: in_log_def)
    moreover have hd: "dview bc2 (logstart ?ml) = dview bc (logstart ?ml)" using journal_header [OF assms(2)] bc2(3) bc1(3) by simp
    moreover obtain bc3 q where bc3: "commit_tail ?ml (of_nat ?H) bc2 = Ok bc3" "in_log ?ml bc3" "dfile bc3 = (dfile bc2)[nat (logstart ?ml) := q]"
        "page_ok q" "r_tail q = Ok (of_nat ?H)" "r_head q = r_head (dview bc2 (logstart ?ml))"
      using commit_tail_Ok [OF bc2(2)] h(3) hd by metis
    ultimately have "log_recover log bc = Some (Ok (log\<lparr>lt_tail := of_nat ?H, lt_head := of_nat ?H\<rparr>, bc3))"
      using bc1(1) h by (simp add: log_recover_def)
    moreover have "log_on_file ?ml (dfile bc3) ?H []"
      using bc3 hd h(2) assms(2) bc2 bc1 by (auto simp: log_on_file_def in_log_def)
    moreover have "\<forall>n. n \<noteq> nat (logstart ?ml) \<longrightarrow> dfile bc3 ! n = upd_all (journal txs) (dfile bc) ! n"
      using bc3(3) bc2(3) bc1(3) by simp
    ultimately show ?thesis using bc3(2) by (simp add: in_log_def)
  qed
qed

end
