(* ===== verification/Commit.thy ===== *)
theory Commit
  imports Recovery
begin

text \<open>
  The committer: what a commit writes to the disk, in which order, and that after a crash at any
  point of it recovery finds either all of the transaction or none of it.
\<close>

subsection \<open>Slots of the in-memory log\<close>

definition mlog :: "memlog_t \<Rightarrow> nat \<Rightarrow> bdev_block_t" where
  "mlog ml n = ml_log ml ! spos ml n"

definition mset :: "memlog_t \<Rightarrow> nat \<Rightarrow> bdev_block_t \<Rightarrow> memlog_t" where
  "mset ml n b = ml\<lparr>ml_log := (ml_log ml)[spos ml n := b]\<rparr>"

lemma mset_fields [simp]:
  "loglen (mset ml n b) = loglen ml" "maxtrans (mset ml n b) = maxtrans ml" "logstart (mset ml n b) = logstart ml"
  "spos (mset ml n b) k = spos ml k" "dpos (mset ml n b) k = dpos ml k" "length (ml_log (mset ml n b)) = length (ml_log ml)"
  by (simp_all add: mset_def spos_def dpos_def)

lemma mset_mset [simp]: "mset (mset ml n b) n c = mset ml n c"
  by (simp add: mset_def spos_def)

lemma slot_less: "ml_ok ml \<Longrightarrow> spos ml n < length (ml_log ml)"
  using spos_less [of ml n] unfolding ml_ok_def by linarith

lemma mlog_mset: "ml_ok ml \<Longrightarrow> mlog (mset ml n b) k = (if spos ml k = spos ml n then b else mlog ml k)"
  using slot_less [of ml n] by (simp add: mlog_def mset_def spos_def [of "_\<lparr>ml_log := _\<rparr>"] spos_def [symmetric] nth_list_update)

lemma ml_ok_mset: "ml_ok ml \<Longrightarrow> page_ok (Data b) \<Longrightarrow> ml_ok (mset ml n b)"
  unfolding ml_ok_def mset_def by (auto dest!: subsetD [OF set_update_subset_insert])

lemma mlog_page: "ml_ok ml \<Longrightarrow> page_ok (Data (mlog ml n))"
  using slot_less [of ml n] by (simp add: ml_ok_def mlog_def)

lemma getmemlog_nat: "ml_ok ml \<Longrightarrow> n < maxpos \<Longrightarrow> getmemlog ml (of_nat n) = Ok (mlog ml n)"
  using slot_less [of ml n] by (simp add: getmemlog_def logindex_nat ml_ok_def mlog_def)

lemma setmemlog_nat: "ml_ok ml \<Longrightarrow> n < maxpos \<Longrightarrow> setmemlog ml (of_nat n) f = Ok (mset ml n (f (mlog ml n)))"
  using slot_less [of ml n] by (simp add: setmemlog_def logindex_nat ml_ok_def mlog_def mset_def)

lemma of_nat_Suc_index: "(of_nat n :: index_t) + 1 = of_nat (Suc n)"
  by (simp add: add.commute)

text \<open>Storing a sequence of blocks from a position on.\<close>

fun mstore :: "memlog_t \<Rightarrow> nat \<Rightarrow> bdev_block_t list \<Rightarrow> memlog_t" where
  "mstore ml a [] = ml"
| "mstore ml a (b # bs) = mstore (mset ml a b) (Suc a) bs"

lemma mstore_fields [simp]:
  "loglen (mstore ml a bs) = loglen ml" "maxtrans (mstore ml a bs) = maxtrans ml" "logstart (mstore ml a bs) = logstart ml"
  "spos (mstore ml a bs) k = spos ml k" "dpos (mstore ml a bs) k = dpos ml k"
  by (induction bs arbitrary: ml a) simp_all

lemma mstore_ok: "ml_ok ml \<Longrightarrow> \<forall>b \<in> set bs. page_ok (Data b) \<Longrightarrow> ml_ok (mstore ml a bs)"
  by (induction bs arbitrary: ml a) (auto simp: ml_ok_mset)

lemma store_seq:
  assumes "ml_ok ml" "\<forall>x \<in> set xs. page_ok (Data (g x))" "a + length xs < maxpos"
  shows "gfold (\<lambda>x (i, ml). gbind (setmemlog ml i (\<lambda>_. g x)) (\<lambda>ml. Ok (i + 1, ml))) xs (of_nat a, ml) =
    Ok (of_nat (a + length xs), mstore ml a (map g xs))"
  using assms
proof (induction xs arbitrary: a ml)
  case (Cons x xs)
  have "setmemlog ml (of_nat a) (\<lambda>_. g x) = Ok (mset ml a (g x))" using Cons.prems setmemlog_nat [of ml a "\<lambda>_. g x"] by simp
  moreover have "gfold (\<lambda>x (i, ml). gbind (setmemlog ml i (\<lambda>_. g x)) (\<lambda>ml. Ok (i + 1, ml))) xs (of_nat (Suc a), mset ml a (g x)) =
      Ok (of_nat (Suc a + length xs), mstore (mset ml a (g x)) (Suc a) (map g xs))"
    using Cons.prems by (intro Cons.IH) (auto simp: ml_ok_mset)
  ultimately show ?case by (simp add: of_nat_Suc_index del: of_nat_Suc of_nat_add)
qed simp

lemma mlog_mstore_other:
  assumes "ml_ok ml" "\<forall>b \<in> set bs. page_ok (Data b)" "\<forall>k < length bs. spos ml n \<noteq> spos ml (a + k)"
  shows "mlog (mstore ml a bs) n = mlog ml n"
  using assms
proof (induction bs arbitrary: ml a)
  case (Cons b bs)
  have "mlog (mstore (mset ml a b) (Suc a) bs) n = mlog (mset ml a b) n"
    using Cons.prems by (intro Cons.IH) (auto simp: ml_ok_mset)
  then show ?case using Cons.prems(3) [rule_format, of 0] Cons.prems(1) by (simp add: mlog_mset)
qed simp

lemma mlog_mstore:
  assumes "ml_ok ml" "\<forall>b \<in> set bs. page_ok (Data b)" "length bs \<le> nat (loglen ml)" "k < length bs"
  shows "mlog (mstore ml a bs) (a + k) = bs ! k"
  using assms
proof (induction bs arbitrary: ml a k)
  case (Cons b bs)
  have ok: "ml_ok (mset ml a b)" using Cons.prems by (auto simp: ml_ok_mset)
  show ?case
  proof (cases k)
    case 0
    have "\<forall>j < length bs. spos (mset ml a b) a \<noteq> spos (mset ml a b) (Suc a + j)"
    proof (intro allI impI)
      fix j assume "j < length bs"
      then show "spos (mset ml a b) a \<noteq> spos (mset ml a b) (Suc a + j)"
        using spos_window [of a a ml "Suc a + j"] Cons.prems(3) by simp
    qed
    then have "mlog (mstore (mset ml a b) (Suc a) bs) a = mlog (mset ml a b) a"
      using ok Cons.prems(2) by (intro mlog_mstore_other) auto
    then show ?thesis using 0 Cons.prems(1) by (simp add: mlog_mset)
  next
    case (Suc j)
    then have "mlog (mstore (mset ml a b) (Suc a) bs) (Suc a + j) = bs ! j" using Cons.prems ok by (intro Cons.IH) auto
    then show ?thesis using Suc by simp
  qed
qed simp

subsection \<open>What a commit writes\<close>

definition dval :: "bdev_block_t \<Rightarrow> int" where
  "dval b = (if Type b = 0 then Block b else Type b)"

lemma loginc_Ok: "0 < loglen ml \<Longrightarrow> \<exists>n. loginc ml i = Ok n"
  by (simp add: loginc_def)

lemma commit_iter_nat:
  assumes "ml_ok ml" "H + j < maxpos" "T \<le> H" "int j < maxtrans ml"
  shows "\<exists>p b1' b2' s'. commit_iter (of_nat T) (of_nat H) (of_nat (H + j)) (ml, int j, b1, b2, s) =
      Ok (mset ml H ((mlog ml H)\<lparr>Data := p\<rparr>), int (Suc j), b1', b2', s') \<and> page_ok p \<and>
      fieldr p (int j) = Ok (i64 (dval (mlog ml (H + j)))) \<and> (\<forall>q. q \<noteq> int j \<longrightarrow> fieldr p q = fieldr (Data (mlog ml H)) q) \<and>
      (b2 = [] \<or> s \<longrightarrow> b1' @ b2' = (b1 @ b2) @ [of_nat (H + j)] \<and> (b2' = [] \<or> s'))"
proof -
  have "\<not> (of_nat T :: index_t) > of_nat (H + j)"
    using assms unat_of_nat_small [of T] unat_of_nat_small [of "H + j"] by (simp add: word_less_nat_alt del: of_nat_add)
  moreover have g: "getmemlog ml (of_nat (H + j)) = Ok (mlog ml (H + j))" "getmemlog ml (of_nat H) = Ok (mlog ml H)"
    using assms by (auto intro!: getmemlog_nat simp del: of_nat_add)
  moreover obtain d where d: "fieldw (Data (mlog ml H)) (int j) (dval (mlog ml (H + j))) = Ok d"
    using fs.wr_total [OF mlog_page [OF assms(1), of H], of "int j"] assms(1,4) by (auto simp: ml_ok_def)
  moreover have "w_logdest (mkdescriptor ml (Data (mlog ml H))) (int j) (dval (mlog ml (H + j))) = Ok (mkdescriptor ml d)"
    using d assms(4) by (simp add: w_logdest_def mkdescriptor_def)
  moreover have "setmemlog ml (of_nat H) (\<lambda>b. b\<lparr>Data := d\<rparr>) = Ok (mset ml H ((mlog ml H)\<lparr>Data := d\<rparr>))"
    using assms(1,2) by (intro setmemlog_nat) auto
  moreover obtain n where "loginc (mset ml H ((mlog ml H)\<lparr>Data := d\<rparr>)) (of_nat (H + j)) = Ok n"
    using loginc_Ok assms(1) by (metis ml_ok_def mset_fields(1))
  ultimately have "commit_iter (of_nat T) (of_nat H) (of_nat (H + j)) (ml, int j, b1, b2, s) =
      Ok (mset ml H ((mlog ml H)\<lparr>Data := d\<rparr>), int (Suc j), if s then b1 else b1 @ [of_nat (H + j)], if s then b2 @ [of_nat (H + j)] else b2, s \<or> n = 0)"
    unfolding commit_iter_def getdescriptor_def dval_def by (simp add: mkdescriptor_def del: of_nat_add)
  then show ?thesis
    using fs.wr_okp [OF d mlog_page [OF assms(1)]] fs.rd_wr_same [OF d] fs.rd_wr_other [OF d] by (cases s) force+
qed

lemma commit_loop:
  assumes "ml_ok ml" "H + n < maxpos" "T \<le> H" "int n \<le> maxtrans ml" "int n \<le> loglen ml"
  shows "\<exists>p b1 b2 s. gfold (commit_iter (of_nat T) (of_nat H)) (map of_nat [H ..< H + n]) (ml, 0, [], [], False) =
      Ok (mset ml H ((mlog ml H)\<lparr>Data := p\<rparr>), int n, b1, b2, s) \<and> page_ok p \<and>
      (\<forall>i < n. fieldr p (int i) = Ok (i64 (dval (mlog ml (H + i))))) \<and> b1 @ b2 = map of_nat [H ..< H + n] \<and> (b2 = [] \<or> s)"
  using assms(2,4,5)
proof (induction n)
  case 0
  have "mset ml H ((mlog ml H)\<lparr>Data := Data (mlog ml H)\<rparr>) = ml" by (simp add: mset_def mlog_def)
  then show ?case using mlog_page [OF assms(1), of H] by (auto intro!: exI [of _ "Data (mlog ml H)"])
next
  case (Suc n)
  then obtain p b1 b2 s where IH: "gfold (commit_iter (of_nat T) (of_nat H)) (map of_nat [H ..< H + n]) (ml, 0, [], [], False) =
      Ok (mset ml H ((mlog ml H)\<lparr>Data := p\<rparr>), int n, b1, b2, s)" "page_ok p"
      "\<forall>i < n. fieldr p (int i) = Ok (i64 (dval (mlog ml (H + i))))" "b1 @ b2 = map of_nat [H ..< H + n]" "b2 = [] \<or> s" by auto
  let ?ml = "mset ml H ((mlog ml H)\<lparr>Data := p\<rparr>)"
  have ok: "ml_ok ?ml" using assms(1) IH(2) by (simp add: ml_ok_mset)
  have lH: "mlog ?ml H = (mlog ml H)\<lparr>Data := p\<rparr>" using assms(1) by (simp add: mlog_mset)
  have dv: "dval (mlog ?ml (H + n)) = dval (mlog ml (H + n))"
  proof (cases "spos ml (H + n) = spos ml H")
    case True
    then have "n = 0" using spos_window [of H "H + n" ml H] Suc.prems(3) by simp
    then show ?thesis using lH by (simp add: dval_def)
  qed (simp add: mlog_mset assms(1))
  obtain q b1' b2' s' where it: "commit_iter (of_nat T) (of_nat H) (of_nat (H + n)) (?ml, int n, b1, b2, s) =
      Ok (mset ?ml H ((mlog ?ml H)\<lparr>Data := q\<rparr>), int (Suc n), b1', b2', s')" "page_ok q"
      "fieldr q (int n) = Ok (i64 (dval (mlog ?ml (H + n))))" "\<forall>i. i \<noteq> int n \<longrightarrow> fieldr q i = fieldr (Data (mlog ?ml H)) i"
      "b1' @ b2' = (b1 @ b2) @ [of_nat (H + n)]" "b2' = [] \<or> s'"
    using commit_iter_nat [OF ok, of H n T b1 b2 s] Suc.prems assms(3) IH(5) by auto
  have "gfold (commit_iter (of_nat T) (of_nat H)) (map of_nat [H ..< H + Suc n]) (ml, 0, [], [], False) =
      Ok (mset ml H ((mlog ml H)\<lparr>Data := q\<rparr>), int (Suc n), b1', b2', s')"
    using IH(1) it(1) lH by (simp add: gfold_append del: of_nat_add of_nat_Suc)
  moreover have "\<forall>i < Suc n. fieldr q (int i) = Ok (i64 (dval (mlog ml (H + i))))"
    using it(3,4) IH(3) lH dv by (auto simp: less_Suc_eq)
  ultimately show ?case using it(2,5,6) IH(4) by auto
qed

text \<open>A transaction as the committer finds it in the in-memory log.\<close>

definition tx_in_mem :: "memlog_t \<Rightarrow> nat \<Rightarrow> tx \<Rightarrow> bool" where
  "tx_in_mem ml H tx \<longleftrightarrow>
     (\<forall>r < length (tx_revs tx). Type (mlog ml (H + 1 + r)) = - 2 \<and> fields (Data (mlog ml (H + 1 + r))) 1 (tx_revs tx ! r @ [0])) \<and>
     (\<forall>k < length (tx_ws tx). mlog ml (H + 1 + length (tx_revs tx) + k) =
        \<lparr>Block = fst (tx_ws tx ! k), Type = 0, Data = snd (tx_ws tx ! k)\<rparr>)"

definition slot_writes :: "memlog_t \<Rightarrow> nat \<Rightarrow> nat \<Rightarrow> (int \<times> page) list" where
  "slot_writes ml H n = map (\<lambda>i. (dpos ml i, Data (mlog ml i))) [H ..< H + n]"

lemma log_slots_nat:
  assumes "ml_ok ml" "\<forall>i \<in> set ks. i < maxpos"
  shows "log_slots ml (map of_nat ks) = Ok (map (\<lambda>i. (dpos ml i, Data (mlog ml i))) ks)"
  using assms(2)
proof (induction ks)
  case (Cons k ks)
  have "0 < loglen ml" using assms(1) by (simp add: ml_ok_def)
  then show ?case using Cons assms(1) by (simp add: log_slots_def diskindex_nat getmemlog_nat)
qed (simp add: log_slots_def)

lemma log_slots_split:
  assumes "ml_ok ml" "b1 @ b2 = map of_nat [H ..< H + n]" "H + n < maxpos"
  obtains w1 w2 where "log_slots ml b1 = Ok w1" "log_slots ml b2 = Ok w2" "w1 @ w2 = slot_writes ml H n"
proof -
  have k: "length b1 \<le> n" using arg_cong [OF assms(2), of length] by simp
  have "b1 = take (length b1) (map of_nat [H ..< H + n])" "b2 = drop (length b1) (map of_nat [H ..< H + n])"
    unfolding assms(2) [symmetric] by simp_all
  then have b: "b1 = map of_nat [H ..< H + length b1]" "b2 = map of_nat [H + length b1 ..< H + n]"
    using k by (simp_all add: take_map drop_map take_upt)
  have "log_slots ml b1 = Ok (map (\<lambda>i. (dpos ml i, Data (mlog ml i))) [H ..< H + length b1])"
    using assms(3) k by (subst b(1), intro log_slots_nat assms(1)) auto
  moreover have "log_slots ml b2 = Ok (map (\<lambda>i. (dpos ml i, Data (mlog ml i))) [H + length b1 ..< H + n])"
    using assms(3) k by (subst b(2), intro log_slots_nat assms(1)) auto
  moreover
  have "[H ..< H + length b1] @ [H + length b1 ..< H + n] = [H ..< H + n]"
    using upt_add_eq_append [of H "H + length b1" "n - length b1"] k by simp
  then have "map (\<lambda>i. (dpos ml i, Data (mlog ml i))) [H ..< H + length b1] @ map (\<lambda>i. (dpos ml i, Data (mlog ml i))) [H + length b1 ..< H + n] =
      slot_writes ml H n" unfolding slot_writes_def map_append [symmetric] by (rule arg_cong)
  ultimately show ?thesis using that by blast
qed

abbreviation wrec :: "int \<times> page \<Rightarrow> record_t" where
  "wrec w \<equiv> \<lparr>Cmd = ''write'', BlkNo = fst w, BlkData = snd w\<rparr>"

abbreviation sync_rec :: record_t where
  "sync_rec \<equiv> \<lparr>Cmd = ''sync'', BlkNo = 0, BlkData = []\<rparr>"

lemma bc_start_writes:
  assumes "\<forall>w \<in> set ws. 0 \<le> fst w \<and> fst w < int (length (dfile bc))"
  obtains bc' where "bc_start BDEV_WRITE ws bc = Ok bc'" "bc_cache bc' = bc_cache bc" "dfile bc' = upd_all ws (dfile bc)"
    "bctrace bc' = map_option (\<lambda>t. t @ map wrec ws) (bctrace bc)"
proof -
  let ?d = "(bc_disk bc)\<lparr>df := upd_all ws (dfile bc), dtrace := map_option (\<lambda>t. t @ map wrec ws) (bctrace bc)\<rparr>"
  have "bc_start BDEV_WRITE ws bc = Ok (bc\<lparr>bc_disk := ?d\<rparr>)"
    using gfold_disk_write [OF assms] by (simp add: gfold_bc_start upd_all_def case_prod_unfold)
  then show ?thesis using that [of "bc\<lparr>bc_disk := ?d\<rparr>"] by simp
qed

text \<open>The header is read from the cache if it is there, and then agrees with the disk.\<close>

definition hdr_coherent :: "memlog_t \<Rightarrow> bcache_t \<Rightarrow> bool" where
  "hdr_coherent ml bc \<longleftrightarrow> 0 \<le> logstart ml \<and> logstart ml < int (length (dfile bc)) \<and> page_ok (dview bc (logstart ml)) \<and>
     (bc_cache bc (logstart ml) = None \<or> bc_cache bc (logstart ml) = Some (dview bc (logstart ml)))"

lemma commit_head_trace:
  assumes "hdr_coherent ml bc"
  obtains bc' q where "commit_head ml h bc = Ok bc'" "dfile bc' = (dfile bc)[nat (logstart ml) := q]" "page_ok q"
    "r_head q = Ok h" "r_tail q = r_tail (dview bc (logstart ml))"
    "bctrace bc' = map_option (\<lambda>t. t @ [wrec (logstart ml, q), sync_rec]) (bctrace bc)"
    "bc_cache bc' = (bc_cache bc)(logstart ml \<mapsto> q)"
proof -
  have l: "0 \<le> logstart ml" "logstart ml < int (length (dfile bc))" "page_ok (dview bc (logstart ml))" using assms by (simp_all add: hdr_coherent_def)
  obtain bc1 where bc1: "readhdr ml bc = Ok (dview bc (logstart ml), bc1)" "bc_disk bc1 = bc_disk bc"
      "(bc_cache bc1)(logstart ml \<mapsto> q) = (bc_cache bc)(logstart ml \<mapsto> q)" for q
    using assms by (auto simp: hdr_coherent_def readhdr_def Get_fill_def Start_def file_read_def Let_def)
  obtain q where q: "w_head (dview bc (logstart ml)) h = Ok q" "page_ok q" "r_head q = Ok h" "r_tail q = r_tail (dview bc (logstart ml))"
    using write_header_field(2) [OF l(3)] by blast
  let ?bc2 = "set_data (logstart ml) q bc1\<lparr>bc_disk := (bc_disk bc1)\<lparr>df := (dfile bc1)[nat (logstart ml) := q],
      dtrace := map_option (trace_write (logstart ml) q) (bctrace bc1)\<rparr>\<rparr>"
  have "Write_async (logstart ml, q) (set_data (logstart ml) q bc1) = Ok ?bc2"
    unfolding Write_async_def using l bc1(2) by (intro write_block) simp_all
  moreover obtain bc3 where "ml_flush ?bc2 = Ok bc3" "bc_cache bc3 = bc_cache ?bc2" "dfile bc3 = dfile ?bc2" "bctrace bc3 = map_option trace_sync (bctrace ?bc2)"
    using flush_Ok [of ?bc2] by blast
  ultimately show ?thesis using that [of bc3 q] bc1 q
    by (simp add: commit_head_def set_data_def option.map_comp comp_def trace_sync_def trace_write_def)
qed

lemma fieldsI: "(\<And>i. i < length xs \<Longrightarrow> fieldr p (j + int i) = Ok (xs ! i)) \<Longrightarrow> fields p j xs"
  by (simp add: fields_def)

lemma commit_fields:
  assumes "ml_ok ml" "tx_ok ml tx" "tx_in_mem ml H tx" "int (tx_size tx) \<le> loglen ml"
    and p: "\<forall>i < tx_size tx. fieldr p (int i) = Ok (i64 (dval (mlog (mset ml H b) (H + i))))" "fieldr p (int (tx_size tx)) = Ok 0"
  shows "fields p 1 (replicate (length (tx_revs tx)) (- 2) @ map fst (tx_ws tx) @ [0])"
proof -
  let ?m = "length (tx_revs tx)" and ?k = "length (tx_ws tx)"
  have other: "mlog (mset ml H b) (H + i) = mlog ml (H + i)" if "0 < i" "i < tx_size tx" for i
  proof -
    have "spos ml (H + i) \<noteq> spos ml H" using spos_window [of H "H + i" ml H] that assms(4) by simp
    then show ?thesis by (simp add: mlog_mset assms(1))
  qed
  have rv: "fieldr p (int (1 + r)) = Ok (- 2)" if "r < ?m" for r
    using p(1) [rule_format, of "1 + r"] other [of "1 + r"] that assms(3) by (simp add: tx_size_def tx_in_mem_def dval_def i64_id)
  have ds: "fieldr p (int (1 + ?m + k)) = Ok (fst (tx_ws tx ! k))" if k: "k < ?k" for k
  proof -
    have "mlog ml (H + (1 + ?m + k)) = \<lparr>Block = fst (tx_ws tx ! k), Type = 0, Data = snd (tx_ws tx ! k)\<rparr>"
      using assms(3) k by (simp add: tx_in_mem_def add.assoc)
    moreover have "0 < fst (tx_ws tx ! k)" "fst (tx_ws tx ! k) < int maxpos" using assms(2) k by (auto simp: tx_ok_def)
    ultimately show ?thesis using p(1) [rule_format, of "1 + ?m + k"] other [of "1 + ?m + k"] k by (simp add: tx_size_def dval_def i64_id)
  qed
  show ?thesis
  proof (rule fieldsI)
    fix i assume i: "i < length (replicate ?m (- 2 :: int) @ map fst (tx_ws tx) @ [0])"
    consider "i < ?m" | k where "i = ?m + k" "k < ?k" | "i = ?m + ?k" using i by (auto simp: less_Suc_eq) (metis add_diff_inverse_nat nat_add_left_cancel_less)
    then show "fieldr p (1 + int i) = Ok ((replicate ?m (- 2) @ map fst (tx_ws tx) @ [0]) ! i)"
    proof cases
      case 1
      then show ?thesis using rv [of i] by (simp add: nth_append)
    next
      case 2
      then show ?thesis using ds [of k] by (simp add: nth_append add.assoc)
    next
      case 3
      then show ?thesis using p(2) by (simp add: nth_append tx_size_def add.assoc)
    qed
  qed
qed

lemma commit_build_Ok:
  assumes ml: "ml_ok ml" "tx_ok ml tx" "tx_in_mem ml H tx" "int (tx_size tx) \<le> loglen ml" "T \<le> H" "Suc (H + tx_size tx) < maxpos"
    and t: "tr_start t = of_nat H" "tr_head t = of_nat (H + tx_size tx)"
  shows "\<exists>b w1 w2. commit_build (of_nat T) t ml = Ok (mset ml H b, w1, w2) \<and> w1 @ w2 = slot_writes (mset ml H b) H (tx_size tx) \<and>
    page_ok (Data b) \<and> fields (Data b) 1 (replicate (length (tx_revs tx)) (- 2) @ map fst (tx_ws tx) @ [0])"
proof -
  let ?n = "tx_size tx" and ?b0 = "(mlog ml H)\<lparr>Type := - 1\<rparr>"
  define ml0 where "ml0 = mset ml H ?b0"
  have ok0: "ml_ok ml0" using ml_ok_mset ml(1) mlog_page [OF ml(1), of H] by (simp add: ml0_def)
  have l0: "mlog ml0 H = ?b0" using ml(1) by (simp add: ml0_def mlog_mset)
  have n: "H + ?n < maxpos" "int ?n < maxtrans ml0" "int ?n \<le> loglen ml0" "H < maxpos" using ml by (auto simp: ml0_def tx_ok_def)
  obtain p b1 b2 s where loop: "gfold (commit_iter (of_nat T) (of_nat H)) (map of_nat [H ..< H + ?n]) (ml0, 0, [], [], False) =
      Ok (mset ml0 H ((mlog ml0 H)\<lparr>Data := p\<rparr>), int ?n, b1, b2, s)" "page_ok p"
      "\<forall>i < ?n. fieldr p (int i) = Ok (i64 (dval (mlog ml0 (H + i))))" "b1 @ b2 = map of_nat [H ..< H + ?n]"
    using commit_loop [OF ok0 n(1) ml(5)] n by auto
  let ?ml1 = "mset ml H (?b0\<lparr>Data := p\<rparr>)"
  have ml1: "mset ml0 H ((mlog ml0 H)\<lparr>Data := p\<rparr>) = ?ml1" unfolding l0 by (simp add: ml0_def)
  have ok1: "ml_ok ?ml1" using ml(1) loop(2) by (simp add: ml_ok_mset)
  obtain d where d: "fieldw p (int ?n) 0 = Ok d"
    using fs.wr_total [OF loop(2), of "int ?n" 0] n(2) ok0 by (auto simp: ml_ok_def)
  have dok: "page_ok d" using fs.wr_okp [OF d loop(2)] .
  let ?ml' = "mset ml H (?b0\<lparr>Data := d\<rparr>)"
  have ok': "ml_ok ?ml'" using ml(1) dok by (simp add: ml_ok_mset)
  have lH: "mlog ?ml1 H = ?b0\<lparr>Data := p\<rparr>" using ml(1) by (simp add: mlog_mset)
  have steps: "setmemlog ml (of_nat H) (\<lambda>b. b\<lparr>Type := - 1\<rparr>) = Ok ml0" "getdescriptor ?ml1 (of_nat H) = Ok (mkdescriptor ?ml1 p)"
    "w_logdest (mkdescriptor ?ml1 p) (int ?n) 0 = Ok (mkdescriptor ?ml1 d)"
    "setmemlog ?ml1 (of_nat H) (\<lambda>b. b\<lparr>Data := ld_data (mkdescriptor ?ml1 d)\<rparr>) = Ok ?ml'"
    using setmemlog_nat [OF ml(1) n(4)] getmemlog_nat [OF ok1 n(4)] setmemlog_nat [OF ok1 n(4)] lH d n(2)
    by (simp_all add: ml0_def getdescriptor_def w_logdest_def mkdescriptor_def)
  obtain w1 w2 where w: "log_slots ?ml' b1 = Ok w1" "log_slots ?ml' b2 = Ok w2" "w1 @ w2 = slot_writes ?ml' H ?n"
    using log_slots_split [OF ok' loop(4) n(1)] .
  have ix: "indices (of_nat H) (of_nat (H + ?n)) = map of_nat [H ..< H + ?n]" using n(1) by (intro indices_nat) auto
  have "commit_build (of_nat T) t ml = Ok (?ml', w1, w2)"
    unfolding commit_build_def t ix steps(1) gbind.simps loop(1) ml1 case_prod_conv steps(2) steps(3) steps(4) w by (rule refl)
  moreover have "fields d 1 (replicate (length (tx_revs tx)) (- 2) @ map fst (tx_ws tx) @ [0])"
  proof (rule commit_fields [OF ml(1-4)])
    show "\<forall>i < ?n. fieldr d (int i) = Ok (i64 (dval (mlog (mset ml H ?b0) (H + i))))"
      using loop(3) fs.rd_wr_other [OF d] by (simp add: ml0_def)
    show "fieldr d (int ?n) = Ok 0" using fs.rd_wr_same [OF d] by (simp add: i64_id)
  qed
  ultimately show ?thesis using w(3) dok by (intro exI [of _ "?b0\<lparr>Data := d\<rparr>"]) auto
qed

lemma commit_io_Ok:
  assumes t: "tr_start t \<noteq> tr_head t" "\<forall>n \<in> set (ordered t). 0 \<le> n \<and> n < int (length (dfile bc)) \<and> n \<noteq> logstart ml"
    and w: "\<forall>w \<in> set (w1 @ w2). 0 \<le> fst w \<and> fst w < int (length (dfile bc)) \<and> fst w \<noteq> logstart ml" and bc: "hdr_coherent ml bc"
    and W: "W = w1 @ w2 @ map (\<lambda>n. (n, cached bc n)) (ordered t)"
  shows "\<exists>bc' q. commit_io t ml w1 w2 bc = Ok (t\<lparr>ordered := []\<rparr>, bc') \<and>
    dfile bc' = (upd_all W (dfile bc))[nat (logstart ml) := q] \<and>
    page_ok q \<and> r_head q = Ok (tr_head t) \<and> r_tail q = r_tail (dview bc (logstart ml)) \<and>
    bctrace bc' = map_option (\<lambda>tr. tr @ map wrec W @ [sync_rec, wrec (logstart ml, q), sync_rec]) (bctrace bc)"
proof -
  let ?O = "map (\<lambda>n. (n, cached bc n)) (ordered t)"
  have rng: "\<forall>w \<in> set W. 0 \<le> fst w \<and> fst w < int (length (dfile bc)) \<and> fst w \<noteq> logstart ml" using w t(2) unfolding W by auto
  obtain bc1 where bc1: "bc_start BDEV_WRITE w1 bc = Ok bc1" "bc_cache bc1 = bc_cache bc" "dfile bc1 = upd_all w1 (dfile bc)"
      "bctrace bc1 = map_option (\<lambda>t. t @ map wrec w1) (bctrace bc)" using bc_start_writes [of w1 bc] w by auto
  obtain bc2 where bc2: "bc_start BDEV_WRITE w2 bc1 = Ok bc2" "bc_cache bc2 = bc_cache bc" "dfile bc2 = upd_all w2 (dfile bc1)"
      "bctrace bc2 = map_option (\<lambda>t. t @ map wrec w2) (bctrace bc1)" using bc_start_writes [of w2 bc1] w bc1 by auto
  have O: "map (\<lambda>n. (n, cached bc2 n)) (ordered t) = ?O" using bc2(2) by (simp add: cached_def)
  obtain bc3 where bc3: "bc_start BDEV_WRITE ?O bc2 = Ok bc3" "bc_cache bc3 = bc_cache bc" "dfile bc3 = upd_all ?O (dfile bc2)"
      "bctrace bc3 = map_option (\<lambda>t. t @ map wrec ?O) (bctrace bc2)" using bc_start_writes [of ?O bc2] t(2) bc1 bc2 by auto
  obtain bc4 where bc4: "ml_flush bc3 = Ok bc4" "bc_cache bc4 = bc_cache bc3" "dfile bc4 = dfile bc3" "bctrace bc4 = map_option trace_sync (bctrace bc3)"
    using flush_Ok by blast
  have img: "dfile bc4 = upd_all W (dfile bc)" using bc1(3) bc2(3) bc3(3) bc4(3) by (simp add: W)
  have "nat (logstart ml) \<notin> nat ` fst ` set W" using rng bc by (auto simp: hdr_coherent_def eq_nat_nat_iff)
  then have hdr: "dview bc4 (logstart ml) = dview bc (logstart ml)" unfolding img by (rule upd_all_other)
  have hc: "hdr_coherent ml bc4" using bc hdr img bc3(2) bc4(2) by (simp add: hdr_coherent_def)
  obtain bc5 q where bc5: "commit_head ml (tr_head t) bc4 = Ok bc5" "dfile bc5 = (dfile bc4)[nat (logstart ml) := q]" "page_ok q"
      "r_head q = Ok (tr_head t)" "r_tail q = r_tail (dview bc (logstart ml))"
      "bctrace bc5 = map_option (\<lambda>t. t @ [wrec (logstart ml, q), sync_rec]) (bctrace bc4)"
    using commit_head_trace [OF hc] hdr by metis
  have "(if w2 \<noteq> [] then Write_async_blks_through w2 bc1 else Ok bc1) = Ok bc2"
    using bc2(1) by (cases "w2 = []") (auto simp: Write_async_blks_through_start)
  moreover have "write_ordered bc2 t = Ok (t\<lparr>ordered := []\<rparr>, bc3)" unfolding write_ordered_def O coalesce_start using bc3(1) by simp
  ultimately have "commit_io t ml w1 w2 bc = Ok (t\<lparr>ordered := []\<rparr>, bc5)"
    using bc1(1) bc4(1) bc5(1) t(1) by (simp add: commit_io_def Write_async_blks_through_start)
  moreover have "bctrace bc5 = map_option (\<lambda>tr. tr @ map wrec W @ [sync_rec, wrec (logstart ml, q), sync_rec]) (bctrace bc)"
    using bc1(4) bc2(4) bc3(4) bc4(4) bc5(6) by (simp add: W option.map_comp comp_def trace_sync_def)
  ultimately show ?thesis using bc5(2-5) img by auto
qed

end
