(* ===== verification/Crash.thy ===== *)
theory Crash
  imports Commit
begin

text \<open>
  Crashes during a commit.  The disk remembers every write before the last sync; of the writes after
  it, any selection in any order may have reached the disk.  This is how the traces of
  \<^verbatim>\<open>biscuit/src/ufs\<close> are replayed to test crash safety (\<open>permTrace\<close>).
\<close>

subsection \<open>Crash images\<close>

definition rec_apply :: "record_t \<Rightarrow> page list \<Rightarrow> page list" where
  "rec_apply r f = (if Cmd r = ''write'' then f[nat (BlkNo r) := BlkData r] else f)"

definition crash_image :: "page list \<Rightarrow> record_t list \<Rightarrow> page list \<Rightarrow> bool" where
  "crash_image f0 recs f' \<longleftrightarrow> (\<exists>synced pend sel. recs = synced @ pend \<and> (synced = [] \<or> Cmd (last synced) = ''sync'') \<and>
     (\<forall>r \<in> set pend. Cmd r \<noteq> ''sync'') \<and> set sel \<subseteq> set pend \<and> f' = fold rec_apply sel (fold rec_apply synced f0))"

lemma fold_wrec: "fold rec_apply (map wrec ws) f = upd_all ws f"
  by (induction ws arbitrary: f) (simp_all add: rec_apply_def)

lemma fold_rec_apply_length [simp]: "length (fold rec_apply rs f) = length f"
  by (induction rs arbitrary: f) (simp_all add: rec_apply_def)

lemma fold_rec_apply_other:
  "n \<notin> (\<lambda>r. nat (BlkNo r)) ` set rs \<Longrightarrow> fold rec_apply rs f ! n = f ! n"
  by (induction rs arbitrary: f) (auto simp: rec_apply_def)

lemma fold_same_rec: "set sel \<subseteq> {wrec w} \<Longrightarrow> sel \<noteq> [] \<Longrightarrow> fold rec_apply sel f = f[nat (fst w) := snd w]"
proof (induction sel arbitrary: f)
  case (Cons r sel)
  then show ?case by (cases "sel = []") (auto simp: rec_apply_def)
qed simp

text \<open>
  A commit writes blocks, syncs, writes the header and syncs.  A crash image either differs from the
  old image only in the written blocks, or is the complete new image.
\<close>

definition within :: "int set \<Rightarrow> page list \<Rightarrow> page list \<Rightarrow> bool" where
  "within S f f' \<longleftrightarrow> length f' = length f \<and> (\<forall>n. n \<notin> nat ` S \<longrightarrow> f' ! n = f ! n)"

lemma split_at_sync:
  assumes "map wrec ws @ [sync_rec, wrec h, sync_rec] = (synced @ pend) @ rest" "synced = [] \<or> Cmd (last synced) = ''sync''"
  shows "synced = [] \<or> synced = map wrec ws @ [sync_rec] \<or> synced = map wrec ws @ [sync_rec, wrec h, sync_rec]"
proof (cases "synced = []")
  case False
  then have s: "Cmd (last synced) = ''sync''" using assms(2) by simp
  define n where "n = length synced"
  let ?L = "map wrec ws @ [sync_rec, wrec h, sync_rec]"
  have tk: "synced = take n ?L" using assms(1) by (simp add: n_def)
  have len: "n \<le> length ws + 3" using arg_cong [OF assms(1), of length] by (simp add: n_def)
  have n0: "0 < n" using False by (simp add: n_def)
  have "last synced = synced ! (n - 1)" using False by (simp add: last_conv_nth n_def)
  also have "\<dots> = take n ?L ! (n - 1)" by (rule arg_cong [OF tk])
  also have "\<dots> = ?L ! (n - 1)" using n0 by (intro nth_take) simp
  finally have lst: "last synced = ?L ! (n - 1)" .
  have "\<not> n \<le> length ws"
  proof
    assume "n \<le> length ws"
    then have "?L ! (n - 1) = wrec (ws ! (n - 1))" using n0 by (simp add: nth_append)
    then show False using lst s by simp
  qed
  moreover have "n \<noteq> length ws + 2" using lst s by (auto simp: nth_append)
  ultimately have "n = length ws + 1 \<or> n = length ws + 3" using len by linarith
  then show ?thesis using tk by auto
qed simp

lemma commit_crash_cases:
  assumes "crash_image f0 q f'" "map wrec ws @ [sync_rec, wrec h, sync_rec] = q @ rest"
  shows "within (fst ` set ws) f0 f' \<or> f' = (upd_all ws f0)[nat (fst h) := snd h]"
proof -
  obtain synced pend sel where c: "q = synced @ pend" "synced = [] \<or> Cmd (last synced) = ''sync''" "\<forall>r \<in> set pend. Cmd r \<noteq> ''sync''"
      "set sel \<subseteq> set pend" "f' = fold rec_apply sel (fold rec_apply synced f0)"
    using assms(1) unfolding crash_image_def by blast
  let ?L = "map wrec ws @ [sync_rec, wrec h, sync_rec]"
  have L: "?L = (synced @ pend) @ rest" using assms(2) c(1) by simp
  have ww: "within (fst ` set ws) f0 (upd_all ws f0)"
    unfolding within_def fold_wrec [symmetric] using fold_rec_apply_other [of _ "map wrec ws" f0] by (auto simp: image_image)
  from split_at_sync [OF L c(2)] consider "synced = []" | "synced = map wrec ws @ [sync_rec]" | "synced = ?L" by blast
  then show ?thesis
  proof cases
    case 1
    have "set pend \<subseteq> set (map wrec ws)"
    proof -
      define k where "k = length pend"
      have p: "pend = take k ?L" using L 1 by (simp add: k_def)
      have "k \<le> length ws"
      proof (rule ccontr)
        assume k: "\<not> k \<le> length ws"
        then have "pend ! length ws = ?L ! length ws" unfolding p by (intro nth_take) simp
        then have "sync_rec \<in> set pend" using k nth_mem [of "length ws" pend] by (simp add: k_def nth_append)
        then show False using bspec [OF c(3), of sync_rec] by simp
      qed
      then show ?thesis unfolding p using set_take_subset [of k "map wrec ws"] by simp
    qed
    then have "set sel \<subseteq> set (map wrec ws)" using c(4) by blast
    then have "(\<lambda>r. nat (BlkNo r)) ` set sel \<subseteq> (\<lambda>r. nat (BlkNo r)) ` set (map wrec ws)" by (rule image_mono)
    then have "(\<lambda>r. nat (BlkNo r)) ` set sel \<subseteq> nat ` fst ` set ws" by (simp add: image_image)
    then have "n \<notin> nat ` fst ` set ws \<Longrightarrow> fold rec_apply sel f0 ! n = f0 ! n" for n
      by (intro fold_rec_apply_other) blast
    then have "within (fst ` set ws) f0 f'" unfolding within_def using c(5) 1 by simp
    then show ?thesis ..
  next
    case 2
    then have "pend @ rest = [wrec h, sync_rec]" using L by simp
    then have "set pend \<subseteq> {wrec h}" using c(3) by (cases pend) (auto simp: Cons_eq_append_conv append_eq_Cons_conv)
    then have "set sel \<subseteq> {wrec h}" using c(4) by blast
    moreover have "fold rec_apply synced f0 = upd_all ws f0" using 2 by (simp add: fold_wrec rec_apply_def)
    ultimately show ?thesis using fold_same_rec [of sel h] c(5) ww by (cases "sel = []") auto
  next
    case 3
    then have "sel = []" using L c(4) by simp
    then show ?thesis using c(5) 3 by (simp add: fold_wrec rec_apply_def)
  qed
qed

lemma commit_complete_image:
  assumes "crash_image f0 (map wrec ws @ [sync_rec, wrec h, sync_rec]) f'"
  shows "f' = (upd_all ws f0)[nat (fst h) := snd h]"
proof -
  obtain synced pend sel where c: "map wrec ws @ [sync_rec, wrec h, sync_rec] = synced @ pend" "synced = [] \<or> Cmd (last synced) = ''sync''"
      "\<forall>r \<in> set pend. Cmd r \<noteq> ''sync''" "set sel \<subseteq> set pend" "f' = fold rec_apply sel (fold rec_apply synced f0)"
    using assms unfolding crash_image_def by blast
  have "pend = []"
  proof (rule ccontr)
    assume "pend \<noteq> []"
    then have "last pend = sync_rec" using arg_cong [OF c(1), of last] by simp
    then show False using c(3) \<open>pend \<noteq> []\<close> by (metis last_in_set record_t.select_convs(1))
  qed
  then have "synced = map wrec ws @ [sync_rec, wrec h, sync_rec]" "sel = []" using c(1,4) by simp_all
  then show ?thesis using c(5) by (simp add: fold_wrec rec_apply_def)
qed

subsection \<open>The log on the old and on the new image\<close>

lemma tx_at_cong:
  assumes "\<And>k. k < tx_size tx \<Longrightarrow> D' (dpos ml (a + k)) = D (dpos ml (a + k))"
  shows "tx_at ml D' a tx = tx_at ml D a tx"
proof -
  have "D' (dpos ml a) = D (dpos ml a)" using assms [of 0] by (simp add: tx_size_def)
  moreover have "D' (dpos ml (a + 1 + k)) = D (dpos ml (a + 1 + k))" if "k < length (tx_revs tx)" for k
    using assms [of "1 + k"] that by (simp add: tx_size_def)
  moreover have "D' (dpos ml (a + 1 + length (tx_revs tx) + k)) = D (dpos ml (a + 1 + length (tx_revs tx) + k))" if "k < length (tx_ws tx)" for k
    using assms [of "1 + length (tx_revs tx) + k"] that by (simp add: tx_size_def add.assoc)
  ultimately show ?thesis unfolding tx_at_def by simp
qed

lemma txs_at_cong:
  assumes "\<And>k. k < txs_size txs \<Longrightarrow> D' (dpos ml (a + k)) = D (dpos ml (a + k))"
  shows "txs_at ml D' a txs = txs_at ml D a txs"
  using assms
proof (induction txs arbitrary: a)
  case (Cons tx txs)
  have "tx_at ml D' a tx = tx_at ml D a tx" using Cons.prems by (intro tx_at_cong) simp
  moreover have "txs_at ml D' (a + tx_size tx) txs = txs_at ml D (a + tx_size tx) txs"
    using Cons.prems [of "tx_size tx + _"] by (intro Cons.IH) (simp add: add.assoc)
  ultimately show ?case by simp
qed simp

lemma log_on_file_old:
  assumes "log_on_file ml f T txs" "within S f f'" "nat (logstart ml) \<notin> nat ` S"
    "\<And>k. k < txs_size txs \<Longrightarrow> nat (dpos ml (T + k)) \<notin> nat ` S"
  shows "log_on_file ml f' T txs"
proof -
  have "txs_at ml (\<lambda>n. f' ! nat n) T txs = txs_at ml (\<lambda>n. f ! nat n) T txs"
    using assms(2,4) by (intro txs_at_cong) (simp add: within_def)
  then show ?thesis using assms(1-3) by (simp add: log_on_file_def within_def)
qed

lemma upd_all_distinct:
  assumes "distinct (map (nat \<circ> fst) ws)" "w \<in> set ws" "nat (fst w) < length f"
  shows "upd_all ws f ! nat (fst w) = snd w"
  using assms
proof (induction ws arbitrary: f)
  case (Cons v ws)
  show ?case
  proof (cases "w = v")
    case True
    then have "nat (fst w) \<notin> nat ` fst ` set ws" using Cons.prems(1) by (auto simp: image_image)
    then show ?thesis using upd_all_other [of "fst w" ws] True Cons.prems(3) by simp
  next
    case False
    then show ?thesis using Cons by simp
  qed
qed simp

lemma slot_writes_nth:
  assumes "0 < loglen ml" "0 \<le> logstart ml" "logstart ml + loglen ml < int (length f)" "int n \<le> loglen ml" "i < n"
  shows "upd_all (slot_writes ml H n) f ! nat (dpos ml (H + i)) = Data (mlog ml (H + i))"
proof -
  let ?w = "(dpos ml (H + i), Data (mlog ml (H + i)))"
  have "inj_on (\<lambda>k. nat (dpos ml k)) {H ..< H + n}"
  proof (rule inj_onI)
    fix a b assume ab: "a \<in> {H ..< H + n}" "b \<in> {H ..< H + n}" "nat (dpos ml a) = nat (dpos ml b)"
    then have "spos ml a = spos ml b" using assms(2) by (simp add: dpos_def)
    moreover have "n \<le> nat (loglen ml)" using assms(4) by linarith
    ultimately show "a = b" using spos_window [of H a ml b] ab by simp
  qed
  then have "distinct (map (nat \<circ> fst) (slot_writes ml H n))" by (simp add: slot_writes_def distinct_map comp_def)
  moreover have "?w \<in> set (slot_writes ml H n)" using assms(5) by (auto simp: slot_writes_def)
  moreover have "nat (fst ?w) < length f" using dpos_range [OF assms(1), of "H + i"] assms(2,3) by (simp add: nat_less_iff)
  ultimately show ?thesis using upd_all_distinct [of _ ?w f] by simp
qed

definition log_region :: "memlog_t \<Rightarrow> int set" where
  "log_region ml = {logstart ml .. logstart ml + loglen ml}"

lemma dpos_region: "0 < loglen ml \<Longrightarrow> dpos ml a \<in> log_region ml" "0 < loglen ml \<Longrightarrow> dpos ml a \<noteq> logstart ml"
  using dpos_range [of ml a] by (auto simp: log_region_def)

lemma nat_region: "0 \<le> logstart ml \<Longrightarrow> x \<in> log_region ml \<Longrightarrow> y \<notin> log_region ml \<Longrightarrow> 0 \<le> y \<Longrightarrow> nat x \<noteq> nat y"
  by (auto simp: log_region_def eq_nat_nat_iff)

lemma log_on_file_new:
  assumes ml: "log_on_file ml f T txs" "tx_ok ml tx" "int (txs_size txs + tx_size tx) \<le> loglen ml" "Suc (T + txs_size txs + tx_size tx) < maxpos"
    and ws: "\<forall>w \<in> set (tx_ws tx). fst w < int (length f) \<and> fst w \<notin> log_region ml"
    and O: "\<forall>w \<in> set ws. 0 \<le> fst w \<and> fst w \<notin> log_region ml"
    and D: "tx_at ml (\<lambda>n. upd_all (slot_writes ml' (T + txs_size txs) (tx_size tx)) f ! nat n) (T + txs_size txs) tx"
    and g: "\<And>i. dpos ml' i = dpos ml i"
    and q: "page_ok q" "r_tail q = Ok (of_nat T)" "r_head q = Ok (of_nat (T + txs_size txs + tx_size tx))"
    and f': "f' = (upd_all (slot_writes ml' (T + txs_size txs) (tx_size tx) @ ws) f)[nat (logstart ml) := q]"
  shows "log_on_file ml f' T (txs @ [tx])"
proof -
  let ?H = "T + txs_size txs"
  have l: "0 < loglen ml" "0 \<le> logstart ml" "logstart ml + loglen ml < int (length f)" using ml(1) by (simp_all add: log_on_file_def)
  have at: "f' ! nat (dpos ml a) = upd_all (slot_writes ml' ?H (tx_size tx)) f ! nat (dpos ml a)" for a
  proof -
    have "nat (dpos ml a) \<noteq> nat (logstart ml)" using dpos_range [OF l(1), of a] l(2) by (simp add: eq_nat_nat_iff)
    moreover have "nat (dpos ml a) \<notin> nat ` fst ` set ws"
      using O nat_region [OF l(2) dpos_region(1) [OF l(1)], of _ a] by fastforce
    ultimately show ?thesis using upd_all_other [of "dpos ml a" ws] by (simp add: f')
  qed
  have "txs_at ml (\<lambda>n. f' ! nat n) T txs = txs_at ml (\<lambda>n. f ! nat n) T txs"
  proof (rule txs_at_cong)
    fix k assume k: "k < txs_size txs"
    have "nat (dpos ml (T + k)) \<notin> nat ` fst ` set (slot_writes ml' ?H (tx_size tx))"
    proof
      assume "nat (dpos ml (T + k)) \<in> nat ` fst ` set (slot_writes ml' ?H (tx_size tx))"
      then obtain j where j: "?H \<le> j" "j < ?H + tx_size tx" "nat (dpos ml (T + k)) = nat (dpos ml j)" by (auto simp: slot_writes_def g)
      then have "spos ml (T + k) = spos ml j" using l(2) by (simp add: dpos_def)
      moreover have "txs_size txs + tx_size tx \<le> nat (loglen ml)" using ml(3) by linarith
      ultimately have "T + k = j" using spos_window [of T "T + k" ml j] j k by simp
      then show False using j k by simp
    qed
    then show "f' ! nat (dpos ml (T + k)) = f ! nat (dpos ml (T + k))" unfolding at by (rule upd_all_other)
  qed
  moreover have "tx_at ml (\<lambda>n. f' ! nat n) ?H tx" using D at tx_at_cong [of tx "\<lambda>n. f' ! nat n" ml ?H "\<lambda>n. upd_all (slot_writes ml' ?H (tx_size tx)) f ! nat n"] by simp
  ultimately have "txs_at ml (\<lambda>n. f' ! nat n) T (txs @ [tx])" using ml(1,2) by (simp add: txs_at_append log_on_file_def)
  moreover have "f' ! nat (logstart ml) = q" "length f' = length f" using l by (simp_all add: f')
  ultimately show ?thesis using ml ws q by (auto simp: log_on_file_def log_region_def add.assoc)
qed

subsection \<open>Committing a transaction\<close>

text \<open>
  The journal is about to commit its current transaction, whose contents are \<open>tx\<close>: the disk's log
  holds the committed transactions \<open>txs\<close> from position \<open>T\<close> on and has room, the revoke blocks hold
  the revoked numbers, and the logged and ordered blocks lie outside the log.
\<close>

definition can_commit :: "log_t \<Rightarrow> bcache_t \<Rightarrow> nat \<Rightarrow> tx list \<Rightarrow> tx \<Rightarrow> bool" where
  "can_commit log bc T txs tx \<longleftrightarrow>
     (let ml = lt_ml log; t = curtrans log; H = T + txs_size txs; n = length (dfile bc) in
      ml_ok ml \<and> log_on_file ml (dfile bc) T txs \<and> hdr_coherent ml bc \<and>
      lt_tail log = of_nat T \<and> tr_start t = of_nat H \<and> tr_head t = of_nat (Suc H) \<and>
      tx_ok ml tx \<and> 1 < tx_size tx \<and> int (txs_size txs + tx_size tx) \<le> loglen ml \<and> Suc (H + tx_size tx) < maxpos \<and>
      list_all2 (\<lambda>b rs. Type b = - 2 \<and> page_ok (Data b) \<and> fields (Data b) 1 (rs @ [0])) (revoked (revokel t)) (tx_revs tx) \<and>
      tx_ws tx = map (\<lambda>n. (n, cached bc n)) (logged t) \<and>
      (\<forall>b \<in> set (logged t). b < int n \<and> b \<notin> log_region ml \<and> page_ok (cached bc b)) \<and>
      (\<forall>b \<in> set (ordered t). 0 \<le> b \<and> b < int n \<and> b \<notin> log_region ml))"

definition log_block :: "bcache_t \<Rightarrow> int \<Rightarrow> bdev_block_t" where
  "log_block bc n = \<lparr>Block = n, Type = 0, Data = cached bc n\<rparr>"

lemma stored_tx:
  assumes "ml_ok ml" "list_all2 (\<lambda>b rs. Type b = - 2 \<and> page_ok (Data b) \<and> fields (Data b) 1 (rs @ [0])) bs (tx_revs tx)"
    "tx_ws tx = map (\<lambda>n. (n, cached bc n)) ns" "\<forall>n \<in> set ns. page_ok (cached bc n)" "int (tx_size tx) \<le> loglen ml"
  shows "tx_in_mem (mstore (mstore ml (Suc H) bs) (Suc H + length bs) (map (log_block bc) ns)) H tx"
proof -
  let ?ml1 = "mstore ml (Suc H) bs" and ?bl = "map (log_block bc) ns"
  have m: "length bs = length (tx_revs tx)" using assms(2) by (rule list_all2_lengthD)
  have b: "\<forall>b \<in> set bs. page_ok (Data b)" "\<forall>b \<in> set ?bl. page_ok (Data b)"
    using assms(2,4) by (auto simp: list_all2_conv_all_nth in_set_conv_nth log_block_def)
  have ok1: "ml_ok ?ml1" using assms(1) b(1) by (rule mstore_ok)
  have sz: "Suc (length bs + length ns) \<le> nat (loglen ml)" using assms(3,5) m unfolding tx_size_def by simp
  have "mlog (mstore ?ml1 (Suc H + length bs) ?bl) (Suc H + r) = bs ! r" if r: "r < length bs" for r
  proof -
    have "\<forall>k < length ?bl. spos ?ml1 (Suc H + r) \<noteq> spos ?ml1 (Suc H + length bs + k)"
    proof (intro allI impI)
      fix k assume "k < length ?bl"
      then show "spos ?ml1 (Suc H + r) \<noteq> spos ?ml1 (Suc H + length bs + k)"
        using spos_window [of "Suc H" "Suc H + r" ml "Suc H + length bs + k"] r sz by simp
    qed
    then have "mlog (mstore ?ml1 (Suc H + length bs) ?bl) (Suc H + r) = mlog ?ml1 (Suc H + r)" using ok1 b(2) by (intro mlog_mstore_other)
    then show ?thesis using mlog_mstore [OF assms(1) b(1) _ r, of "Suc H"] sz by simp
  qed
  moreover have "mlog (mstore ?ml1 (Suc H + length bs) ?bl) (Suc H + length bs + k) = log_block bc (ns ! k)" if "k < length ns" for k
    using mlog_mstore [OF ok1 b(2), of k "Suc H + length bs"] that sz by simp
  ultimately show ?thesis using assms(2,3) m by (auto simp: tx_in_mem_def list_all2_conv_all_nth log_block_def)
qed

lemma prepare_Ok:
  assumes "can_commit log bc T txs tx"
  obtains early log' where "committer_prepare bc log = Ok (early, (curtrans log)\<lparr>tr_head := of_nat (T + txs_size txs + tx_size tx)\<rparr>, log')"
    "lt_tail log' = of_nat T" "ml_ok (lt_ml log')" "tx_in_mem (lt_ml log') (T + txs_size txs) tx"
    "loglen (lt_ml log') = loglen (lt_ml log)" "maxtrans (lt_ml log') = maxtrans (lt_ml log)" "logstart (lt_ml log') = logstart (lt_ml log)"
proof -
  let ?ml = "lt_ml log" and ?t = "curtrans log" and ?H = "T + txs_size txs"
  let ?bs = "revoked (revokel ?t)" and ?ns = "logged ?t"
  have c: "ml_ok ?ml" "lt_tail log = of_nat T" "tr_start ?t = of_nat ?H" "tr_head ?t = of_nat (Suc ?H)" "1 < tx_size tx"
      "int (txs_size txs + tx_size tx) \<le> loglen ?ml" "Suc (?H + tx_size tx) < maxpos"
      "list_all2 (\<lambda>b rs. Type b = - 2 \<and> page_ok (Data b) \<and> fields (Data b) 1 (rs @ [0])) ?bs (tx_revs tx)"
      "tx_ws tx = map (\<lambda>n. (n, cached bc n)) ?ns" "\<forall>b \<in> set ?ns. page_ok (cached bc b)"
    using assms by (auto simp: can_commit_def Let_def)
  have sz: "tx_size tx = 1 + length ?bs + length ?ns" using c(8,9) by (simp add: tx_size_def list_all2_lengthD)
  define t where "t = ?t\<lparr>tr_head := of_nat (?H + tx_size tx)\<rparr>"
  have hd: "tr_head ?t + of_int (int (length ?ns) + rl_len (revokel ?t)) = of_nat (?H + tx_size tx)"
    using c(4) sz by (simp add: rl_len_def add_ac)
  have b: "\<forall>b \<in> set ?bs. page_ok (Data b)" "\<forall>n \<in> set ?ns. page_ok (Data (log_block bc n))"
    using c(8,10) by (auto simp: list_all2_conv_all_nth in_set_conv_nth log_block_def)
  let ?ml1 = "mstore ?ml (Suc ?H) ?bs" and ?ml2 = "mstore (mstore ?ml (Suc ?H) ?bs) (Suc ?H + length ?bs) (map (log_block bc) ?ns)"
  have ok: "ml_ok ?ml1" "ml_ok ?ml2" using c(1) b by (simp_all add: mstore_ok)
  have s: "tr_start t + 1 = of_nat (Suc ?H)" "tr_start t + 1 + of_nat (length ?bs) = of_nat (Suc ?H + length ?bs)"
    using c(3) by (simp_all add: t_def add_ac)
  have "copyrevoked ?ml t = Ok ?ml1"
    using store_seq [of ?ml ?bs "\<lambda>b. b" "Suc ?H"] c(1,7) b(1) sz unfolding copyrevoked_def s by (simp add: t_def del: of_nat_Suc of_nat_add)
  moreover have "copylogged ?ml1 bc t = Ok ?ml2"
  proof -
    have f: "revoked (revokel t) = ?bs" "logged t = ?ns" and h: "of_nat (Suc ?H + length ?bs + length ?ns) = tr_head t"
      by (simp_all add: t_def sz)
    have "Suc ?H + length ?bs + length ?ns < maxpos" using c(7) sz by simp
    from store_seq [OF ok(1) b(2) this]
    have "gfold (\<lambda>n (i, ml). gbind (setmemlog ml i (\<lambda>_. log_block bc n)) (\<lambda>ml. Ok (i + 1, ml))) (logged t)
        (tr_start t + 1 + of_nat (length (revoked (revokel t))), ?ml1) = Ok (tr_head t, ?ml2)"
      unfolding f s(2) h .
    then show ?thesis unfolding copylogged_def log_block_def by simp
  qed
  moreover have "tr_start t + 1 \<noteq> tr_head t"
  proof
    assume a: "tr_start t + 1 = tr_head t"
    have h: "tr_head t = of_nat (?H + tx_size tx)" unfolding t_def by simp
    have "(of_nat (Suc ?H) :: index_t) = of_nat (?H + tx_size tx)" using a unfolding s(1) h .
    then have "unat (of_nat (Suc ?H) :: index_t) = unat (of_nat (?H + tx_size tx) :: index_t)" by (rule arg_cong)
    then show False using unat_of_nat_small [of "Suc ?H"] unat_of_nat_small [of "?H + tx_size tx"] c(5,7) by linarith
  qed
  moreover have "\<exists>e. freespace ?ml2 (tr_head t) (lt_tail log) = Ok e"
  proof -
    have "tr_head t - lt_tail log = of_nat (txs_size txs + tx_size tx)" using c(2) by (simp add: t_def)
    then have "sint (tr_head t - lt_tail log) = int (txs_size txs + tx_size tx)" using sint_of_nat_small [of "txs_size txs + tx_size tx"] c(7) by simp
    then show ?thesis using c(6) by (simp add: freespace_def Let_def)
  qed
  ultimately obtain e where "committer_prepare bc log = Ok (e, t, if e then log\<lparr>lt_ml := ?ml2, curtrans := t, translog := translog_add t (translog log)\<rparr>\<lparr>curtrans := mk_trans (tr_head t)\<rparr>
      else log\<lparr>lt_ml := ?ml2, curtrans := t, translog := translog_add t (translog log)\<rparr>)"
    unfolding committer_prepare_def hd Let_def t_def [symmetric] by auto
  then show ?thesis using that c(2) ok(2) stored_tx [OF c(1,8,9,10)] c(6) by (auto simp: t_def split: if_splits)
qed

text \<open>Recovery depends on the in-memory log only through its geometry.\<close>

definition same_geometry :: "memlog_t \<Rightarrow> memlog_t \<Rightarrow> bool" where
  "same_geometry ml ml' \<longleftrightarrow> loglen ml' = loglen ml \<and> maxtrans ml' = maxtrans ml \<and> logstart ml' = logstart ml"

lemma geometry_pos: "same_geometry ml ml' \<Longrightarrow> spos ml' n = spos ml n" "same_geometry ml ml' \<Longrightarrow> dpos ml' n = dpos ml n"
  by (simp_all add: same_geometry_def spos_def dpos_def)

lemma geometry_txs: "same_geometry ml ml' \<Longrightarrow> txs_at ml' D a txs = txs_at ml D a txs"
proof (induction txs arbitrary: a)
  case (Cons tx txs)
  have "tx_ok ml' tx = tx_ok ml tx" using Cons.prems by (simp add: tx_ok_def same_geometry_def)
  moreover have "tx_at ml' D a tx = tx_at ml D a tx" unfolding tx_at_def geometry_pos(2) [OF Cons.prems] by (rule refl)
  ultimately show ?case using Cons by simp
qed simp

lemma geometry_file: "same_geometry ml ml' \<Longrightarrow> log_on_file ml' f T txs = log_on_file ml f T txs"
  using geometry_txs [of ml ml'] by (simp add: log_on_file_def same_geometry_def)

text \<open>
  After a boot from the image \<open>f'\<close> recovery returns, and outside the log and the blocks \<open>S\<close> the disk
  then holds \<open>f\<close> with the writes of the journal of \<open>txs\<close>.
\<close>

definition recovers_to :: "memlog_t \<Rightarrow> page list \<Rightarrow> int set \<Rightarrow> page list \<Rightarrow> tx list \<Rightarrow> bool" where
  "recovers_to ml f' S f txs \<longleftrightarrow> (\<forall>log bc. same_geometry ml (lt_ml log) \<longrightarrow> coherent bc \<longrightarrow> dfile bc = f' \<longrightarrow>
     (\<exists>log' bc'. log_recover log bc = Some (Ok (log', bc')) \<and>
       (\<forall>n. n \<notin> nat ` (log_region ml \<union> S) \<longrightarrow> dfile bc' ! n = upd_all (journal txs) f ! n)))"

lemma upd_all_cong_at: "length f' = length f \<Longrightarrow> f' ! n = f ! n \<Longrightarrow> upd_all ws f' ! n = upd_all ws f ! n"
proof (induction ws arbitrary: f f')
  case (Cons w ws)
  have "(f'[nat (fst w) := snd w]) ! n = (f[nat (fst w) := snd w]) ! n"
    using Cons.prems by (cases "n = nat (fst w)"; cases "n < length f") (auto simp: list_update_beyond)
  then show ?case using Cons.IH [of "f'[nat (fst w) := snd w]" "f[nat (fst w) := snd w]"] Cons.prems(1) by simp
qed simp

lemma recovers_toI:
  assumes "log_on_file ml f' T txs" "length f' = length f" "\<And>n. n \<notin> nat ` (log_region ml \<union> S) \<Longrightarrow> f' ! n = f ! n"
  shows "recovers_to ml f' S f txs"
  unfolding recovers_to_def
proof (intro allI impI)
  fix log :: log_t and bc :: bcache_t assume g: "same_geometry ml (lt_ml log)" "coherent bc" "dfile bc = f'"
  then obtain log' bc' where r: "log_recover log bc = Some (Ok (log', bc'))"
      "\<forall>n. n \<noteq> nat (logstart (lt_ml log)) \<longrightarrow> dfile bc' ! n = upd_all (journal txs) f' ! n"
    using recover_journal [of bc log T txs] assms(1) geometry_file [OF g(1)] by auto
  have "dfile bc' ! n = upd_all (journal txs) f ! n" if n: "n \<notin> nat ` (log_region ml \<union> S)" for n
  proof -
    have "0 < loglen ml" using assms(1) by (simp add: log_on_file_def)
    then have "n \<noteq> nat (logstart (lt_ml log))" using n g(1) by (auto simp: log_region_def same_geometry_def)
    then show ?thesis using r(2) upd_all_cong_at [OF assms(2) assms(3) [OF n]] by simp
  qed
  then show "\<exists>log' bc'. log_recover log bc = Some (Ok (log', bc')) \<and>
      (\<forall>n. n \<notin> nat ` (log_region ml \<union> S) \<longrightarrow> dfile bc' ! n = upd_all (journal txs) f ! n)" using r(1) by blast
qed

lemma within_nth: "within S f f' \<Longrightarrow> n \<notin> nat ` S \<Longrightarrow> f' ! n = f ! n"
  by (simp add: within_def)

lemma within_upd_all: "within (fst ` set ws) f (upd_all ws f)"
  unfolding within_def fold_wrec [symmetric] using fold_rec_apply_other [of _ "map wrec ws" f] by (auto simp: image_image)

lemma slot_region:
  "0 < loglen ml \<Longrightarrow> same_geometry ml ml' \<Longrightarrow> fst ` set (slot_writes ml' H n) \<subseteq> log_region ml"
  using dpos_region(1) [of ml] by (auto simp: slot_writes_def geometry_pos)

lemma commit_images:
  assumes ml: "log_on_file ml f T txs" "same_geometry ml ml'" "tx_ok ml tx" "int (txs_size txs + tx_size tx) \<le> loglen ml"
      "Suc (T + txs_size txs + tx_size tx) < maxpos"
    and ws: "\<forall>w \<in> set (tx_ws tx). fst w < int (length f) \<and> fst w \<notin> log_region ml" and S: "\<forall>w \<in> set ws. 0 \<le> fst w \<and> fst w \<notin> log_region ml"
    and D: "tx_at ml (\<lambda>n. upd_all (slot_writes ml' (T + txs_size txs) (tx_size tx)) f ! nat n) (T + txs_size txs) tx"
    and q: "page_ok q" "r_tail q = Ok (of_nat T)" "r_head q = Ok (of_nat (T + txs_size txs + tx_size tx))"
    and W: "W = slot_writes ml' (T + txs_size txs) (tx_size tx) @ ws"
  shows "within (fst ` set W) f f' \<Longrightarrow> recovers_to ml f' (fst ` set ws) f txs"
    "f' = (upd_all W f)[nat (logstart ml) := q] \<Longrightarrow> recovers_to ml f' (fst ` set ws) f (txs @ [tx])"
proof -
  let ?H = "T + txs_size txs"
  have l: "0 < loglen ml" "0 \<le> logstart ml" using ml(1) by (simp_all add: log_on_file_def)
  have reg: "nat ` fst ` set W \<subseteq> nat ` (log_region ml \<union> fst ` set ws)" unfolding W set_append image_Un
    using image_mono [OF slot_region [OF l(1) ml(2)], of nat "T + txs_size txs" "tx_size tx"] by blast
  have notW: "nat x \<notin> nat ` fst ` set W"
    if x: "x \<in> log_region ml" and d: "\<And>j. ?H \<le> j \<Longrightarrow> j < ?H + tx_size tx \<Longrightarrow> nat x \<noteq> nat (dpos ml j)" for x
  proof
    assume "nat x \<in> nat ` fst ` set W"
    then consider j where "?H \<le> j" "j < ?H + tx_size tx" "nat x = nat (dpos ml j)" | w where "w \<in> set ws" "nat x = nat (fst w)"
      unfolding W by (auto simp: slot_writes_def geometry_pos [OF ml(2)])
    then show False
    proof cases
      case 1
      then show False using d by blast
    next
      case 2
      then show False using S nat_region [OF l(2) x, of "fst w"] by blast
    qed
  qed
  show "recovers_to ml f' (fst ` set ws) f txs" if f': "within (fst ` set W) f f'"
  proof (rule recovers_toI)
    show "log_on_file ml f' T txs"
    proof (rule log_on_file_old [OF ml(1) f'])
      show "nat (logstart ml) \<notin> nat ` fst ` set W"
      proof (rule notW)
        show "logstart ml \<in> log_region ml" using l by (simp add: log_region_def)
        show "nat (logstart ml) \<noteq> nat (dpos ml j)" for j using dpos_range [OF l(1), of j] l(2) by (simp add: eq_nat_nat_iff)
      qed
      fix k assume k: "k < txs_size txs"
      show "nat (dpos ml (T + k)) \<notin> nat ` fst ` set W"
      proof (rule notW [OF dpos_region(1) [OF l(1)]])
        fix j assume j: "?H \<le> j" "j < ?H + tx_size tx"
        show "nat (dpos ml (T + k)) \<noteq> nat (dpos ml j)"
        proof
          assume "nat (dpos ml (T + k)) = nat (dpos ml j)"
          then have "spos ml (T + k) = spos ml j" using l(2) by (simp add: dpos_def)
          moreover have "txs_size txs + tx_size tx \<le> nat (loglen ml)" using ml(4) by linarith
          ultimately show False using spos_window [of T "T + k" ml j] j k by simp
        qed
      qed
    qed
    show "length f' = length f" using f' by (simp add: within_def)
    show "f' ! n = f ! n" if "n \<notin> nat ` (log_region ml \<union> fst ` set ws)" for n
      by (rule within_nth [OF f']) (use that reg in blast)
  qed
  show "recovers_to ml f' (fst ` set ws) f (txs @ [tx])" if f': "f' = (upd_all W f)[nat (logstart ml) := q]"
  proof (rule recovers_toI)
    show "log_on_file ml f' T (txs @ [tx])"
      by (rule log_on_file_new [OF ml(1,3-5) ws S D geometry_pos(2) [OF ml(2)] q]) (simp add: f' W)
    have "nat (logstart ml) \<in> nat ` (log_region ml \<union> fst ` set ws)" using l by (auto simp: log_region_def)
    then have h: "n \<noteq> nat (logstart ml)" if "n \<notin> nat ` (log_region ml \<union> fst ` set ws)" for n using that by blast
    show "f' ! n = f ! n" if "n \<notin> nat ` (log_region ml \<union> fst ` set ws)" for n
    proof -
      have "upd_all W f ! n = f ! n" by (rule within_nth [OF within_upd_all]) (use that reg in blast)
      then show ?thesis using h [OF that] by (simp add: f')
    qed
  qed (simp add: f')
qed

lemma tx_at_of_mem:
  assumes "ml_ok ml" "tx_in_mem ml H tx" "int (tx_size tx) \<le> loglen ml"
    "fields (Data b) 1 (replicate (length (tx_revs tx)) (- 2) @ map fst (tx_ws tx) @ [0])"
    "\<And>i. i < tx_size tx \<Longrightarrow> D (dpos ml (H + i)) = Data (mlog (mset ml H b) (H + i))"
  shows "tx_at ml D H tx"
proof -
  have other: "D (dpos ml (H + i)) = Data (mlog ml (H + i))" if i: "0 < i" "i < tx_size tx" for i
  proof -
    have "spos ml (H + i) \<noteq> spos ml H" using spos_window [of H "H + i" ml H] i assms(3) by simp
    then show ?thesis using assms(5) [OF i(2)] by (simp add: mlog_mset assms(1))
  qed
  have "D (dpos ml H) = Data b" using assms(5) [of 0] assms(1) by (simp add: tx_size_def mlog_mset)
  moreover have "D (dpos ml (H + 1 + k)) = Data (mlog ml (H + 1 + k))" if "k < length (tx_revs tx)" for k
    using other [of "1 + k"] that by (simp add: tx_size_def)
  moreover have "D (dpos ml (H + 1 + length (tx_revs tx) + k)) = Data (mlog ml (H + 1 + length (tx_revs tx) + k))" if "k < length (tx_ws tx)" for k
    using other [of "1 + length (tx_revs tx) + k"] that by (simp add: tx_size_def add.assoc)
  ultimately show ?thesis using assms(2,4) by (simp add: tx_at_def tx_in_mem_def)
qed

lemma commit_Ok:
  assumes can: "can_commit log bc T txs tx" and ml1: "ml_ok ml1" "tx_in_mem ml1 (T + txs_size txs) tx" "same_geometry (lt_ml log) ml1"
  shows "\<exists>ml' bc' q. let W = slot_writes ml' (T + txs_size txs) (tx_size tx) @ map (\<lambda>n. (n, cached bc n)) (ordered (curtrans log));
       t = (curtrans log)\<lparr>tr_head := of_nat (T + txs_size txs + tx_size tx)\<rparr> in
     commit (of_nat T) t ml1 bc = Ok (t\<lparr>ordered := []\<rparr>, ml', bc') \<and> same_geometry (lt_ml log) ml' \<and>
     tx_at (lt_ml log) (\<lambda>n. upd_all (slot_writes ml' (T + txs_size txs) (tx_size tx)) (dfile bc) ! nat n) (T + txs_size txs) tx \<and>
     page_ok q \<and> r_tail q = Ok (of_nat T) \<and> r_head q = Ok (of_nat (T + txs_size txs + tx_size tx)) \<and>
     bctrace bc' = map_option (\<lambda>tr. tr @ map wrec W @ [sync_rec, wrec (logstart (lt_ml log), q), sync_rec]) (bctrace bc)"
proof -
  let ?ml = "lt_ml log" and ?H = "T + txs_size txs" and ?O = "map (\<lambda>n. (n, cached bc n)) (ordered (curtrans log))"
  let ?t = "(curtrans log)\<lparr>tr_head := of_nat (?H + tx_size tx)\<rparr>"
  have c: "log_on_file ?ml (dfile bc) T txs" "hdr_coherent ?ml bc" "tr_start (curtrans log) = of_nat ?H" "tx_ok ?ml tx"
      "1 < tx_size tx" "int (txs_size txs + tx_size tx) \<le> loglen ?ml" "Suc (?H + tx_size tx) < maxpos"
      "\<forall>b \<in> set (ordered (curtrans log)). 0 \<le> b \<and> b < int (length (dfile bc)) \<and> b \<notin> log_region ?ml"
    using can by (auto simp: can_commit_def Let_def)
  have l: "0 < loglen ?ml" "0 \<le> logstart ?ml" "logstart ?ml + loglen ?ml < int (length (dfile bc))" using c(1) by (simp_all add: log_on_file_def)
  have g: "loglen ml1 = loglen ?ml" "logstart ml1 = logstart ?ml" using ml1(3) by (simp_all add: same_geometry_def)
  have sz: "int (tx_size tx) \<le> loglen ml1" "T \<le> ?H" "tx_ok ml1 tx" using c(4,6) ml1(3) by (auto simp: same_geometry_def tx_ok_def)
  obtain b w1 w2 where b: "commit_build (of_nat T) ?t ml1 = Ok (mset ml1 ?H b, w1, w2)" "w1 @ w2 = slot_writes (mset ml1 ?H b) ?H (tx_size tx)"
      "page_ok (Data b)" "fields (Data b) 1 (replicate (length (tx_revs tx)) (- 2) @ map fst (tx_ws tx) @ [0])"
    using commit_build_Ok [OF ml1(1) sz(3) ml1(2) sz(1,2) c(7), of ?t] c(3) by auto
  let ?ml' = "mset ml1 ?H b"
  have g': "same_geometry ?ml ?ml'" using ml1(3) by (simp add: same_geometry_def)
  have ne: "tr_start ?t \<noteq> tr_head ?t"
  proof
    assume "tr_start ?t = tr_head ?t"
    then have "unat (of_nat ?H :: index_t) = unat (of_nat (?H + tx_size tx) :: index_t)" using c(3) by simp
    then show False using unat_of_nat_small [of ?H] unat_of_nat_small [of "?H + tx_size tx"] c(5,7) by linarith
  qed
  have ls: "logstart ?ml \<in> log_region ?ml" using l by (simp add: log_region_def)
  have w: "\<forall>w \<in> set (w1 @ w2). 0 \<le> fst w \<and> fst w < int (length (dfile bc)) \<and> fst w \<noteq> logstart ?ml'"
  proof
    fix w assume "w \<in> set (w1 @ w2)"
    then obtain j where "fst w = dpos ?ml j" unfolding b(2) by (auto simp: slot_writes_def geometry_pos [OF ml1(3)])
    then show "0 \<le> fst w \<and> fst w < int (length (dfile bc)) \<and> fst w \<noteq> logstart ?ml'" using dpos_range [OF l(1), of j] l g by simp
  qed
  have hc: "hdr_coherent ?ml' bc" using c(2) g by (simp add: hdr_coherent_def)
  have o: "\<forall>n \<in> set (ordered ?t). 0 \<le> n \<and> n < int (length (dfile bc)) \<and> n \<noteq> logstart ?ml'" using c(8) ls g by auto
  obtain bc' q where io: "commit_io ?t ?ml' w1 w2 bc = Ok (?t\<lparr>ordered := []\<rparr>, bc')" "page_ok q" "r_head q = Ok (tr_head ?t)"
      "r_tail q = r_tail (dview bc (logstart ?ml'))"
      "bctrace bc' = map_option (\<lambda>tr. tr @ map wrec (w1 @ w2 @ ?O) @ [sync_rec, wrec (logstart ?ml', q), sync_rec]) (bctrace bc)"
    using commit_io_Ok [OF ne o w hc refl] by auto
  have "tx_at ml1 (\<lambda>n. upd_all (slot_writes ?ml' ?H (tx_size tx)) (dfile bc) ! nat n) ?H tx"
    using slot_writes_nth [of ?ml' "dfile bc" "tx_size tx" _ ?H] l g sz(1) by (intro tx_at_of_mem [OF ml1(1,2) sz(1) b(4)]) simp
  then have "tx_at ?ml (\<lambda>n. upd_all (slot_writes ?ml' ?H (tx_size tx)) (dfile bc) ! nat n) ?H tx"
    unfolding tx_at_def geometry_pos(2) [OF ml1(3)] .
  moreover have "r_tail q = Ok (of_nat T)" using io(4) c(1) g by (simp add: log_on_file_def)
  moreover have w12: "w1 @ w2 @ ?O = slot_writes ?ml' ?H (tx_size tx) @ ?O" using b(2) by simp
  moreover have "logstart ?ml' = logstart ?ml" using g by simp
  moreover note io(5) [unfolded w12]
  moreover have "commit (of_nat T) ?t ml1 bc = Ok (?t\<lparr>ordered := []\<rparr>, ?ml', bc')" using b(1) io(1) by (simp add: commit_def)
  ultimately show ?thesis using io(2,3) g' by (intro exI [of _ ?ml'] exI [of _ bc'] exI [of _ q]) (simp add: Let_def)
qed

text \<open>
  C6: Committing a transaction is atomic and durable.  From a state that is ready to commit, the
  committer neither panics nor waits; if the machine stops after any part of the writes the commit
  issues, with any selection of the writes since the last sync on the disk, recovery ends and leaves
  every block outside the log and the ordered data as the earlier transactions leave it, or every one
  as the earlier transactions followed by this one do.  Once the commit has returned it is the latter.
\<close>

theorem commit_crash_atomic:
  assumes "can_commit log bc T txs tx" "bctrace bc = Some tr0"
  shows "\<exists>early t log1 t' ml' bc' recs. committer_prepare bc log = Ok (early, t, log1) \<and>
    commit (lt_tail log1) t (lt_ml log1) bc = Ok (t', ml', bc') \<and> bctrace bc' = Some (tr0 @ recs) \<and>
    (\<forall>q rest f'. recs = q @ rest \<and> crash_image (dfile bc) q f' \<longrightarrow>
       recovers_to (lt_ml log) f' (set (ordered (curtrans log))) (dfile bc) txs \<or>
       recovers_to (lt_ml log) f' (set (ordered (curtrans log))) (dfile bc) (txs @ [tx])) \<and>
    (\<forall>f'. crash_image (dfile bc) recs f' \<longrightarrow>
       recovers_to (lt_ml log) f' (set (ordered (curtrans log))) (dfile bc) (txs @ [tx]))"
proof -
  let ?ml = "lt_ml log" and ?H = "T + txs_size txs" and ?O = "map (\<lambda>n. (n, cached bc n)) (ordered (curtrans log))"
  let ?t = "(curtrans log)\<lparr>tr_head := of_nat (?H + tx_size tx)\<rparr>"
  obtain early log1 where p: "committer_prepare bc log = Ok (early, ?t, log1)" "lt_tail log1 = of_nat T" "ml_ok (lt_ml log1)"
      "tx_in_mem (lt_ml log1) ?H tx" "same_geometry ?ml (lt_ml log1)"
    using prepare_Ok [OF assms(1)] unfolding same_geometry_def by metis
  obtain ml' bc' q where k: "commit (of_nat T) ?t (lt_ml log1) bc = Ok (?t\<lparr>ordered := []\<rparr>, ml', bc')" "same_geometry ?ml ml'"
      "tx_at ?ml (\<lambda>n. upd_all (slot_writes ml' ?H (tx_size tx)) (dfile bc) ! nat n) ?H tx"
      "page_ok q" "r_tail q = Ok (of_nat T)" "r_head q = Ok (of_nat (?H + tx_size tx))"
      "bctrace bc' = map_option (\<lambda>tr. tr @ map wrec (slot_writes ml' ?H (tx_size tx) @ ?O) @ [sync_rec, wrec (logstart ?ml, q), sync_rec]) (bctrace bc)"
    using commit_Ok [OF assms(1) p(3,4,5)] by (auto simp: Let_def)
  let ?W = "slot_writes ml' ?H (tx_size tx) @ ?O"
  have c: "log_on_file ?ml (dfile bc) T txs" "tx_ok ?ml tx" "int (txs_size txs + tx_size tx) \<le> loglen ?ml" "Suc (?H + tx_size tx) < maxpos"
      "\<forall>w \<in> set (tx_ws tx). fst w < int (length (dfile bc)) \<and> fst w \<notin> log_region ?ml" "\<forall>w \<in> set ?O. 0 \<le> fst w \<and> fst w \<notin> log_region ?ml"
    using assms(1) by (auto simp: can_commit_def Let_def)
  have S: "fst ` set ?O = set (ordered (curtrans log))" by (simp add: image_image)
  note img = commit_images [OF c(1) k(2) c(2-6) k(3-6) refl, unfolded S]
  let ?recs = "map wrec ?W @ [sync_rec, wrec (logstart ?ml, q), sync_rec]"
  have "recovers_to ?ml f' (set (ordered (curtrans log))) (dfile bc) txs \<or> recovers_to ?ml f' (set (ordered (curtrans log))) (dfile bc) (txs @ [tx])"
    if "?recs = q' @ rest" "crash_image (dfile bc) q' f'" for q' rest f'
    using commit_crash_cases [OF that(2,1)] img [of f'] by auto
  moreover have "recovers_to ?ml f' (set (ordered (curtrans log))) (dfile bc) (txs @ [tx])" if "crash_image (dfile bc) ?recs f'" for f'
    using commit_complete_image [OF that] img(2) [of f'] by simp
  moreover have "bctrace bc' = Some (tr0 @ ?recs)" using k(7) assms(2) by simp
  moreover have "commit (lt_tail log1) ?t (lt_ml log1) bc = Ok (?t\<lparr>ordered := []\<rparr>, ml', bc')" using k(1) p(2) by simp
  ultimately show ?thesis using p(1) by blast
qed

text \<open>A small journal that is about to commit one logged and one ordered block.\<close>

abbreviation zpage :: page where "zpage \<equiv> replicate 4096 0"

definition demo_ml :: memlog_t where
  "demo_ml = \<lparr>ml_log = replicate 7 \<lparr>Block = 0, Type = 0, Data = zpage\<rparr>, loglen = 7, maxtrans = 4, logstart = 2\<rparr>"

definition demo_bc :: bcache_t where
  "demo_bc = \<lparr>bc_cache = [20 \<mapsto> replicate 4096 1], bc_disk = \<lparr>df = replicate 24 zpage, dtrace = Some []\<rparr>\<rparr>"

definition demo_log :: log_t where
  "demo_log = \<lparr>lt_ml = demo_ml, curtrans = (mk_trans 0)\<lparr>logged := [20], logpresent := {20}, ordered := [21], orderedpresent := {21}\<rparr>,
     lt_tail = 0, lt_head = 0, translog = [], lt_stop = False, logging = True, nextop = 2\<rparr>"

definition demo_tx :: tx where "demo_tx = Tx [] [(20, replicate 4096 1)]"

lemma zpage_header: "r_tail zpage = Ok 0" "r_head zpage = Ok 0"
  using fieldr_zero_page [of 0] fieldr_zero_page [of 8] by (simp_all add: r_tail_def r_head_def LOG_START_def LOG_END_def)

lemma demo_on_file: "log_on_file demo_ml (replicate 24 zpage) 0 []"
  by (simp add: log_on_file_def demo_ml_def zpage_header)

lemma demo_can_commit: "can_commit demo_log demo_bc 0 [] demo_tx"
proof -
  have "hdr_coherent demo_ml demo_bc" "ml_ok demo_ml" by (simp_all add: hdr_coherent_def demo_ml_def demo_bc_def ml_ok_def)
  moreover have "tx_ok demo_ml demo_tx" "tx_size demo_tx = 2" by (simp_all add: tx_ok_def demo_ml_def demo_tx_def tx_size_def)
  ultimately show ?thesis using demo_on_file
    by (simp add: can_commit_def Let_def demo_log_def demo_bc_def demo_tx_def mk_trans_def mkRevokeList_def cached_def log_region_def)
      (simp add: demo_ml_def)
qed

theorem commit_crash_atomic_witness:
  "can_commit demo_log demo_bc 0 [] demo_tx \<and> bctrace demo_bc = Some [] \<and>
   (\<exists>early t log1 t' ml' bc' recs. committer_prepare demo_bc demo_log = Ok (early, t, log1) \<and>
     commit (lt_tail log1) t (lt_ml log1) demo_bc = Ok (t', ml', bc') \<and> bctrace bc' = Some recs)"
proof -
  have "bctrace demo_bc = Some []" by (simp add: demo_bc_def)
  then show ?thesis using commit_crash_atomic [OF demo_can_commit, of "[]"] demo_can_commit by auto
qed

subsection \<open>Recovery and its interruption\<close>

lemma upd_all_in_dests:
  "length f' = length f \<Longrightarrow> n < length f \<Longrightarrow> n \<in> nat ` fst ` set ws \<Longrightarrow> upd_all ws f' ! n = upd_all ws f ! n"
proof (induction ws arbitrary: f f')
  case (Cons w ws)
  let ?f' = "f'[nat (fst w) := snd w]" and ?f = "f[nat (fst w) := snd w]"
  show ?case
  proof (cases "n \<in> nat ` fst ` set ws")
    case True
    then show ?thesis using Cons.IH [of ?f' ?f] Cons.prems(1,2) by simp
  next
    case False
    then have "n = nat (fst w)" using Cons.prems(3) by auto
    then show ?thesis using upd_all_cong_at [of ?f' ?f n ws] Cons.prems(1,2) by simp
  qed
qed simp

text \<open>
  C7: Recovery returns, and then every block outside the log holds the last write of it that a
  committed transaction made and no later one revoked, or else its old contents; the log is empty.
\<close>

theorem recover_replays:
  assumes "coherent bc" "log_on_file (lt_ml log) (dfile bc) T txs"
  shows "\<exists>log' bc'. log_recover log bc = Some (Ok (log', bc')) \<and> lt_tail log' = lt_head log' \<and> coherent bc' \<and>
    log_on_file (lt_ml log) (dfile bc') (T + txs_size txs) [] \<and>
    (\<forall>n. n \<notin> nat ` log_region (lt_ml log) \<longrightarrow> dfile bc' ! n = upd_all (journal txs) (dfile bc) ! n)"
proof -
  have "0 < loglen (lt_ml log)" using assms(2) by (simp add: log_on_file_def)
  then have h: "nat (logstart (lt_ml log)) \<in> nat ` log_region (lt_ml log)" by (auto simp: log_region_def)
  obtain log' bc' where r: "log_recover log bc = Some (Ok (log', bc'))" "coherent bc'" "log_on_file (lt_ml log) (dfile bc') (T + txs_size txs) []"
      "\<forall>n. n \<noteq> nat (logstart (lt_ml log)) \<longrightarrow> dfile bc' ! n = upd_all (journal txs) (dfile bc) ! n"
      "lt_tail log' = of_nat (T + txs_size txs)" "lt_head log' = of_nat (T + txs_size txs)"
    using recover_journal [OF assms] by blast
  have "n \<noteq> nat (logstart (lt_ml log))" if "n \<notin> nat ` log_region (lt_ml log)" for n using that h by metis
  then show ?thesis using r(1-4) r(5,6) by (intro exI [of _ log'] exI [of _ bc']) simp
qed

text \<open>The image after the commit of the small journal, as a disk to boot from.\<close>

lemma demo_image: "\<exists>f. log_on_file demo_ml f 0 [demo_tx] \<and> length f = 24"
proof -
  have sz: "tx_size demo_tx = 2" by (simp add: demo_tx_def tx_size_def)
  have ok: "tx_ok demo_ml demo_tx" by (simp add: tx_ok_def demo_ml_def demo_tx_def tx_size_def)
  have dest: "\<forall>w \<in> set (tx_ws demo_tx). fst w < int (length (replicate 24 zpage)) \<and> fst w \<notin> log_region demo_ml"
    by (simp add: demo_tx_def log_region_def demo_ml_def)
  have fl: "lt_ml demo_log = demo_ml" "dfile demo_bc = replicate 24 zpage" by (simp_all add: demo_log_def demo_bc_def)
  obtain early log1 where "committer_prepare demo_bc demo_log = Ok (early, (curtrans demo_log)\<lparr>tr_head := of_nat (0 + txs_size [] + tx_size demo_tx)\<rparr>, log1)"
      "lt_tail log1 = of_nat 0" and p1: "ml_ok (lt_ml log1)" "tx_in_mem (lt_ml log1) (0 + txs_size []) demo_tx"
      and g: "loglen (lt_ml log1) = loglen (lt_ml demo_log)" "maxtrans (lt_ml log1) = maxtrans (lt_ml demo_log)" "logstart (lt_ml log1) = logstart (lt_ml demo_log)"
    using prepare_Ok [OF demo_can_commit] .
  have p: "ml_ok (lt_ml log1)" "tx_in_mem (lt_ml log1) 0 demo_tx" "same_geometry demo_ml (lt_ml log1)"
    using p1 g fl by (simp_all add: same_geometry_def)
  obtain ml' bc' q where k: "same_geometry demo_ml ml'" "tx_at demo_ml (\<lambda>n. upd_all (slot_writes ml' 0 2) (replicate 24 zpage) ! nat n) 0 demo_tx"
      "page_ok q" "r_tail q = Ok 0" "r_head q = Ok 2"
    using commit_Ok [OF demo_can_commit, of "lt_ml log1"] p fl sz by (auto simp: Let_def)
  let ?f = "(upd_all (slot_writes ml' (0 + txs_size []) (tx_size demo_tx) @ []) (replicate 24 zpage))[nat (logstart demo_ml) := q]"
  have "log_on_file demo_ml ?f 0 ([] @ [demo_tx])"
    by (rule log_on_file_new [OF demo_on_file, where ws = "[]" and q = q and ml' = ml'])
      (use k ok dest in \<open>simp_all add: geometry_pos sz, simp add: demo_ml_def\<close>)
  then show ?thesis by (intro exI [of _ ?f]) simp
qed

theorem recover_replays_witness:
  "\<exists>f log' bc'. log_on_file demo_ml f 0 [demo_tx] \<and>
     log_recover demo_log \<lparr>bc_cache = Map.empty, bc_disk = \<lparr>df = f, dtrace = None\<rparr>\<rparr> = Some (Ok (log', bc')) \<and> dfile bc' ! 20 = replicate 4096 1"
proof -
  obtain f where f: "log_on_file demo_ml f 0 [demo_tx]" "length f = 24" using demo_image by blast
  let ?bc = "\<lparr>bc_cache = Map.empty, bc_disk = \<lparr>df = f, dtrace = None\<rparr>\<rparr>"
  have "coherent ?bc" by (simp add: coherent_def)
  moreover have "upd_all (journal [demo_tx]) f ! 20 = replicate 4096 1" using f(2) by (simp add: journal_def journal_step_def demo_tx_def)
  moreover have "(20 :: nat) \<notin> nat ` log_region demo_ml" by (auto simp: log_region_def demo_ml_def)
  ultimately show ?thesis using recover_replays [of ?bc demo_log 0 "[demo_tx]"] f(1) by (auto simp: demo_log_def)
qed



end
