(* ===== verification/Inet.thy ===== *)
theory Inet
  imports Util_Model
begin

unbundle bit_operations_syntax

text \<open>
  \<open>inet/inet.go\<close>: addresses and byte order, the ARP, Ethernet, IPv4, TCP and ICMP headers, the
  two checksums and the parser of TCP headers and options.

  A header is a record whose multi-byte fields hold the value as the struct holds it, that is in
  network order for the \<open>Be16\<close> and \<open>Be32\<close> types; \<open>Bytes\<close> lists the struct's memory on a
  little-endian machine (no field of these structs is padded).  Mac addresses and IPv4 addresses
  in headers are byte arrays, here byte lists whose length is the invariant \<open>*_wf\<close>.

  The loop of \<open>_sl2tcpopt\<close> need not end: it is a \<open>partial_function\<close> into \<open>option\<close>, where
  \<open>None\<close> is a call that never returns.
\<close>

subsection \<open>Addresses and byte order\<close>

type_synonym Ip4_t = "32 word"
type_synonym Be16 = "16 word"
type_synonym Be32 = "32 word"
type_synonym Mac_t = "byte list"

definition Ip2sl :: "byte list \<Rightarrow> Ip4_t \<Rightarrow> byte list go" where
  "Ip2sl sl ip =
     (if length sl < 4 then Panic ''index out of range''
      else Ok ([ucast (drop_bit 24 ip), ucast (drop_bit 16 ip), ucast (drop_bit 8 ip), ucast ip]
               @ drop 4 sl))"

definition Sl2ip :: "byte list \<Rightarrow> Ip4_t go" where
  "Sl2ip sl =
     (if length sl < 4 then Panic ''index out of range''
      else Ok (push_bit 24 (ucast (sl ! 0)) OR push_bit 16 (ucast (sl ! 1))
               OR push_bit 8 (ucast (sl ! 2)) OR ucast (sl ! 3)))"

definition Htons :: "16 word \<Rightarrow> Be16" where
  "Htons v = drop_bit 8 v OR push_bit 8 (v AND 0xff)"

definition Htonl :: "32 word \<Rightarrow> Be32" where
  "Htonl v = push_bit 24 (v AND 0x000000ff) OR push_bit 8 (v AND 0x0000ff00)
             OR drop_bit 8 (v AND 0x00ff0000) OR drop_bit 24 v"

definition Ntohs :: "Be16 \<Rightarrow> 16 word" where
  "Ntohs v = drop_bit 8 v OR push_bit 8 (v AND 0xff)"

definition Ntohl :: "Be32 \<Rightarrow> 32 word" where
  "Ntohl v = push_bit 24 (v AND 0x000000ff) OR push_bit 8 (v AND 0x0000ff00)
             OR drop_bit 8 (v AND 0x00ff0000) OR drop_bit 24 v"

text \<open>The memory of a 16-bit and of a 32-bit field, and the field a memory holds.\<close>

definition le16 :: "16 word \<Rightarrow> byte list" where
  "le16 w = le_bytes 2 (uint w)"

definition le32 :: "32 word \<Rightarrow> byte list" where
  "le32 w = le_bytes 4 (uint w)"

definition rd16 :: "byte list \<Rightarrow> nat \<Rightarrow> 16 word" where
  "rd16 b i = word_of_int (le_val (sub_list b i (i + 2)))"

definition rd32 :: "byte list \<Rightarrow> nat \<Rightarrow> 32 word" where
  "rd32 b i = word_of_int (le_val (sub_list b i (i + 4)))"

text \<open>Go's \<open>copy\<close> into an array.\<close>

definition go_copy :: "byte list \<Rightarrow> byte list \<Rightarrow> byte list" where
  "go_copy dst src = take (length dst) src @ drop (length src) dst"

subsection \<open>Ethernet and ARP\<close>

record Etherhdr_t =
  dmac :: Mac_t
  smac :: Mac_t
  etype :: Be16

definition ETHERLEN :: nat where "ETHERLEN = 14"

definition zero_Etherhdr :: Etherhdr_t where
  "zero_Etherhdr = \<lparr>dmac = replicate 6 0, smac = replicate 6 0, etype = 0\<rparr>"

definition Etherhdr_init :: "Etherhdr_t \<Rightarrow> byte list \<Rightarrow> byte list \<Rightarrow> 16 word \<Rightarrow> Etherhdr_t go" where
  "Etherhdr_init et sm dm ety =
     (if length sm \<noteq> 6 \<or> length dm \<noteq> 6 then Panic ''weird mac len''
      else Ok (et\<lparr>smac := go_copy (smac et) sm, dmac := go_copy (dmac et) dm, etype := Htons ety\<rparr>))"

definition Init_ip4 :: "Etherhdr_t \<Rightarrow> byte list \<Rightarrow> byte list \<Rightarrow> Etherhdr_t go" where
  "Init_ip4 et sm dm = Etherhdr_init et sm dm 0x0800"

definition Etherhdr_Bytes :: "Etherhdr_t \<Rightarrow> byte list" where
  "Etherhdr_Bytes e = dmac e @ smac e @ le16 (etype e)"

definition ether_wf :: "Etherhdr_t \<Rightarrow> bool" where
  "ether_wf e \<longleftrightarrow> length (dmac e) = 6 \<and> length (smac e) = 6"

record Arpv4_t =
  ar_eth :: Etherhdr_t
  htype :: Be16
  ptype :: Be16
  hlen :: byte
  plen :: byte
  oper :: Be16
  sha :: Mac_t
  spa :: "byte list"
  tha :: Mac_t
  tpa :: "byte list"

definition ARPLEN :: nat where "ARPLEN = 42"

definition zero_Arpv4 :: Arpv4_t where
  "zero_Arpv4 = \<lparr>ar_eth = zero_Etherhdr, htype = 0, ptype = 0, hlen = 0, plen = 0, oper = 0,
     sha = replicate 6 0, spa = replicate 4 0, tha = replicate 6 0, tpa = replicate 4 0\<rparr>"

definition Arpv4_init :: "Arpv4_t \<Rightarrow> Mac_t \<Rightarrow> Arpv4_t" where
  "Arpv4_init ar sm =
     ar\<lparr>ar_eth := (ar_eth ar)\<lparr>etype := Htons 0x0806, smac := go_copy (smac (ar_eth ar)) sm\<rparr>,
        htype := Htons 1, ptype := Htons 0x0800, hlen := 6, plen := 4\<rparr>"

definition Init_req :: "Arpv4_t \<Rightarrow> Mac_t \<Rightarrow> Ip4_t \<Rightarrow> Ip4_t \<Rightarrow> Arpv4_t go" where
  "Init_req ar0 sm sip qip =
     (let ar = (Arpv4_init ar0 sm)\<lparr>oper := Htons 1\<rparr>;
          ar = ar\<lparr>sha := go_copy (sha ar) sm\<rparr> in
      gbind (Ip2sl (spa ar) sip) (\<lambda>s.
      gbind (Ip2sl (tpa ar) qip) (\<lambda>t.
      Ok (ar\<lparr>spa := s, tpa := t, tha := go_copy (tha ar) (replicate 6 0),
             ar_eth := (ar_eth ar)\<lparr>dmac := map (\<lambda>_. 0xff) (dmac (ar_eth ar))\<rparr>\<rparr>))))"

definition Init_reply :: "Arpv4_t \<Rightarrow> Mac_t \<Rightarrow> Mac_t \<Rightarrow> Ip4_t \<Rightarrow> Ip4_t \<Rightarrow> Arpv4_t go" where
  "Init_reply ar0 sm dm sip dip =
     (let ar = (Arpv4_init ar0 sm)\<lparr>oper := Htons 2\<rparr>;
          ar = ar\<lparr>sha := go_copy (sha ar) sm, tha := go_copy (tha ar) dm\<rparr> in
      gbind (Ip2sl (spa ar) sip) (\<lambda>s.
      gbind (Ip2sl (tpa ar) dip) (\<lambda>t.
      Ok (ar\<lparr>spa := s, tpa := t,
             ar_eth := (ar_eth ar)\<lparr>dmac := go_copy (dmac (ar_eth ar)) dm\<rparr>\<rparr>))))"

definition Arpv4_Bytes :: "Arpv4_t \<Rightarrow> byte list" where
  "Arpv4_Bytes ar = Etherhdr_Bytes (ar_eth ar) @ le16 (htype ar) @ le16 (ptype ar) @ [hlen ar, plen ar]
     @ le16 (oper ar) @ sha ar @ spa ar @ tha ar @ tpa ar"

definition arp_wf :: "Arpv4_t \<Rightarrow> bool" where
  "arp_wf ar \<longleftrightarrow> ether_wf (ar_eth ar) \<and> length (sha ar) = 6 \<and> length (spa ar) = 4
     \<and> length (tha ar) = 6 \<and> length (tpa ar) = 4"

subsection \<open>IPv4\<close>

record Ip4hdr_t =
  Vers_hdr :: byte
  Dscp :: byte
  Tlen :: Be16
  Ident :: Be16
  Fl_frag :: Be16
  Ttl :: byte
  Proto :: byte
  Ip_Cksum :: Be16
  Sip :: "byte list"
  Dip :: "byte list"

definition IP4LEN :: nat where "IP4LEN = 20"

definition zero_Ip4hdr :: Ip4hdr_t where
  "zero_Ip4hdr = \<lparr>Vers_hdr = 0, Dscp = 0, Tlen = 0, Ident = 0, Fl_frag = 0, Ttl = 0, Proto = 0,
     Ip_Cksum = 0, Sip = replicate 4 0, Dip = replicate 4 0\<rparr>"

definition Sl2iphdr :: "byte list \<Rightarrow> (Ip4hdr_t \<times> byte list) option" where
  "Sl2iphdr buf =
     (if length buf < IP4LEN then None
      else Some (\<lparr>Vers_hdr = buf ! 0, Dscp = buf ! 1, Tlen = rd16 buf 2, Ident = rd16 buf 4,
                  Fl_frag = rd16 buf 6, Ttl = buf ! 8, Proto = buf ! 9, Ip_Cksum = rd16 buf 10,
                  Sip = sub_list buf 12 16, Dip = sub_list buf 16 20\<rparr>, drop IP4LEN buf))"

text \<open>\<open>_init\<close> first clears the header, so that its old contents do not matter.\<close>

definition Ip4hdr_init :: "int \<Rightarrow> Ip4_t \<Rightarrow> Ip4_t \<Rightarrow> byte \<Rightarrow> Ip4hdr_t go" where
  "Ip4hdr_init l4len sip dip proto =
     (let i4 = zero_Ip4hdr\<lparr>Vers_hdr := 0x45, Tlen := Htons (word_of_int l4len + of_nat IP4LEN),
                 Fl_frag := Htons (push_bit 14 1), Ttl := 0xff, Proto := proto\<rparr> in
      gbind (Ip2sl (Sip i4) sip) (\<lambda>s.
      gbind (Ip2sl (Dip i4) dip) (\<lambda>d.
      Ok (i4\<lparr>Sip := s, Dip := d\<rparr>))))"

definition Init_icmp :: "int \<Rightarrow> Ip4_t \<Rightarrow> Ip4_t \<Rightarrow> Ip4hdr_t go" where
  "Init_icmp icmplen sip dip = Ip4hdr_init icmplen sip dip 0x01"

definition Init_tcp :: "int \<Rightarrow> Ip4_t \<Rightarrow> Ip4_t \<Rightarrow> Ip4hdr_t go" where
  "Init_tcp tcplen sip dip = Ip4hdr_init tcplen sip dip 0x06"

definition Ip4hdr_Bytes :: "Ip4hdr_t \<Rightarrow> byte list" where
  "Ip4hdr_Bytes i4 = [Vers_hdr i4, Dscp i4] @ le16 (Tlen i4) @ le16 (Ident i4) @ le16 (Fl_frag i4)
     @ [Ttl i4, Proto i4] @ le16 (Ip_Cksum i4) @ Sip i4 @ Dip i4"

definition Ip4hdr_Hdrlen :: "Ip4hdr_t \<Rightarrow> int" where
  "Ip4hdr_Hdrlen i4 = int IP4LEN"

definition ip_wf :: "Ip4hdr_t \<Rightarrow> bool" where
  "ip_wf i4 \<longleftrightarrow> length (Sip i4) = 4 \<and> length (Dip i4) = 4"

subsection \<open>TCP headers\<close>

record Tcphdr_t =
  Sport :: Be16
  Dport :: Be16
  Seq :: Be32
  Ack :: Be32
  Dataoff :: byte
  Flags :: byte
  Win :: Be16
  Cksum :: Be16
  Urg :: Be16

definition TCPLEN :: nat where "TCPLEN = 20"

definition zero_Tcphdr :: Tcphdr_t where
  "zero_Tcphdr = \<lparr>Sport = 0, Dport = 0, Seq = 0, Ack = 0, Dataoff = 0, Flags = 0, Win = 0,
     Cksum = 0, Urg = 0\<rparr>"

definition Tcphdr_init :: "16 word \<Rightarrow> 16 word \<Rightarrow> 32 word \<Rightarrow> 32 word \<Rightarrow> Tcphdr_t" where
  "Tcphdr_init sport dport sq ack =
     zero_Tcphdr\<lparr>Sport := Htons sport, Dport := Htons dport, Seq := Htonl sq, Ack := Htonl ack,
       Dataoff := 0x50\<rparr>"

definition Init_syn :: "16 word \<Rightarrow> 16 word \<Rightarrow> 32 word \<Rightarrow> Tcphdr_t" where
  "Init_syn sport dport sq =
     (let t = Tcphdr_init sport dport sq 0 in t\<lparr>Flags := Flags t OR push_bit 1 1\<rparr>)"

definition Init_synack :: "16 word \<Rightarrow> 16 word \<Rightarrow> 32 word \<Rightarrow> 32 word \<Rightarrow> Tcphdr_t" where
  "Init_synack sport dport sq ack =
     (let t = Tcphdr_init sport dport sq ack in t\<lparr>Flags := Flags t OR (push_bit 1 1 OR push_bit 4 1)\<rparr>)"

definition Init_ack :: "16 word \<Rightarrow> 16 word \<Rightarrow> 32 word \<Rightarrow> 32 word \<Rightarrow> Tcphdr_t" where
  "Init_ack sport dport sq ack =
     (let t = Tcphdr_init sport dport sq ack in t\<lparr>Flags := Flags t OR push_bit 4 1\<rparr>)"

definition Init_rst :: "16 word \<Rightarrow> 16 word \<Rightarrow> 32 word \<Rightarrow> Tcphdr_t" where
  "Init_rst sport dport sq =
     (let t = Tcphdr_init sport dport sq 0 in t\<lparr>Flags := Flags t OR push_bit 2 1\<rparr>)"

text \<open>
  \<open>nanos\<close> is the clock reading \<open>time.Now().UnixNano()\<close>.  \<open>opt\<close> only gives the length; the
  timestamps are written to the slice \<open>tsopt\<close>, which is returned.
\<close>

definition Set_opt :: "int \<Rightarrow> Tcphdr_t \<Rightarrow> byte list \<Rightarrow> byte list \<Rightarrow> 32 word \<Rightarrow> (Tcphdr_t \<times> byte list) go" where
  "Set_opt nanos t opt tsopt tsecr =
     (if length tsopt < 10 then Panic ''not enough room for timestamps''
      else if length opt mod 4 \<noteq> 0 then Panic ''options must be 32bit aligned''
      else
        let words = length opt div 4;
            t' = t\<lparr>Dataoff := push_bit 4 (of_nat (TCPLEN div 4 + words))\<rparr>;
            tsval = Htonl (word_of_int (nanos div 2 ^ 10)) in
        gbind (Writen tsopt 4 2 (uint tsval)) (\<lambda>ts1.
        gbind (Writen ts1 4 6 (uint (Htonl tsecr))) (\<lambda>ts2.
        Ok (t', ts2))))"

definition Tcphdr_Hdrlen :: "Tcphdr_t \<Rightarrow> int" where
  "Tcphdr_Hdrlen t = uint (drop_bit 4 (Dataoff t)) * 4"

definition Issyn :: "Tcphdr_t \<Rightarrow> bool" where
  "Issyn t \<longleftrightarrow> Flags t AND push_bit 1 1 \<noteq> 0"

definition Isack :: "Tcphdr_t \<Rightarrow> 32 word \<times> bool" where
  "Isack t = (Ntohl (Ack t), Flags t AND push_bit 4 1 \<noteq> 0)"

definition Isrst :: "Tcphdr_t \<Rightarrow> bool" where
  "Isrst t \<longleftrightarrow> Flags t AND push_bit 2 1 \<noteq> 0"

definition Isfin :: "Tcphdr_t \<Rightarrow> bool" where
  "Isfin t \<longleftrightarrow> Flags t AND push_bit 0 1 \<noteq> 0"

definition Ispush :: "Tcphdr_t \<Rightarrow> bool" where
  "Ispush t \<longleftrightarrow> Flags t AND push_bit 3 1 \<noteq> 0"

definition Tcphdr_Bytes :: "Tcphdr_t \<Rightarrow> byte list" where
  "Tcphdr_Bytes t = le16 (Sport t) @ le16 (Dport t) @ le32 (Seq t) @ le32 (Ack t)
     @ [Dataoff t, Flags t] @ le16 (Win t) @ le16 (Cksum t) @ le16 (Urg t)"

subsection \<open>TCP options\<close>

record Tcpopt_t =
  Wshift :: nat
  Tsval :: "32 word"
  Tsecr :: "32 word"
  Mss :: "16 word"
  Tsok :: bool
  Sackok :: bool

definition zero_Tcpopt :: Tcpopt_t where
  "zero_Tcpopt = \<lparr>Wshift = 0, Tsval = 0, Tsecr = 0, Mss = 0, Tsok = False, Sackok = False\<rparr>"

partial_function (option) sl2tcpopt_loop :: "byte list \<Rightarrow> Tcpopt_t \<Rightarrow> Tcpopt_t go option" where
  "sl2tcpopt_loop buf ret =
     (if length buf = 0 then Some (Ok ret)
      else if hd buf = 0 then Some (Ok ret)
      else if hd buf = 1 then sl2tcpopt_loop (drop 1 buf) ret
      else if hd buf = 2 then
        if length buf < 4 then Some (Ok ret)
        else (case Readn buf 2 2 of
                Panic s \<Rightarrow> Some (Panic s)
              | Ok v \<Rightarrow> sl2tcpopt_loop (drop 4 buf) (ret\<lparr>Mss := Ntohs (word_of_int v)\<rparr>))
      else if hd buf = 3 then
        if length buf < 3 then Some (Ok ret)
        else sl2tcpopt_loop (drop 3 buf) (ret\<lparr>Wshift := unat (buf ! 2)\<rparr>)
      else if hd buf = 4 then
        if length buf < 2 then Some (Panic ''slice bounds out of range'')
        else sl2tcpopt_loop (drop 2 buf) (ret\<lparr>Sackok := True\<rparr>)
      else if hd buf = 5 then
        if length buf < 2 then Some (Panic ''index out of range'')
        else
          let l = unat (buf ! 1) in
          if length buf < 2 \<or> length buf < l then Some (Ok ret)
          else sl2tcpopt_loop (drop l buf) ret
      else if hd buf = 8 then
        if length buf < 10 then Some (Ok ret)
        else (case Readn buf 4 2 of
                Panic s \<Rightarrow> Some (Panic s)
              | Ok v \<Rightarrow> (case Readn buf 4 6 of
                  Panic s \<Rightarrow> Some (Panic s)
                | Ok e \<Rightarrow> sl2tcpopt_loop (drop 10 buf)
                    (ret\<lparr>Tsok := True, Tsval := Ntohl (word_of_int v), Tsecr := Ntohl (word_of_int e)\<rparr>)))
      else sl2tcpopt_loop buf ret)"

definition sl2tcpopt :: "byte list \<Rightarrow> Tcpopt_t go option" where
  "sl2tcpopt buf = sl2tcpopt_loop buf zero_Tcpopt"

text \<open>\<open>Some (Ok None)\<close> is the result \<open>false\<close> of \<open>Sl2tcphdr\<close>.\<close>

definition tcphdr_at :: "byte list \<Rightarrow> Tcphdr_t" where
  "tcphdr_at buf =
     \<lparr>Sport = rd16 buf 0, Dport = rd16 buf 2, Seq = rd32 buf 4, Ack = rd32 buf 8,
      Dataoff = buf ! 12, Flags = buf ! 13, Win = rd16 buf 14, Cksum = rd16 buf 16, Urg = rd16 buf 18\<rparr>"

definition Sl2tcphdr :: "byte list \<Rightarrow> (Tcphdr_t \<times> Tcpopt_t \<times> byte list) option go option" where
  "Sl2tcphdr buf =
     (if length buf < TCPLEN then Some (Ok None)
      else
        let p = tcphdr_at buf;
            doff = unat (drop_bit 4 (Dataoff p)) * 4 in
        if doff > TCPLEN \<and> doff \<le> length buf then
          (case sl2tcpopt (sub_list buf TCPLEN doff) of
             None \<Rightarrow> None
           | Some (Panic s) \<Rightarrow> Some (Panic s)
           | Some (Ok opt) \<Rightarrow> Some (Ok (Some (p, opt, drop doff buf))))
        else Some (Ok (Some (p, zero_Tcpopt, drop TCPLEN buf))))"

subsection \<open>Checksums\<close>

record Tcppkt_t =
  Ether :: Etherhdr_t
  Iphdr :: Ip4hdr_t
  Tcphdr :: Tcphdr_t

definition zero_Tcppkt :: Tcppkt_t where
  "zero_Tcppkt = \<lparr>Ether = zero_Etherhdr, Iphdr = zero_Ip4hdr, Tcphdr = zero_Tcphdr\<rparr>"

text \<open>The folding loop that both checksums end with.\<close>

lemma and_ffff: "(w::32 word) AND 0xffff = take_bit 16 w"
  by (simp add: take_bit_eq_mask mask_numeral)
lemma andn_ffff: "(w::32 word) AND NOT 0xffff = push_bit 16 (drop_bit 16 w)"
proof -
  have "(w::32 word) AND NOT (mask 16) = push_bit 16 (drop_bit 16 w)"
    by (rule bit_word_eqI) (auto simp: bit_simps)
  then show ?thesis by (simp add: mask_numeral)
qed
lemma u_take: "uint (take_bit 16 (w::32 word)) = uint w mod 65536"
  by (simp add: take_bit_eq_mod uint_mod)
lemma u_drop: "uint (drop_bit 16 (w::32 word)) = uint w div 65536"
  by (simp add: drop_bit_eq_div uint_div)
lemma word32_split: "uint (drop_bit 16 w + (w AND 0xffff)) = uint w div 65536 + uint w mod 65536"
  for w :: "32 word"
proof -
  have "uint w < 4294967296" using uint_bounded [of w] by simp
  then have "uint w div 65536 + uint w mod 65536 < 4294967296" by linarith
  moreover have "0 \<le> uint w div 65536 + uint w mod 65536"
    using uint_nonnegative [of w] by linarith
  ultimately have "(uint w div 65536 + uint w mod 65536) mod 4294967296 = uint w div 65536 + uint w mod 65536"
    by (intro mod_pos_pos_trivial)
  then show ?thesis by (simp add: and_ffff u_take u_drop uint_word_ariths)
qed
lemma word32_high: "w AND NOT 0xffff \<noteq> 0 \<longleftrightarrow> 65536 \<le> uint w" for w :: "32 word"
proof -
  have "(w AND NOT 0xffff = 0) = (drop_bit 16 w = 0)"
  proof
    assume "w AND NOT 0xffff = 0"
    then have "drop_bit 16 (push_bit 16 (drop_bit 16 w)) = 0"
      using andn_ffff [of w] by (simp only: drop_bit_of_0)
    moreover have "drop_bit 16 (push_bit 16 (drop_bit 16 w)) = drop_bit 16 w"
      by (rule bit_word_eqI) (auto simp: bit_simps dest: bit_imp_le_length)
    ultimately show "drop_bit 16 w = 0" by simp
  qed (simp only: andn_ffff push_bit_of_0)
  also have "\<dots> = (uint (drop_bit 16 w) = 0)" by (simp only: uint_0_iff)
  also have "\<dots> = (uint w div 65536 = 0)" by (simp only: u_drop)
  finally show ?thesis using uint_nonnegative [of w] by linarith
qed
lemma word32_fold:
  assumes "65536 \<le> uint (w :: 32 word)"
  obtains q where "1 \<le> q" "uint w = uint (drop_bit 16 w + (w AND 0xffff)) + 65535 * q"
    "q \<le> uint (drop_bit 16 w + (w AND 0xffff))"
proof -
  define q where "q = uint w div 65536"
  define r where "r = uint w mod 65536"
  have "uint w = 65536 * q + r" "0 \<le> r" "r < 65536" unfolding q_def r_def by simp_all
  moreover have "uint (drop_bit 16 w + (w AND 0xffff)) = q + r" unfolding q_def r_def by (rule word32_split)
  ultimately show thesis using that [of q] assms by linarith
qed

function fold_sum :: "32 word \<Rightarrow> 32 word" where
  "fold_sum s = (if s AND NOT 0xffff \<noteq> 0 then fold_sum (drop_bit 16 s + (s AND 0xffff)) else s)"
  by pat_completeness auto

termination
proof (relation "measure (\<lambda>s. nat (uint s))")
  fix s :: "32 word"
  assume "s AND NOT 0xffff \<noteq> 0"
  then have big: "65536 \<le> uint s" by (simp only: word32_high)
  obtain q where "1 \<le> q" "uint s = uint (drop_bit 16 s + (s AND 0xffff)) + 65535 * q"
    using word32_fold [OF big] .
  then have "uint (drop_bit 16 s + (s AND 0xffff)) < uint s" by linarith
  then show "(drop_bit 16 s + (s AND 0xffff), s) \<in> measure (\<lambda>s. nat (uint s))"
    using big by (simp only: in_measure nat_mono_iff)
qed simp

definition Tcppkt_Crc :: "Tcppkt_t \<Rightarrow> int \<Rightarrow> Ip4_t \<Rightarrow> Ip4_t \<Rightarrow> Tcppkt_t" where
  "Tcppkt_Crc tp l4len sip dip =
     (let lo = (\<lambda>w :: 32 word. (ucast (ucast w :: 16 word) :: 32 word));
          sum = lo sip + lo (drop_bit 16 sip) + lo dip + lo (drop_bit 16 dip)
                + ucast (Proto (Iphdr tp)) + word_of_int l4len in
      tp\<lparr>Tcphdr := (Tcphdr tp)\<lparr>Cksum := Htons (ucast (fold_sum sum))\<rparr>\<rparr>)"

definition Tcppkt_Hdrbytes :: "Tcppkt_t \<Rightarrow> byte list \<times> byte list \<times> byte list" where
  "Tcppkt_Hdrbytes tp = (Etherhdr_Bytes (Ether tp), Ip4hdr_Bytes (Iphdr tp), Tcphdr_Bytes (Tcphdr tp))"

record Icmppkt_t =
  ic_Ether :: Etherhdr_t
  ic_Iphdr :: Ip4hdr_t
  Typ :: byte
  Code :: byte
  ic_Cksum :: "16 word"
  ic_Ident :: Be16
  ic_Seq :: Be16
  Data :: "byte list"

definition Icmppkt_Init :: "Mac_t \<Rightarrow> Mac_t \<Rightarrow> Ip4_t \<Rightarrow> Ip4_t \<Rightarrow> byte \<Rightarrow> byte list \<Rightarrow> Icmppkt_t go" where
  "Icmppkt_Init sm dm sip dip typ data =
     (let l4len = int (length data) + 2 * 1 + 3 * 2 in
      gbind (Init_ip4 zero_Etherhdr sm dm) (\<lambda>e.
      gbind (Init_icmp l4len sip dip) (\<lambda>i.
      Ok \<lparr>ic_Ether = e, ic_Iphdr = i, Typ = typ, Code = 0, ic_Cksum = 0, ic_Ident = 0, ic_Seq = 0,
          Data = data\<rparr>)))"

fun sum_data :: "byte list \<Rightarrow> 32 word \<Rightarrow> 32 word" where
  "sum_data (a # b # buf) s = sum_data buf (s + (ucast a + push_bit 8 (ucast b)))"
| "sum_data [a] s = s + ucast a"
| "sum_data [] s = s"

definition Icmppkt_Crc :: "Icmppkt_t \<Rightarrow> Icmppkt_t" where
  "Icmppkt_Crc ic =
     (let sum = ucast (Typ ic) + push_bit 8 (ucast (Code ic));
          sum = sum + ucast (ic_Cksum ic) + ucast (ic_Ident ic) + ucast (ic_Seq ic);
          sum = fold_sum (sum_data (Data ic) sum) in
      ic\<lparr>ic_Cksum := ucast (NOT sum)\<rparr>)"

definition Icmppkt_Hdrbytes :: "Icmppkt_t \<Rightarrow> byte list" where
  "Icmppkt_Hdrbytes ic = Etherhdr_Bytes (ic_Ether ic) @ Ip4hdr_Bytes (ic_Iphdr ic) @ [Typ ic, Code ic]
     @ le16 (ic_Cksum ic) @ le16 (ic_Ident ic) @ le16 (ic_Seq ic)"

subsection \<open>The folded sum\<close>

declare fold_sum.simps [simp del]
lemma fold_sum_spec:
  "uint (fold_sum s) < 65536 \<and> uint (fold_sum s) mod 65535 = uint s mod 65535 \<and> (fold_sum s = 0 \<longleftrightarrow> s = 0)"
proof (induction s rule: fold_sum.induct)
  case (1 s)
  show ?case
  proof (cases "s AND NOT 0xffff \<noteq> 0")
    case True
    define s' where "s' = drop_bit 16 s + (s AND 0xffff)"
    have big: "65536 \<le> uint s" using True by (simp only: word32_high)
    obtain q where q: "1 \<le> q" "uint s = uint s' + 65535 * q" "q \<le> uint s'"
      using word32_fold [OF big] unfolding s'_def .
    have m: "uint s mod 65535 = uint s' mod 65535" unfolding q(2) by (rule mod_mult_self2)
    have "uint s' \<noteq> 0" using q by linarith
    then have z: "s' \<noteq> 0" "s \<noteq> 0" using big by auto
    have "fold_sum s = fold_sum s'" using True by (subst fold_sum.simps) (simp add: s'_def)
    then show ?thesis using 1 [OF True, folded s'_def] z m by (simp only:)
  next
    case False
    then have "fold_sum s = s" by (subst fold_sum.simps) simp
    moreover have "uint s < 65536" using False by (simp only: word32_high)
    ultimately show ?thesis by simp
  qed
qed

text \<open>The checksum proofs work with the unsigned value of the running sum.\<close>

fun sum16 :: "byte list \<Rightarrow> int" where
  "sum16 (a # b # buf) = uint a + 256 * uint b + sum16 buf"
| "sum16 [a] = uint a"
| "sum16 [] = 0"

lemma byte_bounds: "0 \<le> uint (b :: byte) \<and> uint b \<le> 255"
  using uint_bounded [of b] by simp

lemma sum16_bounds: "0 \<le> sum16 buf \<and> sum16 buf \<le> 65535 * int ((length buf + 1) div 2)"
proof (induction buf rule: sum16.induct)
  case (1 a b buf)
  have "int ((length (a # b # buf) + 1) div 2) = int ((length buf + 1) div 2) + 1" by simp
  with 1 byte_bounds [of a] byte_bounds [of b] show ?case by simp
next
  case (2 a)
  then show ?case using byte_bounds [of a] by simp
qed simp

lemma uint_ucast_up [simp]: "uint (ucast (b :: byte) :: 32 word) = uint b"
  "uint (ucast (h :: 16 word) :: 32 word) = uint h"
  by (simp_all add: unsigned_ucast_eq take_bit_int_eq_self_iff order_less_le_trans [OF uint_lt2p])

lemma uint_pair: "uint (ucast (a :: byte) + push_bit 8 (ucast (b :: byte)) :: 32 word) = uint a + 256 * uint b"
proof -
  have "uint (push_bit 8 (ucast b :: 32 word)) = 256 * uint b"
    using byte_bounds [of b] by (simp add: push_bit_eq_mult uint_word_ariths)
  then show ?thesis using byte_bounds [of a] byte_bounds [of b] by (simp add: uint_word_ariths)
qed

lemma uint_plus32: "uint (a :: 32 word) + uint b < 4294967296 \<Longrightarrow> uint (a + b) = uint a + uint b"
  using uint_nonnegative [of a] uint_nonnegative [of b]
  by (simp add: uint_word_ariths)

lemma sum_data_uint:
  "uint s + sum16 buf < 4294967296 \<Longrightarrow> uint (sum_data buf s) = uint s + sum16 buf"
proof (induction buf arbitrary: s rule: sum16.induct)
  case (1 a b buf)
  have "uint s + (uint a + 256 * uint b) < 4294967296"
    using "1.prems" sum16_bounds [of buf] by simp
  then have u: "uint (s + (ucast a + push_bit 8 (ucast b))) = uint s + (uint a + 256 * uint b)"
    using uint_plus32 [of s "ucast a + push_bit 8 (ucast b)"] by (simp only: uint_pair)
  then show ?case using "1.IH" [of "s + (ucast a + push_bit 8 (ucast b))"] "1.prems" by simp
next
  case (2 a)
  then show ?case using uint_plus32 [of s "ucast a"] by simp
qed simp

subsection \<open>Fields in memory\<close>

lemma length_le [simp]: "length (le16 w) = 2" "length (le32 v) = 4"
  by (simp_all add: le16_def le32_def)

lemma le_val_le [simp]: "le_val (le16 w) = uint w" "le_val (le32 v) = uint v"
  using uint_bounded [of w] uint_bounded [of v] by (simp_all add: le16_def le32_def le_val_le_bytes)

lemma rd16_le16: "length xs = i \<Longrightarrow> rd16 (xs @ le16 w @ ys) i = w"
  by (simp add: rd16_def sub_list_def)

lemma rd32_le32: "length xs = i \<Longrightarrow> rd32 (xs @ le32 w @ ys) i = w"
  by (simp add: rd32_def sub_list_def)

lemma bit_Htons: "bit (Htons v) n \<longleftrightarrow> (if n < 8 then bit v (n + 8) else n < 16 \<and> bit v (n - 8))"
proof -
  have m: "(0xff :: 16 word) = mask 8" by (simp add: mask_numeral)
  show ?thesis unfolding Htons_def m
    by (auto simp: bit_simps add.commute dest: bit_imp_le_length)
qed
lemma bit_Htonl: "bit (Htonl v) n \<longleftrightarrow>
  (if n < 8 then bit v (n + 24) else if n < 16 then bit v (n + 8) else if n < 24 then bit v (n - 8)
   else n < 32 \<and> bit v (n - 24))"
proof -
  have m: "(0xff :: 32 word) = mask 8" "(0xff00 :: 32 word) = push_bit 8 (mask 8)" "(0xff0000 :: 32 word) = push_bit 16 (mask 8)"
    by (simp_all add: mask_numeral push_bit_eq_mult)
  show ?thesis unfolding Htonl_def m 
    by (auto simp: bit_simps add.commute dest: bit_imp_le_length)
qed
lemma Ntohs_Htons [simp]: "Ntohs (Htons v) = v"
  unfolding Ntohs_def Htons_def [symmetric] by (rule bit_word_eqI) (auto simp: bit_Htons)

lemma Ntohl_Htonl [simp]: "Ntohl (Htonl v) = v"
  unfolding Ntohl_def Htonl_def [symmetric] by (rule bit_word_eqI) (auto simp: bit_Htonl)

lemma sum16_le16: "sum16 (le16 w @ bs) = uint w + sum16 bs"
proof -
  obtain a b where ab: "le16 w = [a, b]" by (simp add: le16_def numeral_2_eq_2)
  have "uint w = uint a + 256 * uint b" using le_val_le(1) [of w] by (simp add: ab)
  then show ?thesis by (simp add: ab)
qed

lemma uint_NOT16: "uint (ucast (NOT (w :: 32 word)) :: 16 word) = 65535 - uint w" if "uint w < 65536"
proof -
  have "uint (ucast (NOT w) :: 16 word) = (- uint w - 1) mod 65536"
  proof -
    have "uint (ucast (NOT w) :: 16 word) = take_bit 16 (uint (NOT w))" by (simp only: unsigned_ucast_eq) simp
    also have "uint (NOT w) = take_bit 32 (NOT (uint w))" by (simp only: unsigned_not_eq) simp
    finally show ?thesis by (simp add: not_int_def take_bit_eq_mod mod_mod_cancel)
  qed
  also have "\<dots> = (65535 - uint w) mod 65536"
    using mod_add_self2 [of "- uint w - 1" 65536] by simp
  also have "\<dots> = 65535 - uint w"
    using that uint_nonnegative [of w] by (intro mod_pos_pos_trivial) linarith+
  finally show ?thesis .
qed

subsection \<open>ICMP and TCP checksums\<close>

definition icmp_bytes :: "Icmppkt_t \<Rightarrow> byte list" where
  "icmp_bytes ic = drop (ETHERLEN + IP4LEN) (Icmppkt_Hdrbytes ic) @ Data ic"

lemma icmp_bytes_eq:
  assumes "ether_wf (ic_Ether ic)" "ip_wf (ic_Iphdr ic)"
  shows "icmp_bytes ic = [Typ ic, Code ic] @ le16 (ic_Cksum ic) @ le16 (ic_Ident ic) @ le16 (ic_Seq ic) @ Data ic"
  using assms by (simp add: icmp_bytes_def Icmppkt_Hdrbytes_def Etherhdr_Bytes_def Ip4hdr_Bytes_def
      ether_wf_def ip_wf_def ETHERLEN_def IP4LEN_def)

lemma Icmppkt_Init_wf:
  "Icmppkt_Init sm dm sip dip typ data = Ok ic \<Longrightarrow> ether_wf (ic_Ether ic) \<and> ip_wf (ic_Iphdr ic)"
  by (auto simp: Icmppkt_Init_def Init_ip4_def Etherhdr_init_def Init_icmp_def Ip4hdr_init_def Ip2sl_def
      Let_def ether_wf_def ip_wf_def zero_Etherhdr_def zero_Ip4hdr_def go_copy_def split: if_splits)

definition icmp_base :: "Icmppkt_t \<Rightarrow> int" where
  "icmp_base ic = uint (Typ ic) + 256 * uint (Code ic) + uint (ic_Ident ic) + uint (ic_Seq ic) + sum16 (Data ic)"

lemma half_bounds: "0 \<le> uint (h :: 16 word) \<and> uint h \<le> 65535"
  using uint_bounded [of h] by simp

lemma icmp_base_bounds:
  assumes "length (Data ic) \<le> 65535"
  shows "0 \<le> icmp_base ic" "icmp_base ic + 65535 < 4294967296"
proof -
  have "(length (Data ic) + 1) div 2 \<le> 32768" using assms by simp
  then have "sum16 (Data ic) \<le> 65535 * 32768" using sum16_bounds [of "Data ic"] by linarith
  then show "0 \<le> icmp_base ic" "icmp_base ic + 65535 < 4294967296"
    using sum16_bounds [of "Data ic"] byte_bounds [of "Typ ic"] byte_bounds [of "Code ic"]
      half_bounds [of "ic_Ident ic"] half_bounds [of "ic_Seq ic"]
    unfolding icmp_base_def by linarith+
qed

lemma icmp_running_sum:
  assumes "length (Data ic) \<le> 65535"
  shows "uint (sum_data (Data ic) (ucast (Typ ic) + push_bit 8 (ucast (Code ic)) + ucast (ic_Cksum ic)
           + ucast (ic_Ident ic) + ucast (ic_Seq ic))) = icmp_base ic + uint (ic_Cksum ic)"
proof -
  have b: "uint (Typ ic) + 256 * uint (Code ic) + uint (ic_Cksum ic) + uint (ic_Ident ic) + uint (ic_Seq ic)
      + sum16 (Data ic) < 4294967296"
    using icmp_base_bounds [OF assms] half_bounds [of "ic_Cksum ic"] unfolding icmp_base_def by linarith
  have "uint (ucast (Typ ic) + push_bit 8 (ucast (Code ic)) + ucast (ic_Cksum ic)
           + ucast (ic_Ident ic) + ucast (ic_Seq ic) :: 32 word)
      = uint (Typ ic) + 256 * uint (Code ic) + uint (ic_Cksum ic) + uint (ic_Ident ic) + uint (ic_Seq ic)"
    using byte_bounds [of "Typ ic"] byte_bounds [of "Code ic"] half_bounds [of "ic_Cksum ic"]
      half_bounds [of "ic_Ident ic"] half_bounds [of "ic_Seq ic"]
    by (simp add: uint_plus32 uint_pair)
  then show ?thesis using b by (subst sum_data_uint) (simp_all add: icmp_base_def)
qed

lemma uint_zero_iff32: "uint w = 0 \<longleftrightarrow> w = 0" for w :: "32 word"
  by (rule uint_0_iff)

text \<open>A sum that is a positive multiple of \<open>0xffff\<close> folds to \<open>0xffff\<close>.\<close>

lemma fold_sum_full:
  assumes "uint s mod 65535 = 0" "s \<noteq> 0"
  shows "fold_sum s = 0xffff"
proof -
  have f: "uint (fold_sum s) < 65536" "uint (fold_sum s) mod 65535 = 0" "uint (fold_sum s) \<noteq> 0"
    using fold_sum_spec [of s] assms by (simp_all add: uint_0_iff)
  then obtain k where "uint (fold_sum s) = 65535 * k" by (auto simp: mod_eq_0_iff_dvd dvd_def)
  then have "uint (fold_sum s) = uint (0xffff :: 32 word)" using f uint_nonnegative [of "fold_sum s"] by simp
  then show ?thesis by (simp only: word_uint_eq_iff)
qed

lemma icmp_crc_cksum:
  assumes "length (Data ic) \<le> 65535" "ic_Cksum ic = 0"
  obtains s where "uint s = icmp_base ic" "uint (ic_Cksum (Icmppkt_Crc ic)) = 65535 - uint (fold_sum s)"
    "icmp_base (Icmppkt_Crc ic) = icmp_base ic"
proof -
  define s where "s = sum_data (Data ic) (ucast (Typ ic) + push_bit 8 (ucast (Code ic)) + ucast (ic_Cksum ic)
           + ucast (ic_Ident ic) + ucast (ic_Seq ic))"
  have u: "uint s = icmp_base ic" unfolding s_def using icmp_running_sum [OF assms(1)] assms(2) by simp
  have "ic_Cksum (Icmppkt_Crc ic) = ucast (NOT (fold_sum s))"
    by (simp add: Icmppkt_Crc_def s_def)
  then have "uint (ic_Cksum (Icmppkt_Crc ic)) = 65535 - uint (fold_sum s)"
    using uint_NOT16 fold_sum_spec [of s] by simp
  moreover have "icmp_base (Icmppkt_Crc ic) = icmp_base ic" by (simp add: Icmppkt_Crc_def icmp_base_def)
  ultimately show thesis using u that by blast
qed

lemma icmp_crc_residue:
  assumes "length (Data ic) \<le> 65535" "ic_Cksum ic = 0"
  shows "(icmp_base (Icmppkt_Crc ic) + uint (ic_Cksum (Icmppkt_Crc ic))) mod 65535 = 0"
    and "0 < icmp_base (Icmppkt_Crc ic) + uint (ic_Cksum (Icmppkt_Crc ic))"
proof -
  obtain s where s: "uint s = icmp_base ic" "uint (ic_Cksum (Icmppkt_Crc ic)) = 65535 - uint (fold_sum s)"
    "icmp_base (Icmppkt_Crc ic) = icmp_base ic" using icmp_crc_cksum [OF assms] .
  define b f where "b = uint s" and "f = uint (fold_sum s)"
  have f: "f < 65536" "f mod 65535 = b mod 65535" "0 \<le> f" "0 \<le> b"
    using fold_sum_spec [of s] by (simp_all add: b_def f_def)
  have z: "f = 0 \<longleftrightarrow> b = 0" using fold_sum_spec [of s] by (simp add: b_def f_def uint_0_iff)
  have t: "icmp_base (Icmppkt_Crc ic) + uint (ic_Cksum (Icmppkt_Crc ic)) = b - f + 65535"
    using s by (simp add: b_def f_def)
  have "(b - f) mod 65535 = 0" using f(2) [symmetric] by (simp add: mod_eq_dvd_iff)
  then show "(icmp_base (Icmppkt_Crc ic) + uint (ic_Cksum (Icmppkt_Crc ic))) mod 65535 = 0"
    unfolding t by simp
  have "0 < b - f + 65535" using z f by (cases "b = 0") linarith+
  then show "0 < icmp_base (Icmppkt_Crc ic) + uint (ic_Cksum (Icmppkt_Crc ic))" unfolding t .
qed



lemma uint_low_half: "uint (ucast (ucast w :: 16 word) :: 32 word) = uint w mod 65536" for w :: "32 word"
proof -
  have "(ucast (ucast w :: 16 word) :: 32 word) = take_bit 16 w"
    by (rule bit_word_eqI) (auto simp: bit_simps)
  then show ?thesis by (simp only: u_take)
qed

lemma word32_halves: "0 \<le> uint w mod 65536" "uint w mod 65536 < 65536" "0 \<le> uint w div 65536"
  "uint w div 65536 < 65536" for w :: "32 word"
  using uint_bounded [of w] by (simp_all add: pos_imp_zdiv_nonneg_iff div_less_iff_less_mult)

lemma word32_high_half: "uint w div 65536 mod 65536 = uint w div 65536" for w :: "32 word"
  using word32_halves(3,4) by (rule mod_pos_pos_trivial)

lemma uint_sum6:
  fixes a b c d e f :: "32 word"
  assumes "uint a < 65536" "uint b < 65536" "uint c < 65536" "uint d < 65536" "uint e < 65536" "uint f < 65536"
  shows "uint (a + b + c + d + e + f) = uint a + uint b + uint c + uint d + uint e + uint f"
proof -
  have "uint (a + b) = uint a + uint b" using assms by (intro uint_plus32) linarith
  moreover have "uint (a + b + c) = uint (a + b) + uint c" using assms calculation by (intro uint_plus32) linarith
  moreover have "uint (a + b + c + d) = uint (a + b + c) + uint d" using assms calculation by (intro uint_plus32) linarith
  moreover have "uint (a + b + c + d + e) = uint (a + b + c + d) + uint e"
    using assms calculation by (intro uint_plus32) linarith
  moreover have "uint (a + b + c + d + e + f) = uint (a + b + c + d + e) + uint f"
    using assms calculation by (intro uint_plus32) linarith
  ultimately show ?thesis by linarith
qed

definition pseudo_sum :: "byte \<Rightarrow> int \<Rightarrow> Ip4_t \<Rightarrow> Ip4_t \<Rightarrow> int" where
  "pseudo_sum proto l4len sip dip = uint sip mod 65536 + uint sip div 65536 + uint dip mod 65536
     + uint dip div 65536 + uint proto + l4len"

lemma Tcppkt_Crc_sum:
  assumes "0 \<le> l4len" "l4len < 65536"
  obtains s where "uint s = pseudo_sum (Proto (Iphdr tp)) l4len sip dip"
    "Tcppkt_Crc tp l4len sip dip = tp\<lparr>Tcphdr := (Tcphdr tp)\<lparr>Cksum := Htons (ucast (fold_sum s))\<rparr>\<rparr>"
proof -
  let ?lo = "\<lambda>w :: 32 word. (ucast (ucast w :: 16 word) :: 32 word)"
  define s where "s = ?lo sip + ?lo (drop_bit 16 sip) + ?lo dip + ?lo (drop_bit 16 dip)
                + ucast (Proto (Iphdr tp)) + word_of_int l4len"
  have l: "uint (word_of_int l4len :: 32 word) = l4len" using assms by (simp add: uint_word_of_int)
  have p: "uint (ucast (Proto (Iphdr tp)) :: 32 word) < 65536" using byte_bounds [of "Proto (Iphdr tp)"] by simp
  have "uint s = pseudo_sum (Proto (Iphdr tp)) l4len sip dip"
    unfolding s_def pseudo_sum_def
    by (subst uint_sum6) (use word32_halves(2,4) p l assms in \<open>simp_all only: uint_low_half u_drop word32_high_half uint_ucast_up(1)\<close>)
  moreover have "Tcppkt_Crc tp l4len sip dip = tp\<lparr>Tcphdr := (Tcphdr tp)\<lparr>Cksum := Htons (ucast (fold_sum s))\<rparr>\<rparr>"
    by (simp only: Tcppkt_Crc_def Let_def s_def)
  ultimately show thesis by (rule that)
qed

lemma uint_ucast16: "uint w < 65536 \<Longrightarrow> uint (ucast w :: 16 word) = uint w" for w :: "32 word"
  by (simp only: unsigned_ucast_eq) (simp add: take_bit_eq_mod)

text \<open>
  C33: The pseudo-header sum of a TCP packet.  For a segment shorter than 64 KB the checksum field
  holds, in network order, a 16-bit number congruent modulo \<open>0xffff\<close> to the sum of the two
  addresses' halves, the protocol and the length, and it is zero only when that sum is; no other
  part of the packet changes.
\<close>

theorem tcp_pseudo_header_sum:
  assumes "0 \<le> l4len" "l4len < 65536"
  shows "\<exists>c. Tcppkt_Crc tp l4len sip dip = tp\<lparr>Tcphdr := (Tcphdr tp)\<lparr>Cksum := Htons c\<rparr>\<rparr>
      \<and> uint c mod 65535 = pseudo_sum (Proto (Iphdr tp)) l4len sip dip mod 65535
      \<and> (c = 0 \<longleftrightarrow> pseudo_sum (Proto (Iphdr tp)) l4len sip dip = 0)"
proof -
  obtain s where s: "uint s = pseudo_sum (Proto (Iphdr tp)) l4len sip dip"
    "Tcppkt_Crc tp l4len sip dip = tp\<lparr>Tcphdr := (Tcphdr tp)\<lparr>Cksum := Htons (ucast (fold_sum s))\<rparr>\<rparr>"
    using Tcppkt_Crc_sum [OF assms] .
  have f: "uint (fold_sum s) < 65536" "uint (fold_sum s) mod 65535 = uint s mod 65535" "fold_sum s = 0 \<longleftrightarrow> s = 0"
    using fold_sum_spec [of s] by simp_all
  have c: "uint (ucast (fold_sum s) :: 16 word) = uint (fold_sum s)" using f(1) by (rule uint_ucast16)
  have "(ucast (fold_sum s) :: 16 word) = 0 \<longleftrightarrow> uint s = 0"
    using f(3) c by (simp only: flip: uint_0_iff)
  then show ?thesis using s f c by (intro exI [of _ "ucast (fold_sum s)"]) (simp only: simp_thms)
qed

text \<open>A bare acknowledgement.\<close>

theorem tcp_pseudo_header_sum_witness:
  "\<exists>c. Tcppkt_Crc (zero_Tcppkt\<lparr>Iphdr := zero_Ip4hdr\<lparr>Proto := 6\<rparr>\<rparr>) 32 0x0a000001 0x0a000002
       = (zero_Tcppkt\<lparr>Iphdr := zero_Ip4hdr\<lparr>Proto := 6\<rparr>\<rparr>)\<lparr>Tcphdr := zero_Tcphdr\<lparr>Cksum := Htons c\<rparr>\<rparr>
     \<and> uint c mod 65535 = 5161"
  using tcp_pseudo_header_sum [of 32 "zero_Tcppkt\<lparr>Iphdr := zero_Ip4hdr\<lparr>Proto := 6\<rparr>\<rparr>" "0x0a000001" "0x0a000002"]
  by (auto simp: pseudo_sum_def zero_Tcppkt_def)

end
