(* ===== verification/Tcpopt.thy ===== *)
theory Tcpopt
  imports Inet
begin

unbundle bit_operations_syntax

text \<open>
  The parser of TCP headers and options of \<open>inet/inet.go\<close> against the formats it parses: headers
  are read back as they were laid out, a well-formed option list gives the options it encodes, and
  the two ways in which a received option list stops the parser from returning.
\<close>

subsection \<open>Headers round trip\<close>

lemma tcphdr_at_Bytes: "tcphdr_at (Tcphdr_Bytes t @ r) = t"
proof -
  let ?w = "Tcphdr_Bytes t @ r"
  have len: "length (Tcphdr_Bytes t) = 20" by (simp add: Tcphdr_Bytes_def)
  have f: "rd16 ?w 0 = Sport t" "rd16 ?w 2 = Dport t" "rd32 ?w 4 = Seq t" "rd32 ?w 8 = Ack t"
    "?w ! 12 = Dataoff t" "?w ! 13 = Flags t" "rd16 ?w 14 = Win t" "rd16 ?w 16 = Cksum t" "rd16 ?w 18 = Urg t"
    using rd16_le16 [of "[]" 0 "Sport t"]
      rd16_le16 [of "le16 (Sport t)" 2 "Dport t"]
      rd32_le32 [of "le16 (Sport t) @ le16 (Dport t)" 4 "Seq t"]
      rd32_le32 [of "le16 (Sport t) @ le16 (Dport t) @ le32 (Seq t)" 8 "Ack t"]
      rd16_le16 [of "le16 (Sport t) @ le16 (Dport t) @ le32 (Seq t) @ le32 (Ack t) @ [Dataoff t, Flags t]" 14 "Win t"]
      rd16_le16 [of "le16 (Sport t) @ le16 (Dport t) @ le32 (Seq t) @ le32 (Ack t) @ [Dataoff t, Flags t]
        @ le16 (Win t)" 16 "Cksum t"]
      rd16_le16 [of "le16 (Sport t) @ le16 (Dport t) @ le32 (Seq t) @ le32 (Ack t) @ [Dataoff t, Flags t]
        @ le16 (Win t) @ le16 (Cksum t)" 18 "Urg t"]
    by (simp_all add: Tcphdr_Bytes_def nth_append)
  show ?thesis unfolding tcphdr_at_def f by simp
qed

lemma Sl2iphdr_Bytes:
  assumes "ip_wf i4"
  shows "Sl2iphdr (Ip4hdr_Bytes i4 @ r) = Some (i4, r)"
proof -
  let ?w = "Ip4hdr_Bytes i4 @ r"
  have l: "length (Sip i4) = 4" "length (Dip i4) = 4" using assms by (simp_all add: ip_wf_def)
  have f: "?w ! 0 = Vers_hdr i4" "?w ! 1 = Dscp i4" "rd16 ?w 2 = Tlen i4" "rd16 ?w 4 = Ident i4"
    "rd16 ?w 6 = Fl_frag i4" "?w ! 8 = Ttl i4" "?w ! 9 = Proto i4" "rd16 ?w 10 = Ip_Cksum i4"
    "sub_list ?w 12 16 = Sip i4" "sub_list ?w 16 20 = Dip i4" "drop 20 ?w = r"
    using l rd16_le16 [of "[Vers_hdr i4, Dscp i4]" 2 "Tlen i4"]
      rd16_le16 [of "[Vers_hdr i4, Dscp i4] @ le16 (Tlen i4)" 4 "Ident i4"]
      rd16_le16 [of "[Vers_hdr i4, Dscp i4] @ le16 (Tlen i4) @ le16 (Ident i4)" 6 "Fl_frag i4"]
      rd16_le16 [of "[Vers_hdr i4, Dscp i4] @ le16 (Tlen i4) @ le16 (Ident i4) @ le16 (Fl_frag i4)
        @ [Ttl i4, Proto i4]" 10 "Ip_Cksum i4"]
    by (simp_all add: Ip4hdr_Bytes_def nth_append sub_list_def)
  have "length ?w \<ge> 20" using l by (simp add: Ip4hdr_Bytes_def)
  then show ?thesis unfolding Sl2iphdr_def IP4LEN_def f by simp
qed

lemma Sl2ip_Ip2sl: "Ip2sl sl ip = Ok sl' \<Longrightarrow> Sl2ip sl' = Ok ip"
proof -
  assume "Ip2sl sl ip = Ok sl'"
  then have sl': "sl' = [ucast (drop_bit 24 ip), ucast (drop_bit 16 ip), ucast (drop_bit 8 ip), ucast ip] @ drop 4 sl"
    by (simp add: Ip2sl_def split: if_splits)
  have "push_bit 24 (ucast (ucast (drop_bit 24 ip) :: byte)) OR push_bit 16 (ucast (ucast (drop_bit 16 ip) :: byte))
      OR push_bit 8 (ucast (ucast (drop_bit 8 ip) :: byte)) OR ucast (ucast ip :: byte) = ip"
  proof (rule bit_word_eqI)
    fix n assume "n < LENGTH(32)"
    then show "bit (push_bit 24 (ucast (ucast (drop_bit 24 ip) :: byte)) OR push_bit 16 (ucast (ucast (drop_bit 16 ip) :: byte))
      OR push_bit 8 (ucast (ucast (drop_bit 8 ip) :: byte)) OR ucast (ucast ip :: byte) :: 32 word) n = bit ip n"
      by (cases "n < 16") (auto simp: bit_simps)
  qed
  then show ?thesis by (simp add: Sl2ip_def sl')
qed

subsection \<open>Well-formed option lists\<close>

text \<open>
  The options the parser knows, with the bytes that follow the kind.  The length byte \<open>l\<close> of an
  option with a fixed layout is not read.
\<close>

datatype tcp_option =
    Onop
  | Omss byte Be16
  | Owsopt byte byte
  | Osackok byte
  | Osacks "byte list"
  | Otsopt byte Be32 Be32

fun option_bytes :: "tcp_option \<Rightarrow> byte list" where
  "option_bytes Onop = [1]"
| "option_bytes (Omss l v) = [2, l] @ le16 v"
| "option_bytes (Owsopt l s) = [3, l, s]"
| "option_bytes (Osackok l) = [4, l]"
| "option_bytes (Osacks bs) = [5, of_nat (length bs + 2)] @ bs"
| "option_bytes (Otsopt l v e) = [8, l] @ le32 v @ le32 e"

fun option_wf :: "tcp_option \<Rightarrow> bool" where
  "option_wf (Osacks bs) \<longleftrightarrow> length bs \<le> 253"
| "option_wf _ \<longleftrightarrow> True"

fun apply_option :: "Tcpopt_t \<Rightarrow> tcp_option \<Rightarrow> Tcpopt_t" where
  "apply_option r (Omss l v) = r\<lparr>Mss := Ntohs v\<rparr>"
| "apply_option r (Owsopt l s) = r\<lparr>Wshift := unat s\<rparr>"
| "apply_option r (Osackok l) = r\<lparr>Sackok := True\<rparr>"
| "apply_option r (Otsopt l v e) = r\<lparr>Tsok := True, Tsval := Ntohl v, Tsecr := Ntohl e\<rparr>"
| "apply_option r _ = r"

definition options_bytes :: "tcp_option list \<Rightarrow> byte list" where
  "options_bytes os = concat (map option_bytes os)"

lemma Readn_le16: "Readn ([a, b] @ le16 v @ r) 2 2 = Ok (uint v)"
  by (simp add: Readn_small sub_list_def)

lemma Readn_le32: "Readn ([a, b] @ le32 v @ r) 4 2 = Ok (uint v)"
  by (simp add: Readn_small sub_list_def)

lemma Readn_le32': "Readn ([a, b] @ le32 u @ le32 v @ r) 4 6 = Ok (uint v)"
  by (simp add: Readn_small sub_list_def)

lemma loop_option:
  assumes "option_wf opt"
  shows "sl2tcpopt_loop (option_bytes opt @ r) ret = sl2tcpopt_loop r (apply_option ret opt)"
proof (cases opt)
  case (Osacks bs)
  have "unat (of_nat (length bs + 2) :: byte) = length bs + 2"
    using assms Osacks by (simp only: unat_of_nat) simp
  then show ?thesis by (subst sl2tcpopt_loop.simps) (simp add: Osacks del: of_nat_add)
next
  case (Omss l v)
  then show ?thesis by (subst sl2tcpopt_loop.simps) (simp add: Readn_le16 [simplified])
next
  case (Otsopt l v e)
  then show ?thesis
    by (subst sl2tcpopt_loop.simps) (simp add: Readn_le32 [simplified] Readn_le32' [simplified])
qed (subst sl2tcpopt_loop.simps, simp)+

lemma loop_options:
  "\<forall>opt \<in> set os. option_wf opt \<Longrightarrow>
   sl2tcpopt_loop (options_bytes os @ r) ret = sl2tcpopt_loop r (foldl apply_option ret os)"
proof (induction os arbitrary: ret)
  case (Cons opt os)
  then show ?case using loop_option [of opt "options_bytes os @ r" ret] by (simp add: options_bytes_def)
qed (simp add: options_bytes_def)

text \<open>What may follow the last option: nothing, or an end marker.\<close>

lemma loop_end: "r = [] \<or> hd r = 0 \<Longrightarrow> sl2tcpopt_loop r ret = Some (Ok ret)"
  by (subst sl2tcpopt_loop.simps) auto

lemma Sl2tcphdr_options:
  assumes "unat (drop_bit 4 (Dataoff t)) * 4 = TCPLEN + length opts" "opts \<noteq> []"
  shows "Sl2tcphdr (Tcphdr_Bytes t @ opts @ payload) =
    (case sl2tcpopt opts of
       None \<Rightarrow> None
     | Some (Panic s) \<Rightarrow> Some (Panic s)
     | Some (Ok opt) \<Rightarrow> Some (Ok (Some (t, opt, payload))))"
proof -
  have l: "length (Tcphdr_Bytes t) = TCPLEN" by (simp add: Tcphdr_Bytes_def TCPLEN_def)
  have "sub_list (Tcphdr_Bytes t @ opts @ payload) TCPLEN (TCPLEN + length opts) = opts"
    "drop (TCPLEN + length opts) (Tcphdr_Bytes t @ opts @ payload) = payload"
    using l by (simp_all add: sub_list_def)
  then show ?thesis using assms l unfolding Sl2tcphdr_def tcphdr_at_Bytes Let_def
    by (simp cong: option.case_cong go.case_cong)
qed

text \<open>
  C34: Parsing a TCP segment.  A segment laid out as a header, any list of well-formed options with
  padding after an end marker, and a payload, with the data offset counting header and options,
  parses (the parser returns) to that header, to the values those options set, later ones last,
  and to that payload.
\<close>

theorem Sl2tcphdr_segment:
  assumes "\<forall>opt \<in> set os. option_wf opt" "pad = [] \<or> hd pad = 0" "os \<noteq> []"
    and "unat (drop_bit 4 (Dataoff t)) * 4 = TCPLEN + length (options_bytes os @ pad)"
  shows "Sl2tcphdr (Tcphdr_Bytes t @ (options_bytes os @ pad) @ payload) =
    Some (Ok (Some (t, foldl apply_option zero_Tcpopt os, payload)))"
proof -
  have "option_bytes opt \<noteq> []" for opt by (cases opt) simp_all
  then have ne: "options_bytes os @ pad \<noteq> []" using assms(3) by (cases os) (simp_all add: options_bytes_def)
  have "sl2tcpopt (options_bytes os @ pad) = Some (Ok (foldl apply_option zero_Tcpopt os))"
    unfolding sl2tcpopt_def loop_options [OF assms(1)] using assms(2) by (rule loop_end)
  then show ?thesis by (simp only: Sl2tcphdr_options [OF assms(4) ne]) simp
qed

text \<open>A SYN carrying the options the kernel itself sends.\<close>

theorem Sl2tcphdr_segment_witness:
  "Sl2tcphdr (Tcphdr_Bytes ((Init_syn 80 1024 7)\<lparr>Dataoff := 0x90\<rparr>)
       @ (options_bytes [Omss 4 (Htons 1460), Onop, Onop, Otsopt 10 (Htonl 99) (Htonl 5)] @ []) @ [1, 2, 3]) =
     Some (Ok (Some ((Init_syn 80 1024 7)\<lparr>Dataoff := 0x90\<rparr>,
       \<lparr>Wshift = 0, Tsval = 99, Tsecr = 5, Mss = 1460, Tsok = True, Sackok = False\<rparr>, [1, 2, 3])))"
proof -
  have "unat (drop_bit 4 (0x90 :: byte)) * 4 =
      TCPLEN + length (options_bytes [Omss 4 (Htons 1460), Onop, Onop, Otsopt 10 (Htonl 99) (Htonl 5)] @ [])"
    by (simp add: options_bytes_def TCPLEN_def)
  then show ?thesis
    by (subst Sl2tcphdr_segment) (simp_all add: zero_Tcpopt_def)
qed

subsection \<open>Option lists on which the parser does not return\<close>

text \<open>An unknown kind leaves the loop's state as it is.\<close>

lemma loop_unknown:
  assumes "k \<notin> {0, 1, 2, 3, 4, 5, 8}"
  shows "sl2tcpopt_loop (k # r) ret = None"
proof (rule ccontr)
  assume "sl2tcpopt_loop (k # r) ret \<noteq> None"
  then obtain y where y: "sl2tcpopt_loop (k # r) ret = Some y" by auto
  have "k # r \<noteq> k # r"
    by (rule sl2tcpopt_loop.raw_induct [OF _ y, where P = "\<lambda>buf ret y. buf \<noteq> k # r"])
      (use assms in \<open>auto split: if_splits\<close>)
  then show False by simp
qed

lemma loop_empty_sacks: "sl2tcpopt_loop (5 # 0 # r) ret = None"
proof (rule ccontr)
  assume "sl2tcpopt_loop (5 # 0 # r) ret \<noteq> None"
  then obtain y where y: "sl2tcpopt_loop (5 # 0 # r) ret = Some y" by auto
  have "5 # 0 # r \<noteq> 5 # 0 # r"
    by (rule sl2tcpopt_loop.raw_induct [OF _ y, where P = "\<lambda>buf ret y. buf \<noteq> 5 # 0 # r"])
      (fastforce simp: Let_def split: if_splits)
  then show False by simp
qed

text \<open>
  C35: A received segment can hang or crash the parser.  After any well-formed options, an option
  of a kind the parser does not know, or a SACK option of length zero, makes \<open>_sl2tcpopt\<close> loop
  forever, so \<open>Sl2tcphdr\<close> never returns; and an option list whose last byte is the kind of a
  SACK or SACK-permitted option makes it panic.
\<close>

theorem Sl2tcphdr_hangs:
  assumes "\<forall>opt \<in> set os. option_wf opt" "bad \<noteq> []"
    and "unat (drop_bit 4 (Dataoff t)) * 4 = TCPLEN + length (options_bytes os @ bad)"
  shows "(hd bad \<notin> {0, 1, 2, 3, 4, 5, 8} \<or> take 2 bad = [5, 0] \<longrightarrow>
        Sl2tcphdr (Tcphdr_Bytes t @ (options_bytes os @ bad) @ payload) = None)
      \<and> (bad = [4] \<or> bad = [5] \<longrightarrow>
        (\<exists>s. Sl2tcphdr (Tcphdr_Bytes t @ (options_bytes os @ bad) @ payload) = Some (Panic s)))"
proof -
  have ne: "options_bytes os @ bad \<noteq> []" using assms(2) by simp
  note parse = Sl2tcphdr_options [OF assms(3) ne, unfolded sl2tcpopt_def loop_options [OF assms(1)]]
  have unknown: "sl2tcpopt_loop bad ret = None" if "hd bad \<notin> {0, 1, 2, 3, 4, 5, 8}" for ret
    using loop_unknown [OF that, of "tl bad"] assms(2) by simp
  have sacks: "sl2tcpopt_loop bad ret = None" if "take 2 bad = [5, 0]" for ret
  proof -
    have "bad = 5 # 0 # drop 2 bad" using that append_take_drop_id [of 2 bad] by simp
    then show ?thesis using loop_empty_sacks [of "drop 2 bad" ret] by simp
  qed
  have short: "\<exists>s. sl2tcpopt_loop bad ret = Some (Panic s)" if "bad = [4] \<or> bad = [5]" for ret
    using that by (subst sl2tcpopt_loop.simps) auto
  show ?thesis unfolding parse
  proof (intro conjI impI)
    assume "hd bad \<notin> {0, 1, 2, 3, 4, 5, 8} \<or> take 2 bad = [5, 0]"
    then have "sl2tcpopt_loop bad (foldl apply_option zero_Tcpopt os) = None"
      by (elim disjE) (rule unknown, assumption, rule sacks)
    then show "(case sl2tcpopt_loop bad (foldl apply_option zero_Tcpopt os) of None \<Rightarrow> None
      | Some (Panic s) \<Rightarrow> Some (Panic s) | Some (Ok opt) \<Rightarrow> Some (Ok (Some (t, opt, payload)))) = None" by simp
  next
    assume "bad = [4] \<or> bad = [5]"
    from short [OF this, of "foldl apply_option zero_Tcpopt os"]
    show "\<exists>s. (case sl2tcpopt_loop bad (foldl apply_option zero_Tcpopt os) of None \<Rightarrow> None
      | Some (Panic s) \<Rightarrow> Some (Panic s) | Some (Ok opt) \<Rightarrow> Some (Ok (Some (t, opt, payload)))) = Some (Panic s)"
      by auto
  qed
qed

text \<open>An MD5 signature option (kind 19) hangs the parser.\<close>

theorem Sl2tcphdr_hangs_witness:
  "Sl2tcphdr (Tcphdr_Bytes ((Init_syn 80 1024 7)\<lparr>Dataoff := 0x60\<rparr>) @ (options_bytes [Onop] @ [19, 2, 0]) @ []) = None"
proof -
  have "unat (drop_bit 4 (Dataoff ((Init_syn 80 1024 7)\<lparr>Dataoff := 0x60\<rparr>))) * 4 =
      TCPLEN + length (options_bytes [Onop] @ [19, 2, 0])"
    by (simp add: options_bytes_def TCPLEN_def)
  from Sl2tcphdr_hangs [OF _ _ this, of "[]"] show ?thesis by simp
qed

end
