(* ===== verification/Tcpsegs.thy ===== *)
theory Tcpsegs
  imports Circbuf Inet
begin

text \<open>
  \<open>bnet/net.go\<close>: sequence number arithmetic, the two segment lists of a connection (segments sent
  and not acknowledged, \<open>tcpsegs_t\<close>, and segments received out of order, \<open>tcprsegs_t\<close>) and the
  buffers \<open>tcpbuf_t\<close> between the user and the connection.

  \<open>now\<close> is the clock reading \<open>Fastmillis()\<close> and \<open>lim\<close> is \<open>Syslimit.Tcpsegs\<close>.  \<open>sort.Sort\<close> is a
  stable sort, as Go's is on the short lists that the limit allows; the wakeups of waiting threads
  are not part of the state.
\<close>

type_synonym seqno = "32 word"
type_synonym millis_t = "64 word"

definition seqdiff :: "seqno \<Rightarrow> seqno \<Rightarrow> int" where
  "seqdiff big small = uint (big - small)"

definition seqbetween :: "seqno \<Rightarrow> seqno \<Rightarrow> seqno \<Rightarrow> bool" where
  "seqbetween low mid hi \<longleftrightarrow> seqdiff hi mid \<le> seqdiff hi low"

record tseg_t =
  sg_seq :: seqno
  sg_len :: "32 word"
  sg_when :: millis_t

record tcpsegs_t =
  segs :: "tseg_t list"
  winend :: seqno

subsection \<open>Segments that were sent\<close>

text \<open>The two checks of \<open>_sanity\<close> on a segment and its neighbours.\<close>

definition segs_sanity :: "tseg_t list \<Rightarrow> unit go" where
  "segs_sanity sg =
     gfold (\<lambda>i _.
       gbind (if i > 0 then
           let prev = sg ! (i - 1) in
           if sg_seq prev = sg_seq (sg ! i) then Panic ''same seqs''
           else if seqbetween (sg_seq prev) (sg_seq (sg ! i)) (sg_seq prev + sg_len prev - 1) then Panic ''overlap''
           else Ok ()
         else Ok ()) (\<lambda>_.
       if i < length sg - 1 then
         let next = sg ! (i + 1) in
         if sg_seq next = sg_seq (sg ! i) then Panic ''same seqs''
         else if seqbetween (sg_seq next) (sg_seq (sg ! i) + sg_len (sg ! i) - 1) (sg_seq next + sg_len next)
         then Panic ''overlap''
         else Ok ()
       else Ok ()))
     [0..<length sg] ()"

definition sort_segs :: "seqno \<Rightarrow> tseg_t list \<Rightarrow> tseg_t list" where
  "sort_segs we = sort_key (\<lambda>s. - seqdiff we (sg_seq s))"

definition addnoisect :: "millis_t \<Rightarrow> tcpsegs_t \<Rightarrow> seqno \<Rightarrow> 32 word \<Rightarrow> seqno \<Rightarrow> tcpsegs_t go" where
  "addnoisect now ts sq l we =
     (if l = 0 then Panic ''0 length transmit seg?''
      else
        let sg = sort_segs we (segs ts @ [\<lparr>sg_seq = sq, sg_len = l, sg_when = now\<rparr>]) in
        gbind (segs_sanity sg) (\<lambda>_. Ok \<lparr>segs = sg, winend = we\<rparr>))"

fun ackupto_loop :: "seqno \<Rightarrow> seqno \<Rightarrow> tseg_t list \<Rightarrow> tseg_t list" where
  "ackupto_loop we sq [] = []"
| "ackupto_loop we sq (s # sg) =
     (if seqdiff we sq \<ge> seqdiff we (sg_seq s) then s # sg
      else if seqbetween (sg_seq s) sq (sg_seq s + sg_len s - 1)
      then s\<lparr>sg_seq := sq, sg_len := word_of_int (seqdiff (sg_seq s + sg_len s) sq)\<rparr> # sg
      else ackupto_loop we sq sg)"

definition ackupto :: "tcpsegs_t \<Rightarrow> seqno \<Rightarrow> tcpsegs_t go" where
  "ackupto ts sq =
     (let sg = ackupto_loop (winend ts) sq (segs ts) in
      gbind (segs_sanity sg) (\<lambda>_. Ok (ts\<lparr>segs := sg\<rparr>)))"

text \<open>
  \<open>reset\<close> extends the segment that starts at \<open>sq\<close> over the following ones: those it covers are
  dropped and the one it ends in is shortened.
\<close>

fun reset_prune :: "seqno \<Rightarrow> tseg_t list \<Rightarrow> tseg_t list" where
  "reset_prune e [] = []"
| "reset_prune e (s # sg) =
     (if seqbetween (sg_seq s) e (sg_seq s + sg_len s - 1)
      then s\<lparr>sg_seq := e, sg_len := word_of_int (seqdiff (sg_seq s + sg_len s) e)\<rparr> # sg
      else reset_prune e sg)"

fun reset_loop :: "millis_t \<Rightarrow> seqno \<Rightarrow> 32 word \<Rightarrow> tseg_t list \<Rightarrow> tseg_t list go" where
  "reset_loop now sq nlen [] = Panic ''seq not found''"
| "reset_loop now sq nlen (s # sg) =
     (if sg_seq s = sq then
        if nlen = sg_len s then Ok (s\<lparr>sg_when := now\<rparr> # sg)
        else if nlen < sg_len s then Panic ''must exceed original seg length''
        else Ok (s\<lparr>sg_len := nlen, sg_when := now\<rparr> # reset_prune (sq + nlen) sg)
      else gbind (reset_loop now sq nlen sg) (\<lambda>sg. Ok (s # sg)))"

definition reset :: "millis_t \<Rightarrow> tcpsegs_t \<Rightarrow> seqno \<Rightarrow> 32 word \<Rightarrow> tcpsegs_t go" where
  "reset now ts sq nlen = gbind (reset_loop now sq nlen (segs ts)) (\<lambda>sg. Ok (ts\<lparr>segs := sg\<rparr>))"

definition addnow :: "int \<Rightarrow> millis_t \<Rightarrow> tcpsegs_t \<Rightarrow> seqno \<Rightarrow> 32 word \<Rightarrow> seqno \<Rightarrow> tcpsegs_t go" where
  "addnow lim now ts sq l we =
     gbind (if int (length (segs ts)) \<ge> lim then
         (case segs ts of
            [] \<Rightarrow> Panic ''index out of range''
          | s # sg \<Rightarrow> Ok (ts\<lparr>segs := [s\<lparr>sg_len := sum_list (map sg_len (s # sg))\<rparr>]\<rparr>))
       else Ok ts) (\<lambda>ts.
     gbind (addnoisect now ts sq 1 we) (\<lambda>ts. reset now ts sq l))"

fun prune_loop :: "seqno \<Rightarrow> tseg_t list \<Rightarrow> tseg_t list" where
  "prune_loop we [] = []"
| "prune_loop we (s # sg) =
     (if seqbetween (sg_seq s) we (sg_seq s + sg_len s - 1) then
        if sg_seq s = we then [] else [s\<lparr>sg_len := word_of_int (seqdiff we (sg_seq s))\<rparr>]
      else s # prune_loop we sg)"

definition prune :: "tcpsegs_t \<Rightarrow> seqno \<Rightarrow> tcpsegs_t" where
  "prune ts we = ts\<lparr>segs := prune_loop we (segs ts)\<rparr>"

definition nextts :: "tcpsegs_t \<Rightarrow> millis_t option" where
  "nextts ts = (case segs ts of [] \<Rightarrow> None | s # sg \<Rightarrow> Some (fold (\<lambda>s m. min (sg_when s) m) (s # sg) (sg_when s)))"

subsection \<open>Segments that were received out of order\<close>

text \<open>
  The coalescing loop: position \<open>i\<close> is the head of the list, and merging a segment with its
  successor leaves \<open>i\<close> where it is.
\<close>

definition merge_segs :: "seqno \<Rightarrow> tseg_t \<Rightarrow> tseg_t \<Rightarrow> tseg_t" where
  "merge_segs we s b =
     (let send = sg_seq s + sg_len s; bend = sg_seq b + sg_len b;
          newend = if seqdiff we send > seqdiff we bend then bend else send
      in s\<lparr>sg_len := newend - sg_seq s\<rparr>)"

function coalesce_segs :: "seqno \<Rightarrow> tseg_t list \<Rightarrow> tseg_t list" where
  "coalesce_segs we [] = []"
| "coalesce_segs we [s] = [s]"
| "coalesce_segs we (s # b # sg) =
     (if seqdiff we (sg_seq s + sg_len s) > seqdiff we (sg_seq b) then s # coalesce_segs we (b # sg)
      else coalesce_segs we (merge_segs we s b # sg))"
  by pat_completeness auto
termination by (relation "measure (\<lambda>(we, sg). length sg)") auto

definition recvd :: "int \<Rightarrow> tcpsegs_t \<Rightarrow> seqno \<Rightarrow> seqno \<Rightarrow> seqno \<Rightarrow> int \<Rightarrow> (seqno \<times> tcpsegs_t) go" where
  "recvd lim tr rcvnxt we sq l =
     (if l = 0 then Panic ''0 len rseg''
      else if segs tr = [] \<and> rcvnxt = sq then Ok (rcvnxt + word_of_int l, tr\<lparr>winend := we\<rparr>)
      else
        let sg = coalesce_segs we (sort_segs we (segs tr @ [\<lparr>sg_seq = sq, sg_len = word_of_int l, sg_when = 0\<rparr>]));
            sg = if int (length sg) > lim then take (nat lim) sg else sg in
        (case sg of
           [] \<Rightarrow> Panic ''index out of range''
         | s # sg' \<Rightarrow>
             if rcvnxt = sg_seq s then Ok (rcvnxt + sg_len s, \<lparr>segs = sg', winend = we\<rparr>)
             else Ok (rcvnxt, \<lparr>segs = sg, winend = we\<rparr>)))"

subsection \<open>Buffers\<close>

record tcpbuf_t =
  tb_cbuf :: circbuf_t
  tb_seq :: seqno
  tb_didseq :: bool

definition tbuf_init :: "'m page_i \<Rightarrow> tcpbuf_t \<Rightarrow> byte list \<Rightarrow> int \<Rightarrow> 'm \<Rightarrow> (tcpbuf_t \<times> 'm) go" where
  "tbuf_init pgi tb v p_pg m = gbind (Cb_init_phys pgi (tb_cbuf tb) v p_pg m) (\<lambda>(cb, m).
     Ok (tb\<lparr>tb_cbuf := cb, tb_didseq := False\<rparr>, m))"

definition set_seq :: "tcpbuf_t \<Rightarrow> seqno \<Rightarrow> tcpbuf_t go" where
  "set_seq tb sq = (if tb_didseq tb then Panic ''seq already set''
     else Ok (tb\<lparr>tb_seq := sq, tb_didseq := True\<rparr>))"

definition end_seq :: "tcpbuf_t \<Rightarrow> seqno" where
  "end_seq tb = tb_seq tb + word_of_int (Used (tb_cbuf tb))"

definition tbuf_sanity :: "tcpbuf_t \<Rightarrow> unit go" where
  "tbuf_sanity tb = (if \<not> tb_didseq tb then Panic ''no sequence'' else Ok ())"

text \<open>\<open>copy\<close> into a slice of the buffer: the new buffer and the number of bytes copied.\<close>

definition copy_range :: "byte list \<Rightarrow> range option \<Rightarrow> byte list \<Rightarrow> byte list \<times> nat" where
  "copy_range buf dst src = (case dst of
       None \<Rightarrow> (buf, 0)
     | Some (a, z) \<Rightarrow> let n = min (z - a) (length src) in (overlay buf a (take n src), n))"

definition syswrite_one :: "int \<Rightarrow> byte list \<Rightarrow> circbuf_t \<times> int \<Rightarrow> (circbuf_t \<times> int) go" where
  "syswrite_one off r st = (case st of (cb, did) \<Rightarrow>
     gbind (Rawwrite cb (off + did) (int (length r))) (\<lambda>(dst1, dst2).
       let (buf1, did1) = copy_range (the_Buf cb) dst1 r;
           (buf2, did2) = copy_range buf1 dst2 (drop did1 r)
       in Ok (cb\<lparr>cb_Buf := Some buf2\<rparr>, did + (int did1 + int did2))))"

definition syswrite :: "tcpbuf_t \<Rightarrow> seqno \<Rightarrow> byte list list \<Rightarrow> tcpbuf_t go" where
  "syswrite tb nseq rxdata =
     gbind (tbuf_sanity tb) (\<lambda>_.
       if \<not> seqbetween (tb_seq tb) nseq (tb_seq tb + word_of_int (Left (tb_cbuf tb)))
       then Panic ''bad sequence number''
       else
         let dlen = int (sum_list (map length rxdata)) in
         if dlen = 0 then Panic ''nothing to write''
         else if dlen > Left (tb_cbuf tb) then Panic ''should be pruned to window''
         else
           let off = seqdiff nseq (tb_seq tb) in
           gbind (gfold (syswrite_one off) rxdata (tb_cbuf tb, 0)) (\<lambda>(cb, did).
             if did \<noteq> dlen then Panic ''nyet'' else Ok (tb\<lparr>tb_cbuf := cb\<rparr>)))"

definition rcvup :: "tcpbuf_t \<Rightarrow> seqno \<Rightarrow> tcpbuf_t go" where
  "rcvup tb up =
     (if \<not> seqbetween (tb_seq tb) up (tb_seq tb + word_of_int (int (length (the_Buf (tb_cbuf tb)))))
      then Panic ''upto not in window''
      else
        let did = seqdiff up (tb_seq tb) in
        gbind (Advhead (tb_cbuf tb) did) (\<lambda>cb.
          Ok (tb\<lparr>tb_seq := tb_seq tb + word_of_int did, tb_cbuf := cb\<rparr>)))"

definition slice_len :: "range option \<Rightarrow> int" where
  "slice_len r = (case r of None \<Rightarrow> 0 | Some (a, z) \<Rightarrow> int z - int a)"

definition slice_take :: "range option \<Rightarrow> int \<Rightarrow> range option go" where
  "slice_take r n = (case r of
       None \<Rightarrow> if n = 0 then Ok None else Panic ''slice bounds out of range''
     | Some (a, z) \<Rightarrow> if n < 0 \<or> n > int z - int a then Panic ''slice bounds out of range''
         else Ok (Some (a, a + nat n)))"

definition sysread :: "tcpbuf_t \<Rightarrow> seqno \<Rightarrow> int \<Rightarrow> (range option \<times> range option) go" where
  "sysread tb nseq l =
     gbind (tbuf_sanity tb) (\<lambda>_.
       if \<not> seqbetween (tb_seq tb) nseq (tb_seq tb + word_of_int (Used (tb_cbuf tb)))
       then Panic ''bad sequence number''
       else gbind (Rawread (tb_cbuf tb) (seqdiff nseq (tb_seq tb))) (\<lambda>(s1, s2).
         let rl = slice_len s1 + slice_len s2 in
         if rl > l then
           let totprune = rl - l in
           if slice_len s2 > 0 then
             let pr = (if totprune > slice_len s2 then slice_len s2 else totprune) in
             gbind (slice_take s2 (slice_len s2 - pr)) (\<lambda>s2'.
             gbind (slice_take s1 (slice_len s1 - (totprune - pr))) (\<lambda>s1'.
             Ok (s1', s2')))
           else gbind (slice_take s1 (slice_len s1 - totprune)) (\<lambda>s1'. Ok (s1', s2))
         else Ok (s1, s2)))"

definition ackup :: "tcpbuf_t \<Rightarrow> seqno \<Rightarrow> tcpbuf_t go" where
  "ackup tb rack =
     (if \<not> seqbetween (tb_seq tb) rack (tb_seq tb + word_of_int (Used (tb_cbuf tb)))
      then Panic ''ack out of window''
      else
        let sz = seqdiff rack (tb_seq tb) in
        if sz = 0 then Ok tb
        else gbind (Advtail (tb_cbuf tb) sz) (\<lambda>cb.
          Ok (tb\<lparr>tb_cbuf := cb, tb_seq := tb_seq tb + word_of_int sz\<rparr>)))"

end
