(* ===== verification/Tcprx.thy ===== *)
theory Tcprx
  imports Tcpsegs
begin

text \<open>
  \<open>bnet/net.go\<close>: what an established connection does with a received segment (\<open>data_in\<close> and the
  window updates it calls), and what the list of out-of-order segments keeps.
\<close>

text \<open>The fields of \<open>Tcptcb_t\<close> that the receive path reads and writes.\<close>

record Tcptcb_t =
  locked :: bool
  txdone :: bool
  rcv_nxt :: seqno
  rcv_win :: "16 word"
  rcv_mss :: "16 word"
  rcv_trsegs :: tcpsegs_t
  snd_nxt :: seqno
  snd_una :: seqno
  snd_win :: "16 word"
  snd_wl1 :: seqno
  snd_wl2 :: seqno
  snd_finseq :: seqno
  snd_tsegs :: tcpsegs_t
  ts_recent :: "32 word"
  ts_acksent :: "32 word"
  remack_num :: "64 word"
  remack_forcedelay :: bool
  remack_outa :: bool
  txbuf :: tcpbuf_t
  rxbuf :: tcpbuf_t

definition tcb_sanity :: "Tcptcb_t \<Rightarrow> unit go" where
  "tcb_sanity tc = (if \<not> locked tc then Panic ''tcb must be locked'' else Ok ())"

definition sched_ack :: "Tcptcb_t \<Rightarrow> Tcptcb_t" where
  "sched_ack tc = tc\<lparr>remack_num := remack_num tc + 1, remack_outa := True\<rparr>"

definition sched_ack_delay :: "Tcptcb_t \<Rightarrow> Tcptcb_t" where
  "sched_ack_delay tc = tc\<lparr>remack_outa := True, remack_forcedelay := True\<rparr>"

definition ackok :: "Tcptcb_t \<Rightarrow> seqno \<Rightarrow> bool go" where
  "ackok tc ack = gbind (tcb_sanity tc) (\<lambda>_. Ok (seqbetween (snd_una tc) ack (snd_nxt tc)))"

definition seqok :: "Tcptcb_t \<Rightarrow> seqno \<Rightarrow> int \<Rightarrow> bool go" where
  "seqok tc sq seglen = gbind (tcb_sanity tc) (\<lambda>_.
     let winstart = rcv_nxt tc; we = rcv_nxt tc + ucast (rcv_win tc); segend = sq + word_of_int seglen in
     Ok (seqbetween winstart sq we \<or> seqbetween winstart segend we))"

definition rwinupdate :: "Tcptcb_t \<Rightarrow> seqno \<Rightarrow> seqno \<Rightarrow> 16 word \<Rightarrow> Tcptcb_t" where
  "rwinupdate tc sq ack win =
     (let lwinend = rcv_nxt tc + ucast (rcv_win tc);
          w1less = seqdiff lwinend (snd_wl1 tc) > seqdiff lwinend sq;
          rwinend = snd_una tc + ucast (snd_win tc) + 1;
          wl2less = seqdiff rwinend (snd_wl2 tc) \<ge> seqdiff rwinend ack in
      if w1less \<or> (snd_wl1 tc = sq \<and> wl2less)
      then tc\<lparr>snd_win := win, snd_wl1 := sq, snd_wl2 := ack\<rparr>
      else tc)"

definition lwinshrink :: "Tcptcb_t \<Rightarrow> int \<Rightarrow> (bool \<times> Tcptcb_t) go" where
  "lwinshrink tc dlen = gbind (tcb_sanity tc) (\<lambda>_.
     let left = Left (tb_cbuf (rxbuf tc)) in
     if left - uint (rcv_win tc) \<ge> uint (rcv_mss tc) then Ok (False, tc\<lparr>rcv_win := word_of_int left\<rparr>)
     else if (word_of_int dlen :: 16 word) > rcv_win tc then Panic ''how? segments are pruned to window''
     else Ok (True, tc\<lparr>rcv_win := rcv_win tc - word_of_int dlen\<rparr>))"

text \<open>Dropping \<open>p\<close> bytes from the front, and from the back, of a list of slices.\<close>

fun prune_front :: "int \<Rightarrow> byte list list \<Rightarrow> byte list list \<times> int" where
  "prune_front p [] = ([], p)"
| "prune_front p (r # rest) =
     (let ub = (if p > int (length r) then int (length r) else p) in
      if p - ub = 0 then (drop (nat ub) r # rest, 0)
      else let (rest', p') = prune_front (p - ub) rest in (drop (nat ub) r # rest', p'))"

fun prune_back_rev :: "int \<Rightarrow> byte list list \<Rightarrow> byte list list \<times> int" where
  "prune_back_rev p [] = ([], p)"
| "prune_back_rev p (r # rest) =
     (let ub = (if p > int (length r) then int (length r) else p) in
      if p - ub = 0 then (take (length r - nat ub) r # rest, 0)
      else let (rest', p') = prune_back_rev (p - ub) rest in (take (length r - nat ub) r # rest', p'))"

definition prune_back :: "int \<Rightarrow> byte list list \<Rightarrow> byte list list \<times> int" where
  "prune_back p rest = (case prune_back_rev p (rev rest) of (rest', p') \<Rightarrow> (rev rest', p'))"

text \<open>The part of \<open>data_in\<close> that handles the acknowledgement.\<close>

definition data_in_ack :: "Tcptcb_t \<Rightarrow> seqno \<Rightarrow> seqno \<Rightarrow> 32 word \<Rightarrow> Tcptcb_t go" where
  "data_in_ack tc rseq rack rtstamp =
     (let tc = (if rtstamp \<ge> ts_recent tc \<and> rseq \<le> ts_acksent tc then tc\<lparr>ts_recent := rtstamp\<rparr> else tc);
          swinend = snd_una tc + ucast (snd_win tc) + 1 in
      if seqbetween (snd_una tc) rack swinend then
        gbind (ackupto (snd_tsegs tc) rack) (\<lambda>ts.
          let tc = tc\<lparr>snd_tsegs := ts, snd_una := rack\<rparr>;
              pack = (if txdone tc \<and> rack = snd_finseq tc + 1 then snd_finseq tc else rack) in
          gbind (ackup (txbuf tc) pack) (\<lambda>tb. Ok (tc\<lparr>txbuf := tb\<rparr>)))
      else Ok tc)"

text \<open>The part that trims the segment to the receive window: the new sequence number and slices.\<close>

definition trim_front :: "Tcptcb_t \<Rightarrow> seqno \<Rightarrow> byte list list \<Rightarrow> int \<Rightarrow> (seqno \<times> byte list list \<times> int) go" where
  "trim_front tc rseq rest dlen =
     (if \<not> seqbetween (rcv_nxt tc) rseq (rcv_nxt tc + ucast (rcv_win tc)) then
        let pr = seqdiff (rcv_nxt tc) rseq in
        if pr > dlen then Panic ''uh oh''
        else let (rest', p) = prune_front pr rest in
          if p \<noteq> 0 then Panic ''can't be in window''
          else Ok (rseq + word_of_int pr, rest', dlen - pr)
      else Ok (rseq, rest, dlen))"

definition trim_back :: "Tcptcb_t \<Rightarrow> seqno \<Rightarrow> byte list list \<Rightarrow> int \<Rightarrow> (byte list list \<times> int) go" where
  "trim_back tc rseq rest dlen =
     (let we = rcv_nxt tc + ucast (rcv_win tc) in
      if \<not> seqbetween (rcv_nxt tc) (rseq + word_of_int dlen) we then
        let pr = seqdiff (rseq + word_of_int dlen) we in
        if pr > dlen then Panic ''uh oh''
        else let (rest', p) = prune_back pr rest in
          if p \<noteq> 0 then Panic ''can't be in window''
          else Ok (rest', dlen - pr)
      else Ok (rest, dlen))"

definition data_in :: "int \<Rightarrow> Tcptcb_t \<Rightarrow> seqno \<Rightarrow> seqno \<Rightarrow> 16 word \<Rightarrow> byte list list \<Rightarrow> int \<Rightarrow> 32 word \<Rightarrow> Tcptcb_t go" where
  "data_in lim tc rseq rack rwin rest dlen rtstamp =
     gbind (seqok tc rseq dlen) (\<lambda>ok.
     if \<not> ok then Panic ''must contain in-window data''
     else
       gbind (data_in_ack tc rseq rack rtstamp) (\<lambda>tc.
       gbind (trim_front tc rseq rest dlen) (\<lambda>(rseq, rest, dlen).
       gbind (trim_back tc rseq rest dlen) (\<lambda>(rest, dlen).
       let we = rcv_nxt tc + ucast (rcv_win tc);
           tc = rwinupdate tc rseq rack rwin in
       if dlen = 0 then Ok tc
       else
         gbind (syswrite (rxbuf tc) rseq rest) (\<lambda>tb.
         let tc = tc\<lparr>rxbuf := tb\<rparr> in
         gbind (recvd lim (rcv_trsegs tc) (rcv_nxt tc) we rseq dlen) (\<lambda>(nxt, tr).
         let tc = tc\<lparr>rcv_nxt := nxt, rcv_trsegs := tr\<rparr> in
         gbind (rcvup (rxbuf tc) (rcv_nxt tc)) (\<lambda>tb.
         let tc = tc\<lparr>rxbuf := tb\<rparr> in
         gbind (lwinshrink tc dlen) (\<lambda>(delayack, tc).
         Ok (if delayack then sched_ack_delay tc else sched_ack tc)))))))))"

subsection \<open>Sequence numbers as offsets\<close>

lemma word_of_seqdiff: "x + word_of_int (seqdiff s x) = s"
  by (simp add: seqdiff_def)

lemma seqdiff_range: "0 \<le> seqdiff a b" "seqdiff a b < 4294967296"
  using uint_bounded [of "a - b"] by (simp_all add: seqdiff_def)

lemma seqdiff_off: "seqdiff (x + word_of_int a) (x + word_of_int b) = (a - b) mod 4294967296"
proof -
  have "(x + word_of_int a) - (x + word_of_int b) = (word_of_int (a - b) :: 32 word)"
    by (simp only: add_diff_cancel_left wi_hom_sub)
  then show ?thesis unfolding seqdiff_def by (simp only: uint_word_of_int) simp
qed

lemma seqdiff_self: "seqdiff (x + word_of_int a) x = a mod 4294967296"
  using seqdiff_off [of x a 0] by simp

lemma seqbetween_off:
  assumes "0 \<le> w" "w < 4294967296"
  shows "seqbetween x y (x + word_of_int w) \<longleftrightarrow> seqdiff y x \<le> w"
proof -
  define m where "m = seqdiff y x"
  have m: "0 \<le> m" "m < 4294967296" unfolding m_def by (rule seqdiff_range)+
  have y: "y = x + word_of_int m" unfolding m_def by (rule word_of_seqdiff [symmetric])
  have "seqdiff (x + word_of_int w) x = w" using assms by (simp add: seqdiff_self)
  moreover have "seqdiff (x + word_of_int w) y = (w - m) mod 4294967296" unfolding y by (rule seqdiff_off)
  moreover have "(w - m) mod 4294967296 = (if m \<le> w then w - m else w - m + 4294967296)"
  proof (cases "m \<le> w")
    case True
    then show ?thesis using assms m by (simp add: mod_pos_pos_trivial)
  next
    case False
    have "(w - m) mod 4294967296 = (w - m + 4294967296) mod 4294967296" by simp
    also have "\<dots> = w - m + 4294967296" using False assms m by (intro mod_pos_pos_trivial) linarith+
    finally show ?thesis using False by simp
  qed
  ultimately show ?thesis using m assms unfolding seqbetween_def m_def [symmetric] by auto
qed

text \<open>
  The distance from the end of a window of at most 64 KB: a position past the end looks very far
  away.
\<close>

lemma dist_window:
  assumes "0 \<le> w" "w \<le> 65535" "0 \<le> a" "a \<le> 65535"
  shows "seqdiff (x + word_of_int w) (x + word_of_int a) = (if a \<le> w then w - a else w - a + 4294967296)"
proof (cases "a \<le> w")
  case True
  then show ?thesis using assms by (simp add: seqdiff_off mod_pos_pos_trivial)
next
  case False
  have "(w - a) mod 4294967296 = (w - a + 4294967296) mod 4294967296" by simp
  also have "\<dots> = w - a + 4294967296" using False assms by (intro mod_pos_pos_trivial) linarith+
  finally show ?thesis using False by (simp add: seqdiff_off)
qed

subsection \<open>Coalescing\<close>

text \<open>
  Relative to the next expected number \<open>x\<close>, a segment is at an offset and has an end; it is well
  placed when it is not empty, ends within \<open>L\<close>, and all its offsets are \<open>good\<close>.
\<close>

definition seg_off :: "seqno \<Rightarrow> tseg_t \<Rightarrow> int" where
  "seg_off x s = seqdiff (sg_seq s) x"

definition seg_end :: "seqno \<Rightarrow> tseg_t \<Rightarrow> int" where
  "seg_end x s = seg_off x s + uint (sg_len s)"

definition seg_ok :: "(int \<Rightarrow> bool) \<Rightarrow> int \<Rightarrow> seqno \<Rightarrow> tseg_t \<Rightarrow> bool" where
  "seg_ok good L x s \<longleftrightarrow> sg_len s \<noteq> 0 \<and> seg_end x s \<le> L \<and>
     (\<forall>i. seg_off x s \<le> i \<and> i < seg_end x s \<longrightarrow> good i)"

lemma seg_okD:
  assumes "seg_ok good L x s" "L \<le> 65535"
  shows "0 \<le> seg_off x s" "seg_off x s < seg_end x s" "seg_end x s \<le> 65535"
    "sg_seq s = x + word_of_int (seg_off x s)" "sg_seq s + sg_len s = x + word_of_int (seg_end x s)"
proof -
  show "0 \<le> seg_off x s" unfolding seg_off_def by (rule seqdiff_range)
  have "uint (sg_len s) \<noteq> 0" using assms(1) by (simp add: seg_ok_def uint_0_iff)
  then have "0 < uint (sg_len s)" using uint_nonnegative [of "sg_len s"] by linarith
  then show "seg_off x s < seg_end x s" by (simp add: seg_end_def)
  show "seg_end x s \<le> 65535" using assms by (simp add: seg_ok_def)
  show e: "sg_seq s = x + word_of_int (seg_off x s)" unfolding seg_off_def by (rule word_of_seqdiff [symmetric])
  have "x + word_of_int (seg_end x s) = x + word_of_int (seg_off x s) + sg_len s"
    by (simp add: seg_end_def flip: wi_hom_add)
  then show "sg_seq s + sg_len s = x + word_of_int (seg_end x s)" by (simp flip: e)
qed

lemma seg_dist:
  assumes "seg_ok good L x s" "L \<le> 65535" "0 \<le> w" "w \<le> 65535" "we = x + word_of_int w"
  shows "seqdiff we (sg_seq s) = (if seg_off x s \<le> w then w - seg_off x s else w - seg_off x s + 4294967296)"
    and "seqdiff we (sg_seq s + sg_len s) = (if seg_end x s \<le> w then w - seg_end x s else w - seg_end x s + 4294967296)"
proof -
  note o = seg_okD [OF assms(1,2)]
  show "seqdiff we (sg_seq s) = (if seg_off x s \<le> w then w - seg_off x s else w - seg_off x s + 4294967296)"
    unfolding assms(5) by (subst o(4)) (use o assms in \<open>intro dist_window; linarith\<close>)
  show "seqdiff we (sg_seq s + sg_len s) = (if seg_end x s \<le> w then w - seg_end x s else w - seg_end x s + 4294967296)"
    unfolding assms(5) o(5) using o assms by (intro dist_window) linarith+
qed

lemma merge_segs_ok:
  assumes "seg_ok good L x s" "seg_ok good L x b" "L \<le> 65535" "0 \<le> w" "w \<le> 65535" "we = x + word_of_int w"
    and "seqdiff we (sg_seq b) \<le> seqdiff we (sg_seq s)"
    and "\<not> seqdiff we (sg_seq s + sg_len s) > seqdiff we (sg_seq b)"
  shows "seg_ok good L x (merge_segs we s b)" "sg_seq (merge_segs we s b) = sg_seq s"
    "seg_end x s \<le> w \<Longrightarrow> seg_end x (merge_segs we s b) \<le> w"
proof -
  define so se bo be where "so = seg_off x s" and "se = seg_end x s" and "bo = seg_off x b" and "be = seg_end x b"
  note names = so_def [symmetric] se_def [symmetric] bo_def [symmetric] be_def [symmetric]
  note s = seg_okD [OF assms(1,3), unfolded names] and b = seg_okD [OF assms(2,3), unfolded names]
  note ds = seg_dist [OF assms(1,3-6), unfolded names] and db = seg_dist [OF assms(2,3-6), unfolded names]
  have ov: "so \<le> bo" "bo \<le> se" using assms(7,8) unfolding ds db using s(1-3) b(1-3) assms(4,5) by (auto split: if_splits)
  define ne where "ne = (if seqdiff we (sg_seq s + sg_len s) > seqdiff we (sg_seq b + sg_len b) then be else se)"
  have ne: "so < ne" "ne \<le> max se be" and new: "se \<le> w \<Longrightarrow> ne \<le> w"
    using assms(7,8) unfolding ne_def ds db using s(1-3) b(1-3) assms(4,5) ov by (auto split: if_splits)
  have len: "sg_len (merge_segs we s b) = word_of_int (ne - so)"
  proof -
    have "sg_len (merge_segs we s b) = (x + word_of_int ne) - (x + word_of_int so)"
    proof -
      have nw: "(if seqdiff we (sg_seq s + sg_len s) > seqdiff we (sg_seq b + sg_len b)
          then sg_seq b + sg_len b else sg_seq s + sg_len s) = x + word_of_int ne"
        unfolding ne_def by (simp only: s(5) b(5) split: if_split) simp
      have "sg_len (merge_segs we s b) = x + word_of_int ne - sg_seq s"
        unfolding nw [symmetric] by (simp add: merge_segs_def Let_def)
      then show ?thesis by (simp only: s(4))
    qed
    then show ?thesis by (simp only: add_diff_cancel_left wi_hom_sub)
  qed
  have u: "uint (sg_len (merge_segs we s b)) = ne - so"
    unfolding len using ne s(1,3) b(3) by (simp only: uint_word_of_int) simp
  show seq: "sg_seq (merge_segs we s b) = sg_seq s" by (simp add: merge_segs_def Let_def)
  have off: "seg_off x (merge_segs we s b) = so" unfolding seg_off_def seq by (simp add: so_def seg_off_def)
  have en: "seg_end x (merge_segs we s b) = ne" using off u by (simp add: seg_end_def)
  have "good i" if "so \<le> i" "i < ne" for i
  proof (cases "i < se")
    case True
    then show ?thesis using assms(1) that by (auto simp: seg_ok_def so_def se_def)
  next
    case False
    then have "i < be" "bo \<le> i" using that ne ov by linarith+
    then show ?thesis using assms(2) by (auto simp: seg_ok_def bo_def be_def)
  qed
  moreover have "sg_len (merge_segs we s b) \<noteq> 0" using u ne(1) by (auto simp: uint_0_iff)
  moreover have "se \<le> L" "be \<le> L" using assms(1,2) by (simp_all add: seg_ok_def se_def be_def)
  ultimately show "seg_ok good L x (merge_segs we s b)" using off en ne(2) by (auto simp: seg_ok_def)
  show "seg_end x (merge_segs we s b) \<le> w" if "seg_end x s \<le> w" using new that en by (simp add: se_def)
qed

definition segs_sorted :: "seqno \<Rightarrow> tseg_t list \<Rightarrow> bool" where
  "segs_sorted we sg \<longleftrightarrow> sorted_wrt (\<lambda>s b. seqdiff we (sg_seq b) \<le> seqdiff we (sg_seq s)) sg"

lemma sort_segs_sorted: "segs_sorted we (sort_segs we sg)" "set (sort_segs we sg) = set sg"
  "length (sort_segs we sg) = length sg"
proof -
  have "sorted (map (\<lambda>s. - seqdiff we (sg_seq s)) (sort_segs we sg))" unfolding sort_segs_def by simp
  then show "segs_sorted we (sort_segs we sg)" by (simp add: segs_sorted_def sorted_map)
qed (simp_all add: sort_segs_def)

lemma segs_sorted_hd:
  "segs_sorted we sg \<Longrightarrow> b \<in> set sg \<Longrightarrow> seqdiff we (sg_seq b) \<le> seqdiff we (sg_seq (hd sg))"
  by (cases sg) (auto simp: segs_sorted_def)

text \<open>What the loop leaves: the first segment keeps its start, and ends before the next one starts.\<close>

lemma coalesce_segs_ok:
  assumes "L \<le> 65535" "0 \<le> w" "w \<le> 65535"
  shows "we = x + word_of_int w \<Longrightarrow> \<forall>s \<in> set sg. seg_ok good L x s \<Longrightarrow> segs_sorted we sg \<Longrightarrow> sg \<noteq> [] \<Longrightarrow>
    \<exists>s r. coalesce_segs we sg = s # r \<and> sg_seq s = sg_seq (hd sg) \<and>
      (\<forall>s \<in> set (s # r). seg_ok good L x s) \<and> segs_sorted we (s # r) \<and>
      (seg_end x (hd sg) \<le> w \<longrightarrow> seg_end x s \<le> w) \<and>
      (r \<noteq> [] \<longrightarrow> seqdiff we (sg_seq s + sg_len s) > seqdiff we (sg_seq (hd r)))"
proof (induction we sg rule: coalesce_segs.induct)
  case (3 we s b sg)
  have sb: "seqdiff we (sg_seq b) \<le> seqdiff we (sg_seq s)" using "3.prems"(3) by (simp add: segs_sorted_def)
  have ok: "seg_ok good L x s" "seg_ok good L x b" using "3.prems"(2) by simp_all
  show ?case
  proof (cases "seqdiff we (sg_seq s + sg_len s) > seqdiff we (sg_seq b)")
    case True
    have "segs_sorted we (b # sg)" "\<forall>s \<in> set (b # sg). seg_ok good L x s"
      using "3.prems"(2,3) by (simp_all add: segs_sorted_def)
    then obtain s' r where r: "coalesce_segs we (b # sg) = s' # r" "sg_seq s' = sg_seq b"
      "\<forall>s \<in> set (s' # r). seg_ok good L x s" "segs_sorted we (s' # r)"
      using "3.IH"(1) [OF True "3.prems"(1)] by auto
    have "segs_sorted we (s # s' # r)" using r(2,4) sb by (auto simp: segs_sorted_def)
    then show ?thesis using True r ok(1) by simp
  next
    case False
    note m = merge_segs_ok [OF ok assms "3.prems"(1) sb False]
    have "segs_sorted we (merge_segs we s b # sg)" "\<forall>s \<in> set (merge_segs we s b # sg). seg_ok good L x s"
      using "3.prems"(2,3) m(1,2) by (simp_all add: segs_sorted_def)
    then obtain s' r where r: "coalesce_segs we (merge_segs we s b # sg) = s' # r"
      "sg_seq s' = sg_seq (merge_segs we s b)"
      "\<forall>s \<in> set (s' # r). seg_ok good L x s" "segs_sorted we (s' # r)"
      "seg_end x (merge_segs we s b) \<le> w \<longrightarrow> seg_end x s' \<le> w"
      "r \<noteq> [] \<longrightarrow> seqdiff we (sg_seq s' + sg_len s') > seqdiff we (sg_seq (hd r))"
      using "3.IH"(2) [OF False "3.prems"(1)] by auto
    show ?thesis using False r m(2,3) by simp
  qed
qed auto

subsection \<open>Receiving a segment\<close>

text \<open>
  The invariant of the list between segments, for a window of \<open>w\<close> bytes: every segment is well
  placed, and one that starts at the next expected byte is only left over when another one starts
  past the window, or when all of them end inside it.
\<close>

definition segs_inv :: "(int \<Rightarrow> bool) \<Rightarrow> int \<Rightarrow> int \<Rightarrow> seqno \<Rightarrow> tseg_t list \<Rightarrow> bool" where
  "segs_inv good L w x sg \<longleftrightarrow> (\<forall>s \<in> set sg. seg_ok good L x s) \<and>
     ((\<exists>s \<in> set sg. seg_off x s = 0) \<longrightarrow> (\<exists>s \<in> set sg. w < seg_off x s) \<or> (\<forall>s \<in> set sg. seg_end x s \<le> w))"

lemma segs_inv_shrink:
  assumes "\<forall>s \<in> set sg. seg_ok good L x s" "(\<exists>s \<in> set sg. seg_off x s = 0) \<longrightarrow> (\<exists>s \<in> set sg. w < seg_off x s)"
    and "w' \<le> w \<or> w' = L"
  shows "segs_inv good L w' x sg"
proof (cases "w' = L")
  case True
  then show ?thesis using assms(1) by (auto simp: segs_inv_def seg_ok_def)
next
  case False
  then show ?thesis using assms unfolding segs_inv_def by (metis order_le_less_trans)
qed

text \<open>Moving the origin by \<open>e\<close> bytes.\<close>

lemma seg_ok_shift:
  assumes "seg_ok good L x s" "L \<le> 65535" "0 \<le> e" "e \<le> seg_off x s"
  shows "seg_off (x + word_of_int e) s = seg_off x s - e" "seg_end (x + word_of_int e) s = seg_end x s - e"
    "seg_ok (\<lambda>i. good (i + e)) (L - e) (x + word_of_int e) s"
proof -
  note o = seg_okD [OF assms(1,2)]
  have "seqdiff (x + word_of_int (seg_off x s)) (x + word_of_int e) = seg_off x s - e"
    using o assms(3,4) by (simp add: seqdiff_off mod_pos_pos_trivial)
  then show off: "seg_off (x + word_of_int e) s = seg_off x s - e" by (simp only: seg_off_def [of "x + word_of_int e"] o(4) [symmetric])
  then show en: "seg_end (x + word_of_int e) s = seg_end x s - e" by (simp add: seg_end_def)
  show "seg_ok (\<lambda>i. good (i + e)) (L - e) (x + word_of_int e) s"
    using assms(1) by (auto simp: seg_ok_def off en)
qed

lemma recvd_ok:
  assumes inv: "segs_inv good L w x (segs tr)" and L: "L \<le> 65535" and w: "0 \<le> w" "w \<le> L"
    and we: "we = x + word_of_int w" and q: "sq = x + word_of_int o1" "0 \<le> o1" "0 < l" "o1 + l \<le> w"
    and good: "\<And>i. o1 \<le> i \<Longrightarrow> i < o1 + l \<Longrightarrow> good i" and lim: "0 < lim"
  shows "\<exists>e tr'. recvd lim tr x we sq l = Ok (x + word_of_int e, tr') \<and> 0 \<le> e \<and> e \<le> L \<and>
    (\<forall>i. 0 \<le> i \<and> i < e \<longrightarrow> good i) \<and>
    (\<forall>s \<in> set (segs tr'). seg_ok (\<lambda>i. good (i + e)) (L - e) (x + word_of_int e) s) \<and>
    ((\<exists>s \<in> set (segs tr'). seg_off (x + word_of_int e) s = 0) \<longrightarrow>
       e = 0 \<and> (\<exists>s \<in> set (segs tr'). w < seg_off x s)) \<and>
    (segs tr = [] \<and> o1 = 0 \<longrightarrow> e = l \<and> segs tr' = [])"
proof -
  define ns where "ns = \<lparr>sg_seq = sq, sg_len = word_of_int l, sg_when = 0\<rparr>"
  have wl: "w \<le> 65535" using w L by linarith
  have nso: "seg_off x ns = o1" using q w L by (simp add: seg_off_def ns_def seqdiff_self)
  have nse: "seg_end x ns = o1 + l" using nso q w L by (simp add: seg_end_def ns_def uint_word_of_int)
  have "sg_len ns \<noteq> 0" using nso nse q(3) by (auto simp: seg_end_def)
  then have nsok: "seg_ok good L x ns" using good q(4) w(2) by (auto simp: seg_ok_def nso nse)
  show ?thesis
  proof (cases "segs tr = [] \<and> x = sq")
    case True
    then have "word_of_int o1 = (0 :: 32 word)" using q(1) by simp
    then have "o1 = 0" using nso by (simp add: seg_off_def ns_def q(1) seqdiff_def)
    then show ?thesis using True q good w
      by (intro exI [of _ l] exI [of _ "tr\<lparr>winend := we\<rparr>"]) (simp add: recvd_def)
  next
    case False
    define sorted_sg where "sorted_sg = sort_segs we (segs tr @ [ns])"
    have set: "set sorted_sg = insert ns (set (segs tr))" unfolding sorted_sg_def by (simp add: sort_segs_sorted)
    have so: "segs_sorted we sorted_sg" unfolding sorted_sg_def by (rule sort_segs_sorted)
    have ok: "\<forall>s \<in> set sorted_sg. seg_ok good L x s" using inv nsok by (simp add: set segs_inv_def)
    have ne: "sorted_sg \<noteq> []" using set by auto
    obtain s r where r: "coalesce_segs we sorted_sg = s # r" "sg_seq s = sg_seq (hd sorted_sg)"
      "\<forall>s \<in> set (s # r). seg_ok good L x s" "segs_sorted we (s # r)"
      "seg_end x (hd sorted_sg) \<le> w \<longrightarrow> seg_end x s \<le> w"
      "r \<noteq> [] \<longrightarrow> seqdiff we (sg_seq s + sg_len s) > seqdiff we (sg_seq (hd r))"
      using coalesce_segs_ok [OF L w(1) wl we ok so ne] by auto
    have sok: "seg_ok good L x s" using r(3) by simp
    note sD = seg_okD [OF sok L] and dist = seg_dist [OF _ L w(1) wl we]
    obtain k where k: "(if int (length (s # r)) > lim then take (nat lim) (s # r) else s # r) = s # take k r"
    proof (cases "int (length (s # r)) > lim")
      case True
      have "take (nat lim) (s # r) = s # take (nat lim - 1) r" using lim by (cases "nat lim") simp_all
      then show thesis using True that [of "nat lim - 1"] by simp
    next
      case False
      then show thesis using that [of "length r"] by simp
    qed
    have rk: "set (take k r) \<subseteq> set r" by (rule set_take_subset)
    have run: "recvd lim tr x we sq l = (if x = sg_seq s then Ok (x + sg_len s, \<lparr>segs = take k r, winend = we\<rparr>)
        else Ok (x, \<lparr>segs = s # take k r, winend = we\<rparr>))"
      unfolding recvd_def Let_def ns_def [symmetric] sorted_sg_def [symmetric] r(1) k if_not_P [OF False]
      using q(3) by simp
    show ?thesis
    proof (cases "x = sg_seq s")
      case True
      then have s0: "seg_off x s = 0" by (simp add: seg_off_def seqdiff_def)
      define e where "e = seg_end x s"
      have e: "sg_len s = word_of_int e" "0 < e" using s0 sD(2) by (simp_all add: e_def seg_end_def)
      have h0: "seg_off x (hd sorted_sg) = 0" using s0 r(2) by (simp add: seg_off_def)
      have hd_in: "hd sorted_sg \<in> set sorted_sg" using ne by simp
      then have hok: "seg_ok good L x (hd sorted_sg)" using ok by blast
      have near: "seqdiff we (sg_seq b) \<le> w" if "b \<in> set sorted_sg" for b
        using segs_sorted_hd [OF so that] dist(1) [OF hok] h0 w(1) by simp
      have "seg_end x (hd sorted_sg) \<le> w"
      proof (cases "hd sorted_sg = ns")
        case False
        then have old: "hd sorted_sg \<in> set (segs tr)" using hd_in set by blast
        have "\<not> w < seg_off x b" if "b \<in> set (segs tr)" for b
        proof
          assume "w < seg_off x b"
          moreover have "seg_ok good L x b" "seqdiff we (sg_seq b) \<le> w" using that ok near set by auto
          ultimately show False using dist(1) [of good b] seg_okD(2,3) [of good L x b] L by simp
        qed
        then show ?thesis using inv old h0 unfolding segs_inv_def by blast
      qed (simp add: nse q(4))
      then have ew: "e \<le> w" using r(5) by (simp add: e_def)
      have far: "e < seg_off x b" if "b \<in> set r" for b
      proof -
        have "seg_ok good L x b" using that r(3) by simp
        moreover have "segs_sorted we r" using r(4) by (simp add: segs_sorted_def)
        then have "seqdiff we (sg_seq b) \<le> seqdiff we (sg_seq (hd r))" using that by (rule segs_sorted_hd)
        moreover have "seqdiff we (sg_seq (hd r)) < w - e" using r(6) that dist(2) [OF sok] ew by (auto simp: e_def)
        ultimately show ?thesis using dist(1) [of good b] seg_okD(2,3) [of good L x b] L e(2) w by (auto split: if_splits)
      qed
      have "recvd lim tr x we sq l = Ok (x + word_of_int e, \<lparr>segs = take k r, winend = we\<rparr>)"
        unfolding run using True e(1) by simp
      moreover have "good i" if "0 \<le> i" "i < e" for i using sok that s0 by (auto simp: seg_ok_def e_def)
      moreover have "seg_ok (\<lambda>i. good (i + e)) (L - e) (x + word_of_int e) b"
        "seg_off (x + word_of_int e) b \<noteq> 0" if "b \<in> set (take k r)" for b
      proof -
        have b: "b \<in> set r" using that rk by blast
        then have bok: "seg_ok good L x b" using r(3) by simp
        note sh = seg_ok_shift [OF bok L less_imp_le [OF e(2)] less_imp_le [OF far [OF b]]]
        show "seg_ok (\<lambda>i. good (i + e)) (L - e) (x + word_of_int e) b" by (rule sh(3))
        show "seg_off (x + word_of_int e) b \<noteq> 0" using sh(1) far [OF b] by simp
      qed
      moreover have "segs tr \<noteq> [] \<or> o1 \<noteq> 0" using False q(1) by auto
      ultimately show ?thesis using e(2) ew w(2)
        by (intro exI [of _ e] exI [of _ "\<lparr>segs = take k r, winend = we\<rparr>"]) auto
    next
      case np: False
      have beyond: "w < seg_off x s" if "b \<in> set (s # take k r)" "seg_off x b = 0" for b
      proof -
        have b: "b \<in> set (s # r)" using that(1) rk by auto
        then have bok: "seg_ok good L x b" using r(3) by blast
        have "w \<le> seqdiff we (sg_seq s)"
          using segs_sorted_hd [OF r(4) b] dist(1) [OF bok] that(2) w(1) by simp
        moreover have "seg_off x s \<noteq> 0" using np sD(4) by auto
        ultimately show ?thesis using dist(1) [OF sok] sD(1) by (auto split: if_splits)
      qed
      have "recvd lim tr x we sq l = Ok (x + word_of_int 0, \<lparr>segs = s # take k r, winend = we\<rparr>)"
        unfolding run using np by simp
      moreover have "\<forall>b \<in> set (s # take k r). seg_ok good L x b" using r(3) rk by auto
      moreover have "(\<exists>b \<in> set (s # take k r). seg_off x b = 0) \<longrightarrow> (\<exists>b \<in> set (s # take k r). w < seg_off x b)"
        using beyond by (meson list.set_intros(1))
      moreover have "segs tr \<noteq> [] \<or> o1 \<noteq> 0" using False q(1) by auto
      ultimately show ?thesis using w L
        by (intro exI [of _ 0] exI [of _ "\<lparr>segs = s # take k r, winend = we\<rparr>"]) auto
    qed
  qed
qed

end
