(* ===== verification/Tcpstream.thy ===== *)
theory Tcpstream
  imports Tcprx
begin

text \<open>
  The receive path of a TCP connection (\<open>data_in\<close> of \<open>bnet/net.go\<close>) against the byte stream that the
  peer sends: writing into the receive buffer, trimming to the window, the invariant that relates
  buffer and out-of-order segments to the stream, and a run in which the advertised window exceeds
  the buffer.
\<close>

subsection \<open>Writing into the receive buffer\<close>

text \<open>The byte at position \<open>p\<close> of the stream, for the positions the buffer has room for.\<close>

definition cell :: "byte list \<Rightarrow> int \<Rightarrow> byte" where
  "cell b p = b ! nat (p mod int (length b))"

lemma scatter_append:
  "scatter b (is @ js) vs = scatter (scatter b is (take (length is) vs)) js (drop (length is) vs)"
proof (induction "is" arbitrary: b vs)
  case (Cons i "is")
  then show ?case by (cases vs) simp_all
qed simp

lemma scatter_line: "a + length vs \<le> length b \<Longrightarrow> scatter b [a..<a + length vs] vs = overlay b a vs"
proof (rule nth_equalityI)
  assume fit: "a + length vs \<le> length b"
  fix j assume "j < length (scatter b [a..<a + length vs] vs)"
  then have j: "j < length b" by simp
  show "scatter b [a..<a + length vs] vs ! j = overlay b a vs ! j"
  proof (cases "a \<le> j \<and> j < a + length vs")
    case True
    then have "scatter b [a..<a + length vs] vs ! ([a..<a + length vs] ! (j - a)) = vs ! (j - a)"
      using fit by (intro nth_scatter) auto
    then show ?thesis using True fit j by (simp add: nth_overlay)
  next
    case False
    then have "scatter b [a..<a + length vs] vs ! j = b ! j" by (intro nth_scatter_other) auto
    then show ?thesis using False fit j by (auto simp: nth_overlay)
  qed
qed simp

lemma copy_range_scatter:
  assumes "set (case r of None \<Rightarrow> [] | Some (a, z) \<Rightarrow> [a..<z]) \<subseteq> {..<length b}"
    "length (case r of None \<Rightarrow> [] | Some (a, z) \<Rightarrow> [a..<z]) \<le> length src"
  defines "ix \<equiv> (case r of None \<Rightarrow> [] | Some (a, z) \<Rightarrow> [a..<z])"
  shows "copy_range b r src = (scatter b ix (take (length ix) src), length ix)"
proof (cases r)
  case (Some az)
  obtain a z where az: "az = (a, z)" by (cases az)
  show ?thesis
  proof (cases "a < z")
    case True
    have "z - 1 \<in> set [a..<z]" using True by auto
    then have zb: "z \<le> length b" using assms(1) True unfolding Some az by fastforce
    let ?vs = "take (z - a) src"
    have len: "length ?vs = z - a" using assms(2) unfolding Some az by simp
    have "scatter b [a..<a + length ?vs] ?vs = overlay b a ?vs" using True zb len by (intro scatter_line) simp
    then show ?thesis using True len assms(2) unfolding ix_def Some az by (simp add: copy_range_def Let_def)
  next
    case False
    then show ?thesis unfolding ix_def Some az by (simp add: copy_range_def overlay_def)
  qed
qed (simp add: ix_def copy_range_def)

lemma cell_scatter:
  assumes "0 < length b" "int (length vs) \<le> int (length b)"
    "q + int (length vs) - int (length b) \<le> p" "p < q + int (length b)"
  shows "cell (scatter b (ring_idx (int (length b)) q (length vs)) vs) p =
    (if q \<le> p \<and> p < q + int (length vs) then vs ! nat (p - q) else cell b p)"
proof -
  let ?s = "int (length b)" and ?ix = "ring_idx (int (length b)) q (length vs)"
  have d: "distinct ?ix" using assms by (intro ring_idx_inj) simp_all
  have range: "set ?ix \<subseteq> {..<length b}" using assms(1) by (auto simp: ring_idx_def nat_less_iff)
  have len: "length ?ix = length vs" by (simp add: ring_idx_def)
  show ?thesis
  proof (cases "q \<le> p \<and> p < q + int (length vs)")
    case True
    then have k: "nat (p - q) < length vs" by linarith
    then have "?ix ! nat (p - q) = nat (p mod ?s)" using True by (simp add: ring_idx_def)
    then show ?thesis using True nth_scatter [OF d range, of vs "nat (p - q)"] k len by (simp add: cell_def)
  next
    case False
    have "nat (p mod ?s) \<notin> set ?ix"
    proof
      assume "nat (p mod ?s) \<in> set ?ix"
      then obtain i where i: "i < length vs" "nat ((q + int i) mod ?s) = nat (p mod ?s)" by (auto simp: ring_idx_def)
      then have "(q + int i) mod ?s = p mod ?s" using assms(1) by (simp add: nat_eq_iff2)
      then have "?s dvd \<bar>q + int i - p\<bar>" by (simp add: mod_eq_dvd_iff)
      moreover have "\<bar>q + int i - p\<bar> < ?s" using i(1) assms(3,4) False by linarith
      ultimately have "q + int i - p = 0" using zdvd_not_zless [of "\<bar>q + int i - p\<bar>" ?s] by force
      then show False using False i(1) by linarith
    qed
    then show ?thesis unfolding if_not_P [OF False] by (simp add: cell_def nth_scatter_other)
  qed
qed

text \<open>One slice written at offset \<open>off + did\<close> from the head.\<close>

lemma syswrite_one_ok:
  assumes "cb_inv cb" "cb_Buf cb = Some b" "0 \<le> off + did" "off + did + int (length r) \<le> Left cb"
  shows "\<exists>b'. syswrite_one off r (cb, did) = Ok (cb\<lparr>cb_Buf := Some b'\<rparr>, did + int (length r)) \<and> length b' = length b \<and>
    (\<forall>p. cb_tail cb \<le> p \<and> p < cb_tail cb + cb_bufsz cb \<longrightarrow> cell b' p =
      (if cb_head cb + off + did \<le> p \<and> p < cb_head cb + off + did + int (length r)
       then r ! nat (p - (cb_head cb + off + did)) else cell b p))"
proof (cases "r = []")
  case True
  then show ?thesis using assms by (auto simp: syswrite_one_def Rawwrite_def copy_range_def the_Buf_def Left_def)
next
  case False
  note I = cb_invD [OF assms(1,2)]
  have s: "cb_bufsz cb = int (length b)" using I(6) by simp
  have n: "0 < int (length r)" using False by simp
  let ?q = "cb_head cb + (off + did)"
  obtain r1 r2 where rs: "Rawwrite cb (off + did) (int (length r)) = Ok (r1, r2)"
    "raw_idx (r1, r2) = ring_idx (int (length b)) ?q (length r)"
    using Rawwrite_idx [OF assms(1,2,3) n assms(4)] unfolding s by auto
  define i1 i2 where "i1 = (case r1 of None \<Rightarrow> [] | Some (a, z) \<Rightarrow> [a..<z])"
    and "i2 = (case r2 of None \<Rightarrow> [] | Some (a, z) \<Rightarrow> [a..<z])"
  have ix: "i1 @ i2 = ring_idx (int (length b)) ?q (length r)" using rs(2) by (simp add: raw_idx_def i1_def i2_def)
  have range: "set (i1 @ i2) \<subseteq> {..<length b}" unfolding ix using I(7) by (auto simp: ring_idx_def nat_less_iff)
  have len: "length i1 + length i2 = length r" using arg_cong [OF ix, of length] by (simp add: ring_idx_def)
  let ?b1 = "scatter b i1 (take (length i1) r)"
  have c1: "copy_range b r1 r = (?b1, length i1)"
    using copy_range_scatter [of r1 b r] range len unfolding i1_def [symmetric] by simp
  have c2: "copy_range ?b1 r2 (drop (length i1) r) = (scatter ?b1 i2 (drop (length i1) r), length i2)"
    using copy_range_scatter [of r2 ?b1 "drop (length i1) r"] range len unfolding i2_def [symmetric] by simp
  let ?b2 = "scatter b (i1 @ i2) r"
  have run: "syswrite_one off r (cb, did) = Ok (cb\<lparr>cb_Buf := Some ?b2\<rparr>, did + int (length r))"
    using rs(1) c1 c2 I(8) len by (simp add: syswrite_one_def scatter_append)
  have "cell ?b2 p = (if ?q \<le> p \<and> p < ?q + int (length r) then r ! nat (p - ?q) else cell b p)"
    if "cb_tail cb \<le> p" "p < cb_tail cb + cb_bufsz cb" for p
    unfolding ix using I(3,7) assms(3,4) that s by (intro cell_scatter) (simp_all add: Left_def)
  then show ?thesis using run by (intro exI [of _ ?b2]) (simp add: add.assoc)
qed

lemma syswrite_loop_ok:
  assumes "cb_inv cb" "cb_Buf cb = Some b" "0 \<le> off" "0 \<le> did" "off + did + int (length (concat rest)) \<le> Left cb"
  shows "\<exists>b'. gfold (syswrite_one off) rest (cb, did) = Ok (cb\<lparr>cb_Buf := Some b'\<rparr>, did + int (length (concat rest)))
    \<and> length b' = length b \<and>
    (\<forall>p. cb_tail cb \<le> p \<and> p < cb_tail cb + cb_bufsz cb \<longrightarrow> cell b' p =
      (if cb_head cb + off + did \<le> p \<and> p < cb_head cb + off + did + int (length (concat rest))
       then concat rest ! nat (p - (cb_head cb + off + did)) else cell b p))"
  using assms
proof (induction rest arbitrary: cb b did)
  case Nil
  then have "cb\<lparr>cb_Buf := Some b\<rparr> = cb" by simp
  then show ?case by (intro exI [of _ b]) auto
next
  case (Cons r rest)
  have fit: "off + did + int (length r) \<le> Left cb" using Cons.prems(5) by simp
  obtain b1 where b1: "syswrite_one off r (cb, did) = Ok (cb\<lparr>cb_Buf := Some b1\<rparr>, did + int (length r))"
    "length b1 = length b"
    "\<And>p. cb_tail cb \<le> p \<Longrightarrow> p < cb_tail cb + cb_bufsz cb \<Longrightarrow> cell b1 p =
      (if cb_head cb + off + did \<le> p \<and> p < cb_head cb + off + did + int (length r)
       then r ! nat (p - (cb_head cb + off + did)) else cell b p)"
    using syswrite_one_ok [OF Cons.prems(1,2) _ fit] Cons.prems(3,4) by auto
  let ?cb1 = "cb\<lparr>cb_Buf := Some b1\<rparr>"
  have inv1: "cb_inv ?cb1" using Cons.prems(1,2) b1(2) by (auto simp: cb_inv_def)
  have left1: "off + (did + int (length r)) + int (length (concat rest)) \<le> Left ?cb1"
    using Cons.prems(5) by (simp add: Left_def)
  obtain b2 where b2: "gfold (syswrite_one off) rest (?cb1, did + int (length r)) =
      Ok (?cb1\<lparr>cb_Buf := Some b2\<rparr>, did + int (length r) + int (length (concat rest)))" "length b2 = length b1"
    "\<And>p. cb_tail cb \<le> p \<Longrightarrow> p < cb_tail cb + cb_bufsz cb \<Longrightarrow> cell b2 p =
      (if cb_head cb + off + (did + int (length r)) \<le> p \<and> p < cb_head cb + off + (did + int (length r)) + int (length (concat rest))
       then concat rest ! nat (p - (cb_head cb + off + (did + int (length r)))) else cell b1 p)"
    using Cons.IH [OF inv1 _ Cons.prems(3) _ left1] Cons.prems(4) by auto
  show ?case
  proof (intro exI [of _ b2] conjI allI impI)
    show "gfold (syswrite_one off) (r # rest) (cb, did) =
        Ok (cb\<lparr>cb_Buf := Some b2\<rparr>, did + int (length (concat (r # rest))))"
      using b1(1) b2(1) by simp
    show "length b2 = length b" using b1(2) b2(2) by simp
    fix p assume p: "cb_tail cb \<le> p \<and> p < cb_tail cb + cb_bufsz cb"
    let ?q = "cb_head cb + off + did"
    consider "p < ?q" | "?q \<le> p" "p < ?q + int (length r)" | "?q + int (length r) \<le> p"
      "p < ?q + int (length r) + int (length (concat rest))" | "?q + int (length r) + int (length (concat rest)) \<le> p"
      by linarith
    then show "cell b2 p = (if ?q \<le> p \<and> p < ?q + int (length (concat (r # rest)))
       then concat (r # rest) ! nat (p - ?q) else cell b p)"
    proof cases
      case 2
      then have "nat (p - ?q) < length r" by linarith
      then show ?thesis using 2 b1(3) b2(3) p by (simp add: nth_append)
    next
      case 3
      then have "nat (p - ?q) = length r + nat (p - (?q + int (length r)))" by linarith
      then show ?thesis using 3 b2(3) p by (simp add: nth_append algebra_simps)
    qed (use b1(3) b2(3) p in simp_all)
  qed
qed

lemma length_concat_sum: "length (concat xss) = sum_list (map length xss)"
  by (induction xss) simp_all

lemma syswrite_ok:
  assumes "cb_inv (tb_cbuf tb)" "cb_Buf (tb_cbuf tb) = Some b" "tb_didseq tb" "cb_bufsz (tb_cbuf tb) \<le> 65535"
    and "sq = tb_seq tb + word_of_int off" "0 \<le> off" "concat rest \<noteq> []"
    and "off + int (length (concat rest)) \<le> Left (tb_cbuf tb)"
  shows "\<exists>b'. syswrite tb sq rest = Ok (tb\<lparr>tb_cbuf := (tb_cbuf tb)\<lparr>cb_Buf := Some b'\<rparr>\<rparr>) \<and> length b' = length b \<and>
    (\<forall>p. cb_tail (tb_cbuf tb) \<le> p \<and> p < cb_tail (tb_cbuf tb) + cb_bufsz (tb_cbuf tb) \<longrightarrow> cell b' p =
      (if cb_head (tb_cbuf tb) + off \<le> p \<and> p < cb_head (tb_cbuf tb) + off + int (length (concat rest))
       then concat rest ! nat (p - (cb_head (tb_cbuf tb) + off)) else cell b p))"
proof -
  let ?cb = "tb_cbuf tb"
  note I = cb_invD [OF assms(1,2)]
  have left: "0 \<le> Left ?cb" "Left ?cb \<le> 65535" using I assms(4) by (simp_all add: Left_def)
  have len: "int (sum_list (map length rest)) = int (length (concat rest))" by (simp add: length_concat_sum)
  have pos: "0 < int (length (concat rest))" using assms(7) by (cases "concat rest") simp_all
  then have nz: "int (length (concat rest)) \<noteq> 0" by linarith
  have off: "seqdiff sq (tb_seq tb) = off" unfolding assms(5) using assms(6,8) left pos by (simp add: seqdiff_self)
  have "seqbetween (tb_seq tb) sq (tb_seq tb + word_of_int (Left ?cb))"
    using left assms(8) pos by (subst seqbetween_off) (simp_all add: off)
  moreover have "\<not> int (length (concat rest)) > Left ?cb" using assms(6,8) by linarith
  ultimately have run: "syswrite tb sq rest = gbind (gfold (syswrite_one off) rest (?cb, 0)) (\<lambda>(cb, did).
      if did \<noteq> int (length (concat rest)) then Panic ''nyet'' else Ok (tb\<lparr>tb_cbuf := cb\<rparr>))"
    using assms(3) unfolding syswrite_def Let_def len off if_not_P [OF nz] by (simp add: tbuf_sanity_def)
  have "off + 0 + int (length (concat rest)) \<le> Left ?cb" using assms(8) by simp
  from syswrite_loop_ok [OF assms(1,2,6) order_refl this] show ?thesis unfolding run by auto
qed

lemma rcvup_ok:
  assumes "cb_inv (tb_cbuf tb)" "cb_Buf (tb_cbuf tb) = Some b" "cb_bufsz (tb_cbuf tb) \<le> 65535"
    and "0 \<le> e" "e \<le> Left (tb_cbuf tb)" "0 < Left (tb_cbuf tb)"
  shows "rcvup tb (tb_seq tb + word_of_int e) =
    Ok (tb\<lparr>tb_seq := tb_seq tb + word_of_int e, tb_cbuf := (tb_cbuf tb)\<lparr>cb_head := cb_head (tb_cbuf tb) + e\<rparr>\<rparr>)"
proof -
  note I = cb_invD [OF assms(1,2)]
  have e: "e \<le> cb_bufsz (tb_cbuf tb)" using I assms(5) by (simp add: Left_def)
  have d: "seqdiff (tb_seq tb + word_of_int e) (tb_seq tb) = e" using assms(3,4) e by (simp add: seqdiff_self)
  have "seqbetween (tb_seq tb) (tb_seq tb + word_of_int e) (tb_seq tb + word_of_int (int (length b)))"
    using I(6) assms(3) e by (subst seqbetween_off) (simp_all add: d)
  moreover have "\<not> Full (tb_cbuf tb)" "\<not> Left (tb_cbuf tb) < e" using assms(5,6) by (simp_all add: Full_def Left_def)
  ultimately show ?thesis using I(8) d by (simp add: rcvup_def Advhead_def Let_def)
qed

subsection \<open>Trimming to the window\<close>

lemma prune_front_ok:
  "0 \<le> p \<Longrightarrow> p \<le> int (length (concat rest)) \<Longrightarrow>
   \<exists>rest'. prune_front p rest = (rest', 0) \<and> concat rest' = drop (nat p) (concat rest)"
proof (induction rest arbitrary: p)
  case (Cons r rest)
  show ?case
  proof (cases "p > int (length r)")
    case True
    then obtain rest' where "prune_front (p - int (length r)) rest = (rest', 0)"
      "concat rest' = drop (nat (p - int (length r))) (concat rest)"
      using Cons.IH [of "p - int (length r)"] Cons.prems by auto
    moreover have "nat p = length r + nat (p - int (length r))" using True by linarith
    ultimately show ?thesis using True by simp
  next
    case False
    then show ?thesis using Cons.prems by simp
  qed
qed simp

lemma prune_back_rev_ok:
  "0 \<le> p \<Longrightarrow> p \<le> int (length (concat (rev rest))) \<Longrightarrow>
   \<exists>rest'. prune_back_rev p rest = (rest', 0) \<and>
     concat (rev rest') = take (length (concat (rev rest)) - nat p) (concat (rev rest))"
proof (induction rest arbitrary: p)
  case (Cons r rest)
  show ?case
  proof (cases "p > int (length r)")
    case True
    then obtain rest' where "prune_back_rev (p - int (length r)) rest = (rest', 0)"
      "concat (rev rest') = take (length (concat (rev rest)) - nat (p - int (length r))) (concat (rev rest))"
      using Cons.IH [of "p - int (length r)"] Cons.prems by auto
    moreover have "length (concat (rev rest)) + length r - nat p = length (concat (rev rest)) - nat (p - int (length r))"
      using True by linarith
    ultimately show ?thesis using True by simp
  next
    case False
    then have "length (concat (rev rest)) + length r - nat p = length (concat (rev rest)) + (length r - nat p)"
      using Cons.prems by linarith
    then show ?thesis using False Cons.prems by simp
  qed
qed simp

lemma prune_back_ok:
  assumes "0 \<le> p" "p \<le> int (length (concat rest))"
  shows "\<exists>rest'. prune_back p rest = (rest', 0) \<and> concat rest' = take (length (concat rest) - nat p) (concat rest)"
proof -
  obtain rest' where "prune_back_rev p (rev rest) = (rest', 0)"
    "concat (rev rest') = take (length (concat rest) - nat p) (concat rest)"
    using prune_back_rev_ok [of p "rev rest"] assms by auto
  then show ?thesis by (simp add: prune_back_def)
qed

text \<open>
  The segment holds the stream \<open>S\<close> from position \<open>q\<close> on.  The next expected position is \<open>h\<close>; old
  segments are assumed to be less than half the sequence space away.
\<close>

definition carries :: "(int \<Rightarrow> byte) \<Rightarrow> int \<Rightarrow> byte list list \<Rightarrow> bool" where
  "carries S q rest \<longleftrightarrow> (\<forall>i < length (concat rest). concat rest ! i = S (q + int i))"

definition window_of :: "Tcptcb_t \<Rightarrow> int" where
  "window_of tc = uint (rcv_win tc)"

lemma window_range: "0 \<le> window_of tc" "window_of tc \<le> 65535"
  using half_bounds [of "rcv_win tc"] by (simp_all add: window_of_def)

lemma winend_off: "rcv_nxt tc + ucast (rcv_win tc) = rcv_nxt tc + word_of_int (window_of tc)"
proof -
  have "(ucast (rcv_win tc) :: seqno) = word_of_int (uint (rcv_win tc))" by (rule ucast_eq)
  then show ?thesis by (simp only: window_of_def)
qed

lemma in_window_off:
  assumes "- 2147483648 \<le> d" "d \<le> 2147549184"
  shows "seqbetween (rcv_nxt tc) (rcv_nxt tc + word_of_int d) (rcv_nxt tc + ucast (rcv_win tc)) \<longleftrightarrow>
    0 \<le> d \<and> d \<le> window_of tc"
proof -
  have m: "d mod 4294967296 = (if 0 \<le> d then d else d + 4294967296)"
  proof (cases "0 \<le> d")
    case False
    have "d mod 4294967296 = (d + 4294967296) mod 4294967296" by simp
    also have "\<dots> = d + 4294967296" using False assms by (intro mod_pos_pos_trivial) linarith+
    finally show ?thesis using False by simp
  qed (use assms in simp)
  have w: "0 \<le> window_of tc" "window_of tc < 4294967296" using window_range [of tc] by linarith+
  show ?thesis unfolding winend_off seqbetween_off [OF w] seqdiff_self m
    using window_range [of tc] assms by (cases "0 \<le> d") simp_all
qed

lemma trim_front_ok:
  assumes d: "- 2147483648 \<le> d" "d < 2147483648" "0 \<le> d \<and> d \<le> window_of tc \<or>
      0 \<le> d + int (length (concat rest)) \<and> d + int (length (concat rest)) \<le> window_of tc"
    and c: "carries S (h + d) rest"
  shows "\<exists>rest1. trim_front tc (rcv_nxt tc + word_of_int d) rest (int (length (concat rest))) =
      Ok (rcv_nxt tc + word_of_int (max d 0), rest1, int (length (concat rest1))) \<and>
    max d 0 + int (length (concat rest1)) = d + int (length (concat rest)) \<and> max d 0 \<le> window_of tc \<and>
    carries S (h + max d 0) rest1"
proof (cases "0 \<le> d \<and> d \<le> window_of tc")
  case True
  then show ?thesis using d(1,2) c in_window_off [of d tc] by (auto simp: trim_front_def max_def)
next
  case False
  let ?n = "int (length (concat rest))"
  have neg: "d < 0" "- d \<le> ?n" using False d(3) by linarith+
  have out: "\<not> seqbetween (rcv_nxt tc) (rcv_nxt tc + word_of_int d) (rcv_nxt tc + ucast (rcv_win tc))"
    using False d(1,2) in_window_off [of d tc] by simp
  have pr: "seqdiff (rcv_nxt tc) (rcv_nxt tc + word_of_int d) = - d"
    using seqdiff_off [of "rcv_nxt tc" 0 d] neg d(1) by simp
  obtain rest1 where r: "prune_front (- d) rest = (rest1, 0)" "concat rest1 = drop (nat (- d)) (concat rest)"
    using prune_front_ok [of "- d" rest] neg by auto
  have len: "int (length (concat rest1)) = ?n - (- d)" unfolding r(2) using neg by (simp add: of_nat_diff)
  have z: "rcv_nxt tc + word_of_int d + word_of_int (- d) = rcv_nxt tc + word_of_int (max d 0)"
    using neg by (simp add: max_def)
  have "\<not> - d > ?n" using neg by linarith
  then have "trim_front tc (rcv_nxt tc + word_of_int d) rest ?n = Ok (rcv_nxt tc + word_of_int (max d 0), rest1, ?n - (- d))"
    unfolding trim_front_def Let_def pr z [symmetric] using out r(1) by simp
  moreover have "carries S (h + max d 0) rest1"
  proof -
    have "concat rest1 ! i = S (h + 0 + int i)" if "i < length (concat rest1)" for i
    proof -
      have "nat (- d) + i < length (concat rest)" using that len neg by linarith
      then have "concat rest ! (nat (- d) + i) = S (h + d + int (nat (- d) + i))" using c by (simp add: carries_def)
      moreover have "h + d + int (nat (- d) + i) = h + 0 + int i" using neg by simp
      ultimately show ?thesis unfolding r(2) using that neg by (simp add: r(2))
    qed
    then show ?thesis using neg by (simp add: carries_def max_def)
  qed
  ultimately show ?thesis using len neg window_range [of tc] by (intro exI [of _ rest1]) (simp add: max_def)
qed

lemma trim_back_ok:
  assumes "0 \<le> o1" "o1 \<le> window_of tc" "length (concat rest) \<le> 65535" and c: "carries S q rest"
  shows "\<exists>rest2. trim_back tc (rcv_nxt tc + word_of_int o1) rest (int (length (concat rest))) =
      Ok (rest2, int (length (concat rest2))) \<and>
    o1 + int (length (concat rest2)) = min (o1 + int (length (concat rest))) (window_of tc) \<and> carries S q rest2"
proof -
  let ?n = "int (length (concat rest))"
  have e: "rcv_nxt tc + word_of_int o1 + word_of_int ?n = rcv_nxt tc + word_of_int (o1 + ?n)"
    by (simp only: wi_hom_add [symmetric] add.assoc)
  have bound: "- 2147483648 \<le> o1 + ?n" "o1 + ?n \<le> 2147549184" using assms window_range [of tc] by linarith+
  note inw = in_window_off [OF bound]
  show ?thesis
  proof (cases "o1 + ?n \<le> window_of tc")
    case True
    then have "0 \<le> o1 + ?n" using assms(1) by linarith
    then show ?thesis using True c inw unfolding trim_back_def Let_def e by (intro exI [of _ rest]) simp
  next
    case False
    let ?p = "o1 + ?n - window_of tc"
    have p: "0 \<le> ?p" "?p \<le> ?n" using False assms(2) by linarith+
    have pr: "seqdiff (rcv_nxt tc + word_of_int (o1 + ?n)) (rcv_nxt tc + ucast (rcv_win tc)) = ?p"
      unfolding winend_off seqdiff_off using p assms(3) by (intro mod_pos_pos_trivial) linarith+
    obtain rest2 where r: "prune_back ?p rest = (rest2, 0)" "concat rest2 = take (length (concat rest) - nat ?p) (concat rest)"
      using prune_back_ok [OF p] by auto
    have len: "int (length (concat rest2)) = ?n - ?p" unfolding r(2) using p by (simp add: of_nat_diff)
    have "\<not> ?p > ?n" using p by linarith
    then have "trim_back tc (rcv_nxt tc + word_of_int o1) rest ?n = Ok (rest2, ?n - ?p)"
      unfolding trim_back_def Let_def e pr using inw False r(1) by simp
    moreover have "carries S q rest2" using c unfolding carries_def r(2) by simp
    ultimately show ?thesis using len False by (intro exI [of _ rest2]) (simp add: min_def)
  qed
qed

lemma seqok_off:
  assumes "- 2147483648 \<le> d" "d < 2147483648" "0 \<le> n" "n \<le> 65535"
    and "seqok tc (rcv_nxt tc + word_of_int d) n = Ok True"
  shows "0 \<le> d \<and> d \<le> window_of tc \<or> 0 \<le> d + n \<and> d + n \<le> window_of tc"
proof -
  have e: "rcv_nxt tc + word_of_int d + word_of_int n = rcv_nxt tc + word_of_int (d + n)"
    by (simp only: wi_hom_add [symmetric] add.assoc)
  have "- 2147483648 \<le> d + n" "d + n \<le> 2147549184" "d \<le> 2147549184" using assms by linarith+
  note inw = in_window_off [OF this(1,2)] in_window_off [OF assms(1) this(3)]
  have "seqbetween (rcv_nxt tc) (rcv_nxt tc + word_of_int d) (rcv_nxt tc + ucast (rcv_win tc)) \<or>
      seqbetween (rcv_nxt tc) (rcv_nxt tc + word_of_int (d + n)) (rcv_nxt tc + ucast (rcv_win tc))"
    using assms(5) unfolding seqok_def Let_def e by (cases "tcb_sanity tc") simp_all
  then show ?thesis unfolding inw by blast
qed

subsection \<open>The receive invariant\<close>

text \<open>
  \<open>S\<close> is the stream of the peer and \<open>isn\<close> the sequence number of its first byte.  The head of the
  receive buffer counts the bytes received in order and its tail the bytes the user has read.  The
  bytes between them are those of the stream, the next expected number is that of the head, and
  the recorded out-of-order segments lie in the free space and hold the stream's bytes already.
\<close>

definition rx_cb :: "Tcptcb_t \<Rightarrow> circbuf_t" where
  "rx_cb tc = tb_cbuf (rxbuf tc)"

definition rx_inv :: "(int \<Rightarrow> byte) \<Rightarrow> seqno \<Rightarrow> Tcptcb_t \<Rightarrow> bool" where
  "rx_inv S isn tc \<longleftrightarrow> (\<exists>b. locked tc \<and> cb_inv (rx_cb tc) \<and> cb_Buf (rx_cb tc) = Some b \<and> cb_bufsz (rx_cb tc) \<le> 65535 \<and>
     tb_didseq (rxbuf tc) \<and> tb_seq (rxbuf tc) = rcv_nxt tc \<and> rcv_nxt tc = isn + word_of_int (cb_head (rx_cb tc)) \<and>
     (\<forall>p. cb_tail (rx_cb tc) \<le> p \<and> p < cb_head (rx_cb tc) \<longrightarrow> cell b p = S p) \<and>
     segs_inv (\<lambda>i. cell b (cb_head (rx_cb tc) + i) = S (cb_head (rx_cb tc) + i)) (Left (rx_cb tc)) (window_of tc)
       (rcv_nxt tc) (segs (rcv_trsegs tc)))"

lemma rx_inv_data:
  assumes "rx_inv S isn tc"
  shows "cb_data (rx_cb tc) = map S [cb_tail (rx_cb tc)..cb_head (rx_cb tc) - 1]"
proof -
  obtain b where b: "cb_inv (rx_cb tc)" "cb_Buf (rx_cb tc) = Some b"
    "\<And>p. cb_tail (rx_cb tc) \<le> p \<Longrightarrow> p < cb_head (rx_cb tc) \<Longrightarrow> cell b p = S p"
    using assms by (auto simp: rx_inv_def)
  have "ring b (cb_tail (rx_cb tc)) (cb_head (rx_cb tc)) = map (cell b) [cb_tail (rx_cb tc)..cb_head (rx_cb tc) - 1]"
    by (simp add: ring_def cell_def)
  also have "\<dots> = map S [cb_tail (rx_cb tc)..cb_head (rx_cb tc) - 1]" using b(3) by simp
  finally show ?thesis using cb_data_Some [OF b(2)] by simp
qed

lemma seg_ok_mono:
  assumes "seg_ok good L x s" "\<And>i. 0 \<le> i \<Longrightarrow> i < L \<Longrightarrow> good i \<Longrightarrow> good' i"
  shows "seg_ok good' L x s"
proof -
  have "0 \<le> seg_off x s" unfolding seg_off_def by (rule seqdiff_range)
  then show ?thesis using assms by (auto simp: seg_ok_def)
qed

lemma segs_inv_mono:
  "segs_inv good L w x sg \<Longrightarrow> (\<And>i. 0 \<le> i \<Longrightarrow> i < L \<Longrightarrow> good i \<Longrightarrow> good' i) \<Longrightarrow> segs_inv good' L w x sg"
  unfolding segs_inv_def using seg_ok_mono [of good L x _ good'] by blast

lemma lwinshrink_ok:
  assumes "locked tc" "0 \<le> dlen" "dlen \<le> window_of tc" "0 \<le> Left (rx_cb tc)" "Left (rx_cb tc) \<le> 65535"
  shows "\<exists>d w. lwinshrink tc dlen = Ok (d, tc\<lparr>rcv_win := w\<rparr>) \<and> (uint w \<le> window_of tc \<or> uint w = Left (rx_cb tc))"
proof (cases "Left (rx_cb tc) - window_of tc \<ge> uint (rcv_mss tc)")
  case True
  then show ?thesis using assms
    by (auto simp: lwinshrink_def tcb_sanity_def Let_def window_of_def rx_cb_def uint_word_of_int)
next
  case False
  have w: "window_of tc \<le> 65535" by (rule window_range)
  have d: "uint (word_of_int dlen :: 16 word) = dlen" using assms w by (simp add: uint_word_of_int)
  then have "\<not> (word_of_int dlen :: 16 word) > rcv_win tc"
    using assms(3) by (simp add: word_less_def window_of_def)
  moreover have "uint (rcv_win tc - word_of_int dlen) \<le> window_of tc"
    using d assms(2,3) by (simp add: window_of_def uint_sub_if')
  ultimately show ?thesis using False assms(1) by (auto simp: lwinshrink_def tcb_sanity_def Let_def window_of_def rx_cb_def)
qed

text \<open>The steps of \<open>data_in\<close> from the write into the receive buffer on.\<close>

definition deliver :: "int \<Rightarrow> Tcptcb_t \<Rightarrow> seqno \<Rightarrow> seqno \<Rightarrow> byte list list \<Rightarrow> int \<Rightarrow> Tcptcb_t go" where
  "deliver lim tc we rseq rest dlen =
     gbind (syswrite (rxbuf tc) rseq rest) (\<lambda>tb.
         let tc = tc\<lparr>rxbuf := tb\<rparr> in
         gbind (recvd lim (rcv_trsegs tc) (rcv_nxt tc) we rseq dlen) (\<lambda>(nxt, tr).
         let tc = tc\<lparr>rcv_nxt := nxt, rcv_trsegs := tr\<rparr> in
         gbind (rcvup (rxbuf tc) (rcv_nxt tc)) (\<lambda>tb.
         let tc = tc\<lparr>rxbuf := tb\<rparr> in
         gbind (lwinshrink tc dlen) (\<lambda>(delayack, tc).
         Ok (if delayack then sched_ack_delay tc else sched_ack tc)))))"

lemma deliver_ok:
  assumes inv: "rx_inv S isn tc" and wl: "window_of tc \<le> Left (rx_cb tc)" and lim: "0 < lim"
    and o1: "0 \<le> o1" "concat rest \<noteq> []" "o1 + int (length (concat rest)) \<le> window_of tc"
    and c: "carries S (cb_head (rx_cb tc) + o1) rest"
  shows "\<exists>tc'. deliver lim tc (rcv_nxt tc + ucast (rcv_win tc)) (rcv_nxt tc + word_of_int o1) rest
      (int (length (concat rest))) = Ok tc' \<and> rx_inv S isn tc' \<and>
    cb_head (rx_cb tc) \<le> cb_head (rx_cb tc') \<and> cb_tail (rx_cb tc') = cb_tail (rx_cb tc) \<and>
    (segs (rcv_trsegs tc) = [] \<and> o1 = 0 \<longrightarrow> cb_head (rx_cb tc') = cb_head (rx_cb tc) + int (length (concat rest)))"
proof -
  let ?n = "int (length (concat rest))" and ?h = "cb_head (rx_cb tc)" and ?L = "Left (rx_cb tc)" and ?x = "rcv_nxt tc"
  obtain b where b: "locked tc" "cb_inv (rx_cb tc)" "cb_Buf (rx_cb tc) = Some b" "cb_bufsz (rx_cb tc) \<le> 65535"
    "tb_didseq (rxbuf tc)" "tb_seq (rxbuf tc) = ?x" "?x = isn + word_of_int ?h"
    "\<And>p. cb_tail (rx_cb tc) \<le> p \<Longrightarrow> p < ?h \<Longrightarrow> cell b p = S p"
    "segs_inv (\<lambda>i. cell b (?h + i) = S (?h + i)) ?L (window_of tc) ?x (segs (rcv_trsegs tc))"
    using inv unfolding rx_inv_def by blast
  note I = cb_invD [OF b(2,3)]
  have pos: "0 < ?n" using o1(2) by (cases "concat rest") simp_all
  have left: "0 < ?L" "?L \<le> 65535" "?L = cb_bufsz (rx_cb tc) - (?h - cb_tail (rx_cb tc))"
    using I(3) b(4) wl o1(1,3) pos unfolding Left_def by linarith+
  have fit: "o1 + ?n \<le> ?L" using o1(3) wl by linarith
  obtain b' where b': "syswrite (rxbuf tc) (?x + word_of_int o1) rest = Ok ((rxbuf tc)\<lparr>tb_cbuf := (rx_cb tc)\<lparr>cb_Buf := Some b'\<rparr>\<rparr>)"
    "length b' = length b"
    "\<And>p. cb_tail (rx_cb tc) \<le> p \<Longrightarrow> p < cb_tail (rx_cb tc) + cb_bufsz (rx_cb tc) \<Longrightarrow> cell b' p =
      (if ?h + o1 \<le> p \<and> p < ?h + o1 + ?n then concat rest ! nat (p - (?h + o1)) else cell b p)"
    using syswrite_ok [of "rxbuf tc" b "?x + word_of_int o1" o1 rest] b o1 fit unfolding rx_cb_def by auto
  have in_new: "cell b' p = S p" if "?h + o1 \<le> p" "p < ?h + o1 + ?n" for p
  proof -
    have k: "nat (p - (?h + o1)) < length (concat rest)" using that by linarith
    then have "concat rest ! nat (p - (?h + o1)) = S (?h + o1 + int (nat (p - (?h + o1))))"
      using c unfolding carries_def by blast
    moreover have "cb_tail (rx_cb tc) \<le> p" "p < cb_tail (rx_cb tc) + cb_bufsz (rx_cb tc)"
      using that I(3) o1(1) fit left(3) by linarith+
    ultimately show ?thesis using b'(3) that by simp
  qed
  have keep: "cell b' p = S p" if "cb_tail (rx_cb tc) \<le> p" "p < ?h + ?L" "cell b p = S p" for p
    using b'(3) [of p] in_new [of p] that left(3) by (cases "?h + o1 \<le> p \<and> p < ?h + o1 + ?n") auto
  define good where "good = (\<lambda>i. cell b' (?h + i) = S (?h + i))"
  have sinv: "segs_inv good ?L (window_of tc) ?x (segs (rcv_trsegs tc))"
    using b(9) by (rule segs_inv_mono) (use keep I(3) in \<open>simp add: good_def\<close>)
  have ng: "good i" if "o1 \<le> i" "i < o1 + ?n" for i using in_new [of "?h + i"] that by (simp add: good_def)
  obtain e tr where r: "recvd lim (rcv_trsegs tc) ?x (?x + word_of_int (window_of tc)) (?x + word_of_int o1) ?n = Ok (?x + word_of_int e, tr)"
    "0 \<le> e" "e \<le> ?L" "\<And>i. 0 \<le> i \<Longrightarrow> i < e \<Longrightarrow> good i"
    "\<forall>s \<in> set (segs tr). seg_ok (\<lambda>i. good (i + e)) (?L - e) (?x + word_of_int e) s"
    "(\<exists>s \<in> set (segs tr). seg_off (?x + word_of_int e) s = 0) \<longrightarrow> e = 0 \<and> (\<exists>s \<in> set (segs tr). window_of tc < seg_off ?x s)"
    "segs (rcv_trsegs tc) = [] \<and> o1 = 0 \<longrightarrow> e = ?n \<and> segs tr = []"
    using recvd_ok [OF sinv left(2) window_range(1) wl refl refl o1(1) pos o1(3) ng lim] by auto
  define cb1 where "cb1 = (rx_cb tc)\<lparr>cb_Buf := Some b'\<rparr>"
  have cb1: "cb_inv cb1" "cb_Buf cb1 = Some b'" "cb_bufsz cb1 \<le> 65535" "Left cb1 = ?L" "cb_head cb1 = ?h"
    "cb_tail cb1 = cb_tail (rx_cb tc)" "cb_bufsz cb1 = cb_bufsz (rx_cb tc)"
    using b(2-4) b'(2) by (auto simp: cb1_def cb_inv_def Left_def)
  define tb2 where "tb2 = (rxbuf tc)\<lparr>tb_cbuf := cb1\<lparr>cb_head := ?h + e\<rparr>, tb_seq := ?x + word_of_int e\<rparr>"
  have up: "rcvup ((rxbuf tc)\<lparr>tb_cbuf := cb1\<rparr>) (?x + word_of_int e) = Ok tb2"
    using rcvup_ok [of "(rxbuf tc)\<lparr>tb_cbuf := cb1\<rparr>" b' e] cb1 r(2,3) left(1) b(6) by (simp add: tb2_def)
  define tc2 where "tc2 = tc\<lparr>rcv_nxt := ?x + word_of_int e, rcv_trsegs := tr, rxbuf := tb2\<rparr>"
  have cb2: "rx_cb tc2 = cb1\<lparr>cb_head := ?h + e\<rparr>" "Left (rx_cb tc2) = ?L - e" "window_of tc2 = window_of tc" "locked tc2"
    using cb1 b(1) by (simp_all add: tc2_def tb2_def rx_cb_def Left_def window_of_def)
  have dl: "?n \<le> window_of tc2" using cb2(3) o1(1,3) by linarith
  obtain da w where sh: "lwinshrink tc2 ?n = Ok (da, tc2\<lparr>rcv_win := w\<rparr>)" "uint w \<le> window_of tc \<or> uint w = ?L - e"
    using lwinshrink_ok [OF cb2(4) _ dl] cb2(2,3) r(2,3) left(2) by auto
  define tc3 where "tc3 = (if da then sched_ack_delay (tc2\<lparr>rcv_win := w\<rparr>) else sched_ack (tc2\<lparr>rcv_win := w\<rparr>))"
  have run: "deliver lim tc (?x + ucast (rcv_win tc)) (?x + word_of_int o1) rest ?n = Ok tc3"
    unfolding deliver_def Let_def winend_off using b'(1) r(1) up sh(1)
    by (simp add: cb1_def [symmetric] tc2_def tc3_def)
  have f3: "locked tc3 = locked tc2" "rxbuf tc3 = rxbuf tc2" "rcv_nxt tc3 = rcv_nxt tc2" "rcv_trsegs tc3 = rcv_trsegs tc2"
    "window_of tc3 = uint w" "rx_cb tc3 = rx_cb tc2"
    by (simp_all add: tc3_def sched_ack_def sched_ack_delay_def window_of_def rx_cb_def)
  have g: "(\<lambda>i. good (i + e)) = (\<lambda>i. cell b' (?h + e + i) = S (?h + e + i))"
    by (simp add: good_def add.assoc add.commute [of e])
  have "(\<exists>s \<in> set (segs tr). seg_off (?x + word_of_int e) s = 0) \<longrightarrow>
      (\<exists>s \<in> set (segs tr). window_of tc < seg_off (?x + word_of_int e) s)"
    using r(6) by (cases "e = 0") simp_all
  then have "segs_inv (\<lambda>i. cell b' (?h + e + i) = S (?h + e + i)) (?L - e) (uint w) (?x + word_of_int e) (segs tr)"
    using segs_inv_shrink [OF r(5) _ sh(2)] unfolding g by blast
  moreover have "cell b' p = S p" if "cb_tail (rx_cb tc) \<le> p" "p < ?h + e" for p
  proof (cases "p < ?h")
    case True
    then show ?thesis using keep [of p] b(8) that left(1) by simp
  next
    case False
    then show ?thesis using r(4) [of "p - ?h"] that by (simp add: good_def)
  qed
  moreover have "cb_inv (cb1\<lparr>cb_head := ?h + e\<rparr>)"
    using cb1 I(3) r(2,3) left(3) by (auto simp: cb_inv_def)
  moreover have "?x + word_of_int e = isn + word_of_int (?h + e)"
    by (subst b(7)) (simp add: add.assoc flip: wi_hom_add)
  ultimately have "rx_inv S isn tc3"
    unfolding rx_inv_def f3 cb2(2) using cb1 cb2(1,4) b(5) by (intro exI [of _ b']) (simp add: tc2_def tb2_def add.assoc)
  then show ?thesis using run r(2,7) f3(6) cb2(1) cb1(6) by (intro exI [of _ tc3]) simp
qed

lemma data_in_deliver:
  "data_in lim tc rseq rack rwin rest dlen rtstamp =
     gbind (seqok tc rseq dlen) (\<lambda>ok.
     if \<not> ok then Panic ''must contain in-window data''
     else
       gbind (data_in_ack tc rseq rack rtstamp) (\<lambda>tc.
       gbind (trim_front tc rseq rest dlen) (\<lambda>(rseq, rest, dlen).
       gbind (trim_back tc rseq rest dlen) (\<lambda>(rest, dlen).
       if dlen = 0 then Ok (rwinupdate tc rseq rack rwin)
       else deliver lim (rwinupdate tc rseq rack rwin) (rcv_nxt tc + ucast (rcv_win tc)) rseq rest dlen))))"
  unfolding data_in_def deliver_def Let_def by (rule refl)

lemma rwinupdate_rx:
  "locked (rwinupdate tc sq ack win) = locked tc" "rcv_nxt (rwinupdate tc sq ack win) = rcv_nxt tc"
  "rcv_win (rwinupdate tc sq ack win) = rcv_win tc" "rcv_trsegs (rwinupdate tc sq ack win) = rcv_trsegs tc"
  "rxbuf (rwinupdate tc sq ack win) = rxbuf tc"
  by (simp_all add: rwinupdate_def Let_def)

lemma data_in_ack_rx:
  assumes "data_in_ack tc rseq rack rts = Ok tc1"
  shows "locked tc1 = locked tc" "rcv_nxt tc1 = rcv_nxt tc" "rcv_win tc1 = rcv_win tc" "rcv_trsegs tc1 = rcv_trsegs tc"
    "rxbuf tc1 = rxbuf tc"
  using assms by (auto simp: data_in_ack_def Let_def split: if_splits)

lemma rx_inv_cong:
  "locked tc' = locked tc \<Longrightarrow> rcv_nxt tc' = rcv_nxt tc \<Longrightarrow> rcv_win tc' = rcv_win tc \<Longrightarrow> rcv_trsegs tc' = rcv_trsegs tc \<Longrightarrow>
   rxbuf tc' = rxbuf tc \<Longrightarrow> rx_inv S isn tc' = rx_inv S isn tc \<and> window_of tc' = window_of tc \<and> rx_cb tc' = rx_cb tc"
  by (simp add: rx_inv_def rx_cb_def window_of_def)

text \<open>
  C1: Reassembly delivers the peer's stream.  Let the invariant hold, the advertised window fit the
  free space of the receive buffer, and let a segment arrive that carries any part of the stream,
  in whatever order, overlapping or repeated, and passes the window test.  Then \<open>data_in\<close>, once the
  acknowledgement is processed, does not panic and keeps the invariant; what the user can read is a
  prefix of the stream that only grows, and a segment that continues it, with none recorded out of
  order, extends it by the segment's bytes up to the end of the window.
\<close>

theorem data_in_stream:
  assumes inv: "rx_inv S isn tc" and wl: "window_of tc \<le> Left (rx_cb tc)" and lim: "0 < lim"
    and ack: "data_in_ack tc rseq rack rts = Ok tc1"
    and seg: "rseq = isn + word_of_int q" "\<bar>q - cb_head (rx_cb tc)\<bar> < 2147483648" "length (concat rest) \<le> 65535"
      "carries S q rest" "seqok tc rseq (int (length (concat rest))) = Ok True"
  shows "\<exists>tc'. data_in lim tc rseq rack rwin rest (int (length (concat rest))) rts = Ok tc' \<and> rx_inv S isn tc' \<and>
    cb_data (rx_cb tc') = map S [cb_tail (rx_cb tc)..cb_head (rx_cb tc') - 1] \<and>
    cb_head (rx_cb tc) \<le> cb_head (rx_cb tc') \<and>
    (segs (rcv_trsegs tc) = [] \<and> q \<le> cb_head (rx_cb tc) \<and> cb_head (rx_cb tc) \<le> q + int (length (concat rest)) \<longrightarrow>
      cb_head (rx_cb tc') = min (q + int (length (concat rest))) (cb_head (rx_cb tc) + window_of tc))"
proof -
  let ?h = "cb_head (rx_cb tc)" and ?n = "int (length (concat rest))"
  define d where "d = q - ?h"
  have nxt: "rcv_nxt tc = isn + word_of_int ?h" using inv unfolding rx_inv_def by blast
  have rs: "rseq = rcv_nxt tc + word_of_int d"
    unfolding nxt seg(1) d_def by (simp add: add.assoc flip: wi_hom_add)
  have d: "- 2147483648 \<le> d" "d < 2147483648" "?h + d = q" using seg(2) unfolding d_def by linarith+
  have n: "0 \<le> ?n" "?n \<le> 65535" using seg(3) by linarith+
  have c: "carries S (?h + d) rest" using seg(4) unfolding d(3) .
  have w: "0 \<le> d \<and> d \<le> window_of tc \<or> 0 \<le> d + ?n \<and> d + ?n \<le> window_of tc"
    using seqok_off [OF d(1,2) n] seg(5) unfolding rs by blast
  note a = data_in_ack_rx [OF ack]
  note ac = rx_inv_cong [OF a, of S isn]
  obtain rest1 where r1: "trim_front tc1 rseq rest ?n = Ok (rcv_nxt tc1 + word_of_int (max d 0), rest1, int (length (concat rest1)))"
    "max d 0 + int (length (concat rest1)) = d + ?n" "max d 0 \<le> window_of tc1" "carries S (?h + max d 0) rest1"
    using trim_front_ok [of d tc1 rest S ?h] d(1,2) w c ac unfolding rs a(2) by auto
  have l1: "length (concat rest1) \<le> 65535" using r1(2) n(2) by linarith
  obtain rest2 where r2: "trim_back tc1 (rcv_nxt tc1 + word_of_int (max d 0)) rest1 (int (length (concat rest1))) =
      Ok (rest2, int (length (concat rest2)))"
    "max d 0 + int (length (concat rest2)) = min (max d 0 + int (length (concat rest1))) (window_of tc1)"
    "carries S (?h + max d 0) rest2"
    using trim_back_ok [OF _ r1(3) l1 r1(4)] by auto
  define tc2 where "tc2 = rwinupdate tc1 (rcv_nxt tc1 + word_of_int (max d 0)) rack rwin"
  note u = rwinupdate_rx [of tc1 "rcv_nxt tc1 + word_of_int (max d 0)" rack rwin, folded tc2_def]
  note uc = rx_inv_cong [OF u, of S isn]
  have run: "data_in lim tc rseq rack rwin rest ?n rts = (if int (length (concat rest2)) = 0 then Ok tc2
      else deliver lim tc2 (rcv_nxt tc2 + ucast (rcv_win tc2)) (rcv_nxt tc2 + word_of_int (max d 0)) rest2 (int (length (concat rest2))))"
    unfolding data_in_deliver seg(5) using ack r1(1) r2(1) by (simp add: tc2_def [symmetric] u)
  have same: "rx_inv S isn tc2" "window_of tc2 = window_of tc" "rx_cb tc2 = rx_cb tc" "rcv_trsegs tc2 = rcv_trsegs tc"
    using uc ac inv u(4) a(4) by simp_all
  have len: "max d 0 + int (length (concat rest2)) = min (d + ?n) (window_of tc)" using r1(2) r2(2) ac by simp
  show ?thesis
  proof (cases "int (length (concat rest2)) = 0")
    case True
    then have "data_in lim tc rseq rack rwin rest ?n rts = Ok tc2" unfolding run by simp
    moreover have "max d 0 = min (d + ?n) (window_of tc)" using True len by linarith
    then have "?h = min (q + ?n) (?h + window_of tc)" if "q \<le> ?h"
      using that d(3) by (auto simp: max_def min_def split: if_splits)
    ultimately show ?thesis using same rx_inv_data [OF same(1)] by (intro exI [of _ tc2]) simp
  next
    case False
    then have ne: "concat rest2 \<noteq> []" by auto
    have fit: "max d 0 + int (length (concat rest2)) \<le> window_of tc2" using len same(2) by simp
    have wl2: "window_of tc2 \<le> Left (rx_cb tc2)" using wl same by simp
    obtain tc' where tc': "deliver lim tc2 (rcv_nxt tc2 + ucast (rcv_win tc2)) (rcv_nxt tc2 + word_of_int (max d 0)) rest2
        (int (length (concat rest2))) = Ok tc'" "rx_inv S isn tc'" "?h \<le> cb_head (rx_cb tc')"
      "cb_tail (rx_cb tc') = cb_tail (rx_cb tc)"
      "segs (rcv_trsegs tc) = [] \<and> max d 0 = 0 \<longrightarrow> cb_head (rx_cb tc') = ?h + int (length (concat rest2))"
      using deliver_ok [OF same(1) wl2 lim _ ne fit] r2(3) same(3,4) by auto
    have "cb_head (rx_cb tc') = min (q + ?n) (?h + window_of tc)" if "segs (rcv_trsegs tc) = []" "q \<le> ?h"
    proof -
      have z: "max d 0 = 0" using that(2) d(3) by linarith
      then have "cb_head (rx_cb tc') = ?h + min (d + ?n) (window_of tc)" using tc'(5) that(1) len by simp
      then show ?thesis using d(3) by (simp add: min_def)
    qed
    then show ?thesis using tc' False rx_inv_data [OF tc'(2)] unfolding run if_not_P [OF False]
      by (intro exI [of _ tc']) simp
  qed
qed

subsection \<open>The advertised window can exceed the buffer\<close>

text \<open>
  A connection that has sent nothing, with \<open>h\<close> bytes received in order and none read, in a
  buffer of one page.
\<close>

definition rx_at :: "int \<Rightarrow> int \<Rightarrow> tseg_t list \<Rightarrow> Tcptcb_t \<Rightarrow> bool" where
  "rx_at h w sg tc \<longleftrightarrow> locked tc \<and> \<not> txdone tc \<and> segs (snd_tsegs tc) = [] \<and> snd_una tc = 0 \<and> tb_seq (txbuf tc) = 0 \<and>
     Used (tb_cbuf (txbuf tc)) = 0 \<and> rcv_nxt tc = word_of_int h \<and> rcv_win tc = word_of_int w \<and> rcv_mss tc = 1448 \<and>
     segs (rcv_trsegs tc) = sg \<and> tb_didseq (rxbuf tc) \<and> tb_seq (rxbuf tc) = word_of_int h \<and>
     cb_inv (rx_cb tc) \<and> (\<exists>b. cb_Buf (rx_cb tc) = Some b) \<and> cb_bufsz (rx_cb tc) = 4096 \<and> cb_head (rx_cb tc) = h \<and>
     cb_tail (rx_cb tc) = 0"

lemma rx_at_ack:
  assumes "rx_at h w sg tc"
  shows "\<exists>tc1. data_in_ack tc sq 0 0 = Ok tc1 \<and> rx_at h w sg tc1"
proof -
  have "seqbetween 0 0 z" for z by (simp add: seqbetween_def)
  then show ?thesis using assms
    by (auto simp: rx_at_def data_in_ack_def Let_def ackupto_def segs_sanity_def ackup_def seqdiff_def rx_cb_def)
qed

lemma recvd_winend: "recvd lim tr x we sq l = recvd lim \<lparr>segs = segs tr, winend = we'\<rparr> x we sq l"
  by (cases tr) (simp add: recvd_def)

lemma rx_at_lwinshrink:
  assumes "rx_at h w sg tc" "0 \<le> w" "w \<le> 4096" "0 \<le> n" "n \<le> w" "0 \<le> h" "h \<le> 4096"
  shows "\<exists>d. lwinshrink tc n = Ok (d, tc\<lparr>rcv_win := word_of_int (if 4096 - h - w \<ge> 1448 then 4096 - h else w - n)\<rparr>)"
proof -
  have u: "uint (word_of_int w :: 16 word) = w" "uint (word_of_int n :: 16 word) = n"
    using assms by (simp_all add: uint_word_of_int)
  then have "\<not> (word_of_int w :: 16 word) < word_of_int n" using assms(5) by (simp add: word_less_def)
  moreover have "Left (tb_cbuf (rxbuf tc)) = 4096 - h" using assms(1) by (simp add: rx_at_def Left_def rx_cb_def)
  moreover have f: "locked tc" "rcv_win tc = word_of_int w" "rcv_mss tc = 1448" using assms(1) by (simp_all add: rx_at_def)
  ultimately have "lwinshrink tc n = (if 4096 - h - w \<ge> 1448 then Ok (False, tc\<lparr>rcv_win := word_of_int (4096 - h)\<rparr>)
      else Ok (True, tc\<lparr>rcv_win := word_of_int w - word_of_int n\<rparr>))"
    unfolding lwinshrink_def tcb_sanity_def Let_def f(2,3) u(1) by simp
  then show ?thesis unfolding wi_hom_sub [symmetric] by (auto split: if_split)
qed

lemma rx_at_window: "rx_at h w sg tc \<Longrightarrow> 0 \<le> w \<Longrightarrow> w \<le> 4096 \<Longrightarrow> window_of tc = w"
  by (simp add: rx_at_def window_of_def uint_word_of_int)

lemma rx_at_step:
  assumes at: "rx_at h w sg tc" and n: "n = int (length data)" "0 < n"
    and o1: "h \<le> q" "q + n \<le> h + w" "0 \<le> h" "0 \<le> w" "w \<le> 4096" "q + n \<le> 4096"
    and r: "recvd 16 \<lparr>segs = sg, winend = 0\<rparr> (word_of_int h) (word_of_int (h + w)) (word_of_int q) n =
      Ok (word_of_int h', tr)" "h \<le> h'" "h' \<le> 4096"
    and w': "w' = (if 4096 - h' - w \<ge> 1448 then 4096 - h' else w - n)"
  shows "\<exists>tc'. data_in 16 tc (word_of_int q) 0 win [data] n 0 = Ok tc' \<and> rx_at h' w' (segs tr) tc'"
proof -
  obtain tc1 where tc1: "data_in_ack tc (word_of_int q) 0 0 = Ok tc1" "rx_at h w sg tc1" using rx_at_ack [OF at] by blast
  define tc2 where "tc2 = rwinupdate tc1 (word_of_int q) 0 win"
  have at2: "rx_at h w sg tc2" using tc1(2) by (auto simp: tc2_def rwinupdate_def rx_at_def rx_cb_def Let_def)
  have q: "word_of_int q = rcv_nxt t + word_of_int (q - h)" "word_of_int q + word_of_int n = rcv_nxt t + word_of_int (q - h + n)"
    "rcv_nxt t + ucast (rcv_win t) = word_of_int (h + w)" if "rx_at h w sg t" for t
  proof -
    have nx: "rcv_nxt t = word_of_int h" using that by (simp add: rx_at_def)
    show "word_of_int q = rcv_nxt t + word_of_int (q - h)" unfolding nx by (simp flip: wi_hom_add)
    show "word_of_int q + word_of_int n = rcv_nxt t + word_of_int (q - h + n)" unfolding nx by (simp flip: wi_hom_add)
    show "rcv_nxt t + ucast (rcv_win t) = word_of_int (h + w)"
      using winend_off [of t] rx_at_window [OF that o1(4,5)] nx by simp
  qed
  have inw: "seqbetween (rcv_nxt t) (word_of_int q) (rcv_nxt t + ucast (rcv_win t))"
    "seqbetween (rcv_nxt t) (word_of_int q + word_of_int n) (rcv_nxt t + ucast (rcv_win t))" if "rx_at h w sg t" for t
  proof -
    have w: "window_of t = w" using that o1(4,5) by (rule rx_at_window)
    show "seqbetween (rcv_nxt t) (word_of_int q) (rcv_nxt t + ucast (rcv_win t))"
      using in_window_off [of "q - h" t] o1 n(2) w unfolding q(1) [OF that] by simp
    show "seqbetween (rcv_nxt t) (word_of_int q + word_of_int n) (rcv_nxt t + ucast (rcv_win t))"
      using in_window_off [of "q - h + n" t] o1 n(2) w unfolding q(2) [OF that] by simp
  qed
  have lk: "locked tc" using at by (simp add: rx_at_def)
  have run: "data_in 16 tc (word_of_int q) 0 win [data] n 0 = deliver 16 tc2 (word_of_int (h + w)) (word_of_int q) [data] n"
    unfolding data_in_deliver using lk inw(1) [OF at] tc1(1) inw [OF tc1(2)] n(2) q(3) [OF tc1(2)]
    by (simp add: seqok_def tcb_sanity_def trim_front_def trim_back_def tc2_def)
  let ?cb = "tb_cbuf (rxbuf tc2)"
  obtain b where b: "cb_inv ?cb" "cb_Buf ?cb = Some b" "cb_bufsz ?cb \<le> 65535" "tb_didseq (rxbuf tc2)"
    "tb_seq (rxbuf tc2) = word_of_int h" "Left ?cb = 4096 - h" "cb_head ?cb = h"
    using at2 by (auto simp: rx_at_def rx_cb_def Left_def)
  have sq: "word_of_int q = tb_seq (rxbuf tc2) + word_of_int (q - h)" unfolding b(5) by (simp flip: wi_hom_add)
  have ne: "concat [data] \<noteq> []" using n by auto
  have fit: "q - h + int (length (concat [data])) \<le> Left ?cb" using o1 n b(6) by simp
  obtain b' where b': "syswrite (rxbuf tc2) (word_of_int q) [data] = Ok ((rxbuf tc2)\<lparr>tb_cbuf := ?cb\<lparr>cb_Buf := Some b'\<rparr>\<rparr>)"
    "length b' = length b"
    using syswrite_ok [OF b(1,2,4,3) sq _ ne fit] o1(1) by auto
  define tb1 where "tb1 = (rxbuf tc2)\<lparr>tb_cbuf := ?cb\<lparr>cb_Buf := Some b'\<rparr>\<rparr>"
  have rec: "recvd 16 (rcv_trsegs tc2) (rcv_nxt tc2) (word_of_int (h + w)) (word_of_int q) n = Ok (word_of_int h', tr)"
    using r(1) at2 recvd_winend [of 16 "rcv_trsegs tc2" "rcv_nxt tc2" "word_of_int (h + w)" "word_of_int q" n 0]
    by (simp add: rx_at_def)
  have inv1: "cb_inv (tb_cbuf tb1)" "cb_Buf (tb_cbuf tb1) = Some b'" "cb_bufsz (tb_cbuf tb1) \<le> 65535" "Left (tb_cbuf tb1) = 4096 - h"
    using b b'(2) by (auto simp: tb1_def cb_inv_def Left_def)
  define tb2 where "tb2 = tb1\<lparr>tb_seq := word_of_int h', tb_cbuf := (tb_cbuf tb1)\<lparr>cb_head := h'\<rparr>\<rparr>"
  have hh: "word_of_int h' = tb_seq tb1 + word_of_int (h' - h)" using b(5) by (simp add: tb1_def flip: wi_hom_add)
  have up: "rcvup tb1 (word_of_int h') = Ok tb2"
    using rcvup_ok [OF inv1(1-3), of "h' - h"] inv1(4) r(2,3) o1 n(2) b(7) unfolding hh [symmetric]
    by (simp add: tb2_def) (simp add: tb1_def)
  define tc3 where "tc3 = tc2\<lparr>rcv_nxt := word_of_int h', rcv_trsegs := tr, rxbuf := tb2\<rparr>"
  have at3: "rx_at h' w (segs tr) tc3"
    using at2 b b'(2) r(2,3) o1(3) by (auto simp: rx_at_def tc3_def tb2_def tb1_def rx_cb_def cb_inv_def)
  obtain d where d: "lwinshrink tc3 n = Ok (d, tc3\<lparr>rcv_win := word_of_int w'\<rparr>)"
    using rx_at_lwinshrink [OF at3 o1(4,5), of n] n(2) o1 r(2,3) unfolding w' by auto
  have "deliver 16 tc2 (word_of_int (h + w)) (word_of_int q) [data] n =
      Ok (if d then sched_ack_delay (tc3\<lparr>rcv_win := word_of_int w'\<rparr>) else sched_ack (tc3\<lparr>rcv_win := word_of_int w'\<rparr>))"
    unfolding deliver_def Let_def using b'(1) rec up d by (simp add: tb1_def [symmetric] tc3_def)
  moreover have "rx_at h' w' (segs tr) (if d then sched_ack_delay (tc3\<lparr>rcv_win := word_of_int w'\<rparr>)
      else sched_ack (tc3\<lparr>rcv_win := word_of_int w'\<rparr>))"
    using at3 by (auto simp: rx_at_def sched_ack_def sched_ack_delay_def rx_cb_def)
  ultimately show ?thesis unfolding run by blast
qed

text \<open>Segments arriving one after the other, each with its sequence number.\<close>

definition feed :: "16 word \<Rightarrow> (int \<times> byte list) list \<Rightarrow> Tcptcb_t \<Rightarrow> Tcptcb_t go" where
  "feed win = gfold (\<lambda>(q, data) tc. data_in 16 tc (word_of_int q) 0 win [data] (int (length data)) 0)"

lemma rx_at_overrun:
  assumes at: "rx_at h w sg tc" and w: "0 \<le> h" "h \<le> 4096" "0 \<le> w" "w \<le> 4096"
    and n: "4096 - h < int (length data)" "int (length data) \<le> w"
  shows "data_in 16 tc (word_of_int h) 0 win [data] (int (length data)) 0 = Panic ''should be pruned to window''"
proof -
  let ?n = "int (length data)"
  obtain tc1 where tc1: "data_in_ack tc (word_of_int h) 0 0 = Ok tc1" "rx_at h w sg tc1" using rx_at_ack [OF at] by blast
  have nx: "word_of_int h = rcv_nxt t + word_of_int 0" "word_of_int h + word_of_int ?n = rcv_nxt t + word_of_int ?n"
    if "rx_at h w sg t" for t using that by (simp_all add: rx_at_def)
  have inw: "seqbetween (rcv_nxt t) (word_of_int h) (rcv_nxt t + ucast (rcv_win t))"
    "seqbetween (rcv_nxt t) (word_of_int h + word_of_int ?n) (rcv_nxt t + ucast (rcv_win t))" if "rx_at h w sg t" for t
  proof -
    have wt: "window_of t = w" using that w(3,4) by (rule rx_at_window)
    show "seqbetween (rcv_nxt t) (word_of_int h) (rcv_nxt t + ucast (rcv_win t))"
      using in_window_off [of 0 t] w wt unfolding nx(1) [OF that] by simp
    show "seqbetween (rcv_nxt t) (word_of_int h + word_of_int ?n) (rcv_nxt t + ucast (rcv_win t))"
      using in_window_off [of ?n t] w n wt unfolding nx(2) [OF that] by simp
  qed
  define tc2 where "tc2 = rwinupdate tc1 (word_of_int h) 0 win"
  have at2: "rx_at h w sg tc2" using tc1(2) by (auto simp: tc2_def rwinupdate_def rx_at_def rx_cb_def Let_def)
  have lk: "locked tc" using at by (simp add: rx_at_def)
  have nz: "?n \<noteq> 0" using n(1) w(2) by linarith
  have run: "data_in 16 tc (word_of_int h) 0 win [data] ?n 0 =
      deliver 16 tc2 (rcv_nxt tc1 + ucast (rcv_win tc1)) (word_of_int h) [data] ?n"
    unfolding data_in_deliver using lk inw(1) [OF at] tc1(1) inw [OF tc1(2)] nz
    by (simp add: seqok_def tcb_sanity_def trim_front_def trim_back_def tc2_def)
  have f: "tb_didseq (rxbuf tc2)" "tb_seq (rxbuf tc2) = word_of_int h" "Left (tb_cbuf (rxbuf tc2)) = 4096 - h"
    using at2 by (simp_all add: rx_at_def rx_cb_def Left_def)
  have "seqbetween (word_of_int h) (word_of_int h) z" for z by (simp add: seqbetween_def)
  then have "syswrite (rxbuf tc2) (word_of_int h) [data] = Panic ''should be pruned to window''"
    using f nz n(1) by (simp add: syswrite_def tbuf_sanity_def Let_def)
  then show ?thesis unfolding run by (simp add: deliver_def)
qed

text \<open>
  C36: A peer that respects the advertised window can crash the receiver.  Start with an empty
  one-page buffer and a window of 4096 bytes.  Two segments arrive early, then the missing first
  one, then the next.  After the second early segment \<open>lwinshrink\<close> resets the window to the free
  space, which does not count the recorded bytes; delivering them later reduces the window only by
  the length of the last segment.  The connection then advertises 1648 bytes with 148 bytes free,
  and the next full-sized segment panics in \<open>syswrite\<close>.
\<close>

theorem window_exceeds_buffer:
  assumes "rx_at 0 4096 [] tc"
    and "length d1 = 1448" "length d2 = 52" "length d3 = 1000" "length d4 = 1448" "length d5 = 1448"
  shows "\<exists>tc'. feed win [(1000, d1), (2448, d2), (0, d3), (2500, d4)] tc = Ok tc' \<and>
    window_of tc' = 1648 \<and> Left (rx_cb tc') = 148 \<and>
    feed win [(3948, d5)] tc' = Panic ''should be pruned to window''"
proof -
  have r1: "recvd 16 \<lparr>segs = [], winend = 0\<rparr> (word_of_int 0) (word_of_int (0 + 4096)) (word_of_int 1000) 1448 =
      Ok (word_of_int 0, \<lparr>segs = [\<lparr>sg_seq = 1000, sg_len = 1448, sg_when = 0\<rparr>], winend = 4096\<rparr>)" by code_simp
  obtain t1 where t1: "data_in 16 tc (word_of_int 1000) 0 win [d1] 1448 0 = Ok t1"
    "rx_at 0 2648 [\<lparr>sg_seq = 1000, sg_len = 1448, sg_when = 0\<rparr>] t1"
    using rx_at_step [OF assms(1), of 1448 d1 1000 0 _ 2648 win, OF _ _ _ _ _ _ _ _ r1] assms(2) by auto
  have r2: "recvd 16 \<lparr>segs = [\<lparr>sg_seq = 1000, sg_len = 1448, sg_when = 0\<rparr>], winend = 0\<rparr> (word_of_int 0)
      (word_of_int (0 + 2648)) (word_of_int 2448) 52 =
      Ok (word_of_int 0, \<lparr>segs = [\<lparr>sg_seq = 1000, sg_len = 1500, sg_when = 0\<rparr>], winend = 2648\<rparr>)" by code_simp
  obtain t2 where t2: "data_in 16 t1 (word_of_int 2448) 0 win [d2] 52 0 = Ok t2"
    "rx_at 0 4096 [\<lparr>sg_seq = 1000, sg_len = 1500, sg_when = 0\<rparr>] t2"
    using rx_at_step [OF t1(2), of 52 d2 2448 0 _ 4096 win, OF _ _ _ _ _ _ _ _ r2] assms(3) by auto
  have r3: "recvd 16 \<lparr>segs = [\<lparr>sg_seq = 1000, sg_len = 1500, sg_when = 0\<rparr>], winend = 0\<rparr> (word_of_int 0)
      (word_of_int (0 + 4096)) (word_of_int 0) 1000 = Ok (word_of_int 2500, \<lparr>segs = [], winend = 4096\<rparr>)" by code_simp
  obtain t3 where t3: "data_in 16 t2 (word_of_int 0) 0 win [d3] 1000 0 = Ok t3" "rx_at 2500 3096 [] t3"
    using rx_at_step [OF t2(2), of 1000 d3 0 2500 _ 3096 win, OF _ _ _ _ _ _ _ _ r3] assms(4) by auto
  have r4: "recvd 16 \<lparr>segs = [], winend = 0\<rparr> (word_of_int 2500) (word_of_int (2500 + 3096)) (word_of_int 2500) 1448 =
      Ok (word_of_int 3948, \<lparr>segs = [], winend = 5596\<rparr>)" by code_simp
  obtain t4 where t4: "data_in 16 t3 (word_of_int 2500) 0 win [d4] 1448 0 = Ok t4" "rx_at 3948 1648 [] t4"
    using rx_at_step [OF t3(2), of 1448 d4 2500 3948 _ 1648 win, OF _ _ _ _ _ _ _ _ r4] assms(5) by auto
  have "data_in 16 t4 (word_of_int 3948) 0 win [d5] (int (length d5)) 0 = Panic ''should be pruned to window''"
    by (rule rx_at_overrun [OF t4(2)]) (simp_all add: assms(6))
  moreover have "window_of t4 = 1648" using t4(2) by (rule rx_at_window) simp_all
  moreover have "Left (rx_cb t4) = 148" using t4(2) by (simp add: rx_at_def Left_def)
  moreover have "feed win [(1000, d1), (2448, d2), (0, d3), (2500, d4)] tc = Ok t4"
    using t1(1) t2(1) t3(1) t4(1) by (simp add: feed_def assms)
  ultimately show ?thesis by (intro exI [of _ t4]) (simp add: feed_def)
qed

subsection \<open>A new connection\<close>

text \<open>A connection after \<open>tcb_init\<close> and \<open>set_seqs\<close>, with receive buffer \<open>b\<close>.\<close>

definition fresh_buf :: "seqno \<Rightarrow> byte list \<Rightarrow> tcpbuf_t" where
  "fresh_buf sq b = \<lparr>tb_cbuf = \<lparr>cb_Buf = Some b, cb_bufsz = int (length b), cb_head = 0, cb_tail = 0, cb_p_pg = 0\<rparr>,
     tb_seq = sq, tb_didseq = True\<rparr>"

definition fresh_tcb :: "seqno \<Rightarrow> byte list \<Rightarrow> Tcptcb_t" where
  "fresh_tcb isn b = \<lparr>locked = True, txdone = False, rcv_nxt = isn, rcv_win = of_nat (length b), rcv_mss = 1448,
     rcv_trsegs = \<lparr>segs = [], winend = 0\<rparr>, snd_nxt = 0, snd_una = 0, snd_win = 4380, snd_wl1 = 0, snd_wl2 = 0,
     snd_finseq = 0, snd_tsegs = \<lparr>segs = [], winend = 0\<rparr>, ts_recent = 0, ts_acksent = 0, remack_num = 0,
     remack_forcedelay = False, remack_outa = False, txbuf = fresh_buf 0 b, rxbuf = fresh_buf isn b\<rparr>"

lemma fresh_tcb_inv:
  assumes "0 < length b" "length b \<le> 65535"
  shows "rx_inv S isn (fresh_tcb isn b)" "window_of (fresh_tcb isn b) = int (length b)"
    "Left (rx_cb (fresh_tcb isn b)) = int (length b)" "cb_head (rx_cb (fresh_tcb isn b)) = 0"
    "cb_tail (rx_cb (fresh_tcb isn b)) = 0"
proof -
  show "rx_inv S isn (fresh_tcb isn b)"
    using assms unfolding rx_inv_def
    by (intro exI [of _ b]) (auto simp: fresh_tcb_def fresh_buf_def rx_cb_def cb_inv_def segs_inv_def)
  have "uint (of_nat (length b) :: 16 word) = int (length b)"
    using assms(2) by (simp add: uint_nat unat_of_nat)
  then show "window_of (fresh_tcb isn b) = int (length b)" by (simp add: window_of_def fresh_tcb_def)
qed (simp_all add: fresh_tcb_def fresh_buf_def rx_cb_def Left_def)

text \<open>The first three bytes of a stream whose sequence numbers wrap around, in two slices.\<close>

theorem data_in_stream_witness:
  "\<exists>tc'. data_in 16 (fresh_tcb 0xffffffff [0, 0, 0, 0, 0, 0, 0, 0]) 0xffffffff 0 4380 [[7, 8], [9]] 3 0 = Ok tc' \<and>
     cb_data (rx_cb tc') = [7, 8, 9]"
proof -
  let ?b = "[0, 0, 0, 0, 0, 0, 0, 0] :: byte list" and ?S = "\<lambda>p :: int. word_of_int (7 + p) :: byte"
  let ?tc = "fresh_tcb 0xffffffff ?b"
  have b: "0 < length ?b" "length ?b \<le> 65535" by simp_all
  note inv = fresh_tcb_inv [OF b]
  have ack: "is_Ok (data_in_ack ?tc 0xffffffff 0 0)" by code_simp
  then obtain tc1 where tc1: "data_in_ack ?tc 0xffffffff 0 0 = Ok tc1" by (auto simp: is_Ok_iff)
  have c: "carries ?S 0 [[7, 8], [9]]"
    by (auto simp: carries_def less_Suc_eq numeral_3_eq_3)
  have ok: "seqok ?tc 0xffffffff (int (length (concat [[7, 8], [9 :: byte]]))) = Ok True" by code_simp
  obtain tc' where "data_in 16 ?tc 0xffffffff 0 4380 [[7, 8], [9]] (int (length (concat [[7, 8], [9 :: byte]]))) 0 = Ok tc'"
    "cb_data (rx_cb tc') = map ?S [0..cb_head (rx_cb tc') - 1]"
    "cb_head (rx_cb tc') = min (0 + int (length (concat [[7, 8], [9 :: byte]]))) (0 + window_of ?tc)"
    using data_in_stream [OF inv(1) _ _ tc1 _ _ _ c ok, of 16 4380] inv(2-5) by (auto simp: fresh_tcb_def)
  moreover have "map ?S [0..2] = [7, 8, 9]" by (simp add: upto.simps)
  ultimately show ?thesis using inv(2) by (intro exI [of _ tc']) simp
qed

theorem window_exceeds_buffer_witness:
  "\<exists>tc'. feed 4380 [(1000, replicate 1448 1), (2448, replicate 52 2), (0, replicate 1000 3), (2500, replicate 1448 4)]
       (fresh_tcb 0 (replicate 4096 0)) = Ok tc' \<and>
     window_of tc' = 1648 \<and> Left (rx_cb tc') = 148 \<and>
     feed 4380 [(3948, replicate 1448 5)] tc' = Panic ''should be pruned to window''"
proof (rule window_exceeds_buffer)
  show "rx_at 0 4096 [] (fresh_tcb 0 (replicate 4096 0))"
    by (simp add: rx_at_def fresh_tcb_def fresh_buf_def rx_cb_def Used_def cb_inv_def)
qed simp_all

end
