(* ===== verification/Physmem.thy ===== *)
theory Physmem
  imports Prelude
begin

unbundle bit_operations_syntax

text \<open>
  \<open>mem/mem.go\<close>: reference counts of physical pages and the free lists, one pair for the system and
  one for each CPU.  A free list is threaded through the page descriptors: it is the index of its
  first page, each descriptor holds the index of the next one, and \<open>0xffffffff\<close> ends it.

  \<open>me\<close> is the CPU number that \<open>runtime.CPUHint\<close> returns.  A call that takes a pointer to a list head
  and to its counter takes the list's name here (\<open>flist\<close>).  Locks are held around each list
  operation, and the reference counts are changed atomically: these are the steps of the
  interleaved executions below.
\<close>

type_synonym pa_t = "64 word"

definition PGSHIFT :: nat where "PGSHIFT = 12"

record physpg_t =
  Refcnt :: int
  nexti :: "32 word"
  Cpumask :: "64 word"

record pcpuphys_t =
  pc_freei :: "32 word"
  pc_freelen :: int
  pc_pmaps :: "32 word"
  pc_pmaplen :: int

record physmem_t =
  Pgs :: "physpg_t list"
  startn :: "32 word"
  freei :: "32 word"
  freelen :: int
  pmaps :: "32 word"
  pmaplen :: int
  Dmapinit :: bool
  percpu :: "pcpuphys_t list"

text \<open>The wrap-around of the 32-bit counters.\<close>

definition i32 :: "int \<Rightarrow> int" where
  "i32 k = signed_take_bit 31 k"

definition nil_idx :: "32 word" where "nil_idx = NOT 0"

definition pg2pgn :: "pa_t \<Rightarrow> 32 word" where
  "pg2pgn p = ucast (drop_bit PGSHIFT p)"

definition Refaddr :: "physmem_t \<Rightarrow> pa_t \<Rightarrow> nat go" where
  "Refaddr phys p = (let idx = pg2pgn p - startn phys in
     if unat idx < length (Pgs phys) then Ok (unat idx) else Panic ''index out of range'')"

definition set_pg :: "physmem_t \<Rightarrow> nat \<Rightarrow> (physpg_t \<Rightarrow> physpg_t) \<Rightarrow> physmem_t" where
  "set_pg phys i f = phys\<lparr>Pgs := (Pgs phys)[i := f (Pgs phys ! i)]\<rparr>"

definition percpu_init :: pcpuphys_t where
  "percpu_init = \<lparr>pc_freei = nil_idx, pc_freelen = 0, pc_pmaps = nil_idx, pc_pmaplen = 0\<rparr>"

subsection \<open>Free lists\<close>

datatype flist = Sysl bool | Cpul nat bool

fun fl_get :: "physmem_t \<Rightarrow> flist \<Rightarrow> 32 word \<times> int" where
  "fl_get phys (Sysl False) = (freei phys, freelen phys)"
| "fl_get phys (Sysl True) = (pmaps phys, pmaplen phys)"
| "fl_get phys (Cpul me False) = (pc_freei (percpu phys ! me), pc_freelen (percpu phys ! me))"
| "fl_get phys (Cpul me True) = (pc_pmaps (percpu phys ! me), pc_pmaplen (percpu phys ! me))"

fun fl_set :: "physmem_t \<Rightarrow> flist \<Rightarrow> 32 word \<Rightarrow> int \<Rightarrow> physmem_t" where
  "fl_set phys (Sysl False) i c = phys\<lparr>freei := i, freelen := c\<rparr>"
| "fl_set phys (Sysl True) i c = phys\<lparr>pmaps := i, pmaplen := c\<rparr>"
| "fl_set phys (Cpul me False) i c =
     phys\<lparr>percpu := (percpu phys)[me := (percpu phys ! me)\<lparr>pc_freei := i, pc_freelen := c\<rparr>]\<rparr>"
| "fl_set phys (Cpul me True) i c =
     phys\<lparr>percpu := (percpu phys)[me := (percpu phys ! me)\<lparr>pc_pmaps := i, pc_pmaplen := c\<rparr>]\<rparr>"

text \<open>A page that \<open>Dmap\<close> can reach: the direct map covers 512 GB.\<close>

definition Dmap :: "pa_t \<Rightarrow> unit go" where
  "Dmap p = (if uint p \<ge> 2 ^ 39 then Panic ''direct map not large enough'' else Ok ())"

definition phys_new :: "physmem_t \<Rightarrow> flist \<Rightarrow> (pa_t option \<times> physmem_t) go" where
  "phys_new phys fl =
     (if \<not> Dmapinit phys then Panic ''dmap not initted''
      else
        let (ff, cnt) = fl_get phys fl in
        if ff \<noteq> nil_idx then
          if unat ff \<ge> length (Pgs phys) then Panic ''index out of range''
          else if Refcnt (Pgs phys ! unat ff) < 0 then Panic ''negative ref count''
          else if i32 (cnt - 1) < 0 then Panic ''no''
          else
            let p_pg = push_bit PGSHIFT (ucast (ff + startn phys)) in
            gbind (Dmap p_pg) (\<lambda>_.
              Ok (Some p_pg, fl_set phys fl (nexti (Pgs phys ! unat ff)) (i32 (cnt - 1))))
        else Ok (None, phys))"

definition phys_insert :: "physmem_t \<Rightarrow> flist \<Rightarrow> nat \<Rightarrow> physmem_t go" where
  "phys_insert phys fl idx =
     (if idx \<ge> length (Pgs phys) then Panic ''index out of range''
      else
        let (ff, cnt) = fl_get phys fl;
            phys = set_pg phys idx (\<lambda>pg. pg\<lparr>nexti := ff\<rparr>) in
        if i32 (cnt + 1) < 0 then Panic ''no''
        else Ok (fl_set phys fl (of_nat idx) (i32 (cnt + 1))))"

definition pcpu_put :: "physmem_t \<Rightarrow> nat \<Rightarrow> nat \<Rightarrow> bool \<Rightarrow> (bool \<times> physmem_t) go" where
  "pcpu_put phys me idx ispmap =
     (let mine = percpu phys ! me in
      if ispmap then
        if pc_pmaplen mine \<ge> 20 then Ok (False, phys)
        else gbind (phys_insert phys (Cpul me True) idx) (\<lambda>phys. Ok (True, phys))
      else
        if pc_freelen mine \<ge> 100 then Ok (False, phys)
        else gbind (phys_insert phys (Cpul me False) idx) (\<lambda>phys. Ok (True, phys)))"

definition pcpu_new :: "physmem_t \<Rightarrow> nat \<Rightarrow> bool \<Rightarrow> (pa_t option \<times> physmem_t) go" where
  "pcpu_new phys me ispmap = phys_new phys (Cpul me ispmap)"

definition refpg_new :: "physmem_t \<Rightarrow> nat \<Rightarrow> (pa_t option \<times> physmem_t) go" where
  "refpg_new phys me = gbind (pcpu_new phys me False) (\<lambda>(r, phys).
     case r of Some p \<Rightarrow> Ok (Some p, phys) | None \<Rightarrow> phys_new phys (Sysl False))"

subsection \<open>Reference counts and pages\<close>

definition Refcnt_of :: "physmem_t \<Rightarrow> pa_t \<Rightarrow> int go" where
  "Refcnt_of phys p = gbind (Refaddr phys p) (\<lambda>i. Ok (Refcnt (Pgs phys ! i)))"

definition Refup :: "physmem_t \<Rightarrow> pa_t \<Rightarrow> physmem_t go" where
  "Refup phys p = gbind (Refaddr phys p) (\<lambda>i.
     let c = i32 (Refcnt (Pgs phys ! i) + 1) in
     if c \<le> 0 then Panic ''wut'' else Ok (set_pg phys i (\<lambda>pg. pg\<lparr>Refcnt := c\<rparr>)))"

definition refdec :: "physmem_t \<Rightarrow> pa_t \<Rightarrow> (bool \<times> nat \<times> physmem_t) go" where
  "refdec phys p = gbind (Refaddr phys p) (\<lambda>i.
     let c = i32 (Refcnt (Pgs phys ! i) - 1) in
     if c < 0 then Panic ''wut'' else Ok (c = 0, i, set_pg phys i (\<lambda>pg. pg\<lparr>Refcnt := c\<rparr>)))"

definition phys_put :: "physmem_t \<Rightarrow> nat \<Rightarrow> pa_t \<Rightarrow> bool \<Rightarrow> (bool \<times> physmem_t) go" where
  "phys_put phys me p ispmap = gbind (refdec phys p) (\<lambda>(add, idx, phys).
     if add then
       gbind (pcpu_put phys me idx ispmap) (\<lambda>(ok, phys).
         if ok then Ok (True, phys)
         else gbind (phys_insert phys (Sysl ispmap) idx) (\<lambda>phys. Ok (True, phys)))
     else Ok (False, phys))"

definition Refdown :: "physmem_t \<Rightarrow> nat \<Rightarrow> pa_t \<Rightarrow> (bool \<times> physmem_t) go" where
  "Refdown phys me p = phys_put phys me p False"

definition Dec_pmap :: "physmem_t \<Rightarrow> nat \<Rightarrow> pa_t \<Rightarrow> physmem_t go" where
  "Dec_pmap phys me p = gbind (phys_put phys me p True) (\<lambda>(_, phys). Ok phys)"

text \<open>
  \<open>Refpg_new\<close> also copies the zero page over the new one; the contents of pages are not part of
  this state.
\<close>

definition Refpg_new :: "physmem_t \<Rightarrow> nat \<Rightarrow> (pa_t option \<times> physmem_t) go" where
  "Refpg_new phys me = (if \<not> Dmapinit phys then Panic ''refpg_new'' else refpg_new phys me)"

definition Refpg_new_nozero :: "physmem_t \<Rightarrow> nat \<Rightarrow> (pa_t option \<times> physmem_t) go" where
  "Refpg_new_nozero phys me = refpg_new phys me"

definition Pmap_new :: "physmem_t \<Rightarrow> nat \<Rightarrow> (pa_t option \<times> physmem_t) go" where
  "Pmap_new phys me = gbind (pcpu_new phys me True) (\<lambda>(r, phys).
     case r of Some p \<Rightarrow> Ok (Some p, phys)
     | None \<Rightarrow> gbind (phys_new phys (Sysl True)) (\<lambda>(r, phys).
         case r of Some p \<Rightarrow> Ok (Some p, phys) | None \<Rightarrow> Refpg_new phys me))"

subsection \<open>Initialisation\<close>

text \<open>
  \<open>gp j\<close> is the page that the \<open>j\<close>-th call of \<open>runtime.Get_phys\<close> returns, and \<open>respgs\<close> the number of pages
  to reserve, \<open>1 << 16\<close> in the code.  The loop has \<open>n\<close> turns left; the code's \<open>i\<close> is \<open>respgs - 1 - n\<close>, and
  \<open>int(float64(respgs)*0.01)\<close> is \<open>respgs div 100\<close>.
\<close>

fun phys_init_loop :: "(nat \<Rightarrow> pa_t) \<Rightarrow> nat \<Rightarrow> nat \<Rightarrow> nat \<Rightarrow> physmem_t \<Rightarrow> physmem_t go" where
  "phys_init_loop gp respgs 0 la phys = Ok phys"
| "phys_init_loop gp respgs (Suc n) la phys =
     (let i = respgs - 1 - Suc n;
          idx = unat (pg2pgn (gp (Suc i)) - startn phys) in
      if idx \<ge> length (Pgs phys) then
        if respgs - i > respgs div 100 then Panic ''got many bad pages'' else Ok phys
      else
        let phys = set_pg phys idx (\<lambda>pg. pg\<lparr>Refcnt := 0\<rparr>);
            phys = set_pg phys la (\<lambda>pg. pg\<lparr>nexti := of_nat idx\<rparr>);
            phys = set_pg phys idx (\<lambda>pg. pg\<lparr>nexti := nil_idx\<rparr>) in
        phys_init_loop gp respgs n idx (phys\<lparr>freelen := i32 (freelen phys + 1)\<rparr>))"

definition Phys_init :: "nat \<Rightarrow> nat \<Rightarrow> (nat \<Rightarrow> pa_t) \<Rightarrow> physmem_t go" where
  "Phys_init ncpu respgs gp =
     (let pgs = replicate respgs \<lparr>Refcnt = - 10, nexti = 0, Cpumask = 0\<rparr>;
          phys = \<lparr>Pgs = pgs, startn = pg2pgn (gp 0), freei = 0, freelen = 1, pmaps = nil_idx, pmaplen = 0,
            Dmapinit = False, percpu = []\<rparr>;
          phys = set_pg phys 0 (\<lambda>pg. pg\<lparr>Refcnt := 0, nexti := nil_idx\<rparr>) in
      gbind (phys_init_loop gp respgs (respgs - 1) 0 phys) (\<lambda>phys.
        Ok (phys\<lparr>percpu := replicate ncpu percpu_init\<rparr>)))"

subsection \<open>Laws of the list heads\<close>

fun fl_valid :: "physmem_t \<Rightarrow> flist \<Rightarrow> bool" where
  "fl_valid phys (Sysl b) \<longleftrightarrow> True"
| "fl_valid phys (Cpul me b) \<longleftrightarrow> me < length (percpu phys)"

lemma fl_get_set [simp]: "fl_valid phys L \<Longrightarrow> fl_get (fl_set phys L i c) L = (i, c)"
  by (cases "(phys, L)" rule: fl_get.cases) auto

lemma nth_update_in: "j < length xs \<Longrightarrow> xs[i := v] ! j = (if i = j then v else xs ! j)"
  by (cases "i = j") simp_all

lemma fl_get_set_other [simp]: "fl_valid phys L' \<Longrightarrow> L \<noteq> L' \<Longrightarrow> fl_get (fl_set phys L i c) L' = fl_get phys L'"
  by (cases "(phys, L)" rule: fl_get.cases; cases "(phys, L')" rule: fl_get.cases)
    (auto simp: nth_update_in)

lemma fl_set_fields [simp]:
  "Pgs (fl_set phys L i c) = Pgs phys" "startn (fl_set phys L i c) = startn phys"
  "Dmapinit (fl_set phys L i c) = Dmapinit phys" "length (percpu (fl_set phys L i c)) = length (percpu phys)"
  "fl_valid (fl_set phys L i c) = fl_valid phys"
proof -
  show l: "length (percpu (fl_set phys L i c)) = length (percpu phys)"
    by (cases "(phys, L)" rule: fl_get.cases) auto
  show "fl_valid (fl_set phys L i c) = fl_valid phys"
  proof
    fix M show "fl_valid (fl_set phys L i c) M = fl_valid phys M" using l by (cases M) simp_all
  qed
qed (cases "(phys, L)" rule: fl_get.cases; auto)+

lemma set_pg_fields [simp]:
  "length (Pgs (set_pg phys i f)) = length (Pgs phys)" "startn (set_pg phys i f) = startn phys"
  "Dmapinit (set_pg phys i f) = Dmapinit phys" "percpu (set_pg phys i f) = percpu phys"
  "fl_get (set_pg phys i f) L = fl_get phys L" "fl_valid (set_pg phys i f) = fl_valid phys"
proof -
  show "fl_get (set_pg phys i f) L = fl_get phys L"
    by (cases "(phys, L)" rule: fl_get.cases) (auto simp: set_pg_def)
  show "fl_valid (set_pg phys i f) = fl_valid phys"
  proof
    fix M show "fl_valid (set_pg phys i f) M = fl_valid phys M" by (cases M) (simp_all add: set_pg_def)
  qed
qed (simp_all add: set_pg_def)

lemma nth_set_pg: "j < length (Pgs phys) \<Longrightarrow> Pgs (set_pg phys i f) ! j = (if i = j then f (Pgs phys ! j) else Pgs phys ! j)"
  by (auto simp: set_pg_def nth_list_update)

subsection \<open>The invariant\<close>

fun fl_chain :: "physpg_t list \<Rightarrow> 32 word \<Rightarrow> nat list \<Rightarrow> bool" where
  "fl_chain pgs i [] \<longleftrightarrow> i = nil_idx"
| "fl_chain pgs i (x # xs) \<longleftrightarrow> i = of_nat x \<and> x < length pgs \<and> fl_chain pgs (nexti (pgs ! x)) xs"

lemma fl_chain_cong:
  "length pgs' = length pgs \<Longrightarrow> (\<And>x. x \<in> set xs \<Longrightarrow> nexti (pgs' ! x) = nexti (pgs ! x)) \<Longrightarrow>
   fl_chain pgs' i xs = fl_chain pgs i xs"
  by (induction xs arbitrary: i) auto

lemma fl_chain_bound: "fl_chain pgs i xs \<Longrightarrow> x \<in> set xs \<Longrightarrow> x < length pgs"
  by (induction xs arbitrary: i) auto

text \<open>
  \<open>fr\<close> are the pages on each list, \<open>own\<close> the pages handed out and \<open>pend\<close> those whose count has
  dropped to zero but which are not on a list yet.
\<close>

definition pm_free :: "physmem_t \<Rightarrow> (flist \<Rightarrow> nat list) \<Rightarrow> nat set" where
  "pm_free phys fr = (\<Union>L \<in> {L. fl_valid phys L}. set (fr L))"

definition pm_geom :: "physmem_t \<Rightarrow> bool" where
  "pm_geom phys \<longleftrightarrow> Dmapinit phys \<and> unat (startn phys) + length (Pgs phys) \<le> 2 ^ 27"

definition pm_lists :: "physmem_t \<Rightarrow> (flist \<Rightarrow> nat list) \<Rightarrow> bool" where
  "pm_lists phys fr \<longleftrightarrow>
     (\<forall>L. fl_valid phys L \<longrightarrow> fl_chain (Pgs phys) (fst (fl_get phys L)) (fr L) \<and>
        snd (fl_get phys L) = int (length (fr L)) \<and> distinct (fr L)) \<and>
     (\<forall>L L'. fl_valid phys L \<longrightarrow> fl_valid phys L' \<longrightarrow> L \<noteq> L' \<longrightarrow> set (fr L) \<inter> set (fr L') = {})"

definition pm_inv :: "nat set \<Rightarrow> physmem_t \<Rightarrow> (flist \<Rightarrow> nat list) \<Rightarrow> nat set \<Rightarrow> nat set \<Rightarrow> bool" where
  "pm_inv tot phys fr own pend \<longleftrightarrow> pm_geom phys \<and> pm_lists phys fr \<and>
     own \<inter> pend = {} \<and> (own \<union> pend) \<inter> pm_free phys fr = {} \<and> own \<union> pend \<union> pm_free phys fr = tot \<and>
     tot \<subseteq> {..<length (Pgs phys)} \<and>
     (\<forall>x \<in> pend \<union> pm_free phys fr. Refcnt (Pgs phys ! x) = 0) \<and>
     (\<forall>x \<in> own. 0 \<le> Refcnt (Pgs phys ! x) \<and> Refcnt (Pgs phys ! x) < 2 ^ 31)"

definition pg_addr :: "physmem_t \<Rightarrow> nat \<Rightarrow> pa_t" where
  "pg_addr phys x = push_bit PGSHIFT (ucast (of_nat x + startn phys))"

lemma i32_id: "- (2 ^ 31) \<le> k \<Longrightarrow> k < 2 ^ 31 \<Longrightarrow> i32 k = k"
  unfolding i32_def by (subst signed_take_bit_int_eq_self_iff) simp

lemma uint_ucast_32_64 [simp]: "uint (ucast (w :: 32 word) :: 64 word) = uint w"
  by (simp only: unsigned_ucast_eq) (simp add: take_bit_int_eq_self_iff order_less_le_trans [OF uint_lt2p])

lemma pg_addr_index:
  assumes "pm_geom phys" "x < length (Pgs phys)"
  shows "Refaddr phys (pg_addr phys x) = Ok x" "Dmap (pg_addr phys x) = Ok ()"
proof -
  define w :: "32 word" where "w = of_nat x + startn phys"
  define st where "st = uint (startn phys)"
  have us: "int (unat (startn phys)) = st" by (simp add: st_def)
  have "unat (startn phys) + length (Pgs phys) \<le> 134217728" using assms(1) by (simp add: pm_geom_def)
  then have st: "0 \<le> st" "int x + st < 134217728" using assms(2) us by linarith+
  have ux: "uint (of_nat x :: 32 word) = int x" using st by (simp add: uint_nat unat_of_nat)
  have "uint w = (int x + st) mod 4294967296" unfolding w_def st_def ux [symmetric] by (simp only: uint_word_ariths(1)) simp
  also have "\<dots> = int x + st" using st by (intro mod_pos_pos_trivial) linarith+
  finally have w: "uint w = int x + st" .
  have "uint (push_bit 12 (ucast w) :: 64 word) = (uint w * 4096) mod 18446744073709551616"
    by (simp only: push_bit_eq_mult uint_word_ariths) simp
  also have "\<dots> = uint w * 4096" using w st by (intro mod_pos_pos_trivial) linarith+
  finally have "uint (pg_addr phys x) = uint w * 4096" by (simp only: pg_addr_def PGSHIFT_def w_def)
  then show "Dmap (pg_addr phys x) = Ok ()" using w st by (simp add: Dmap_def)
  have "pg2pgn (pg_addr phys x) = w"
    unfolding pg2pgn_def pg_addr_def PGSHIFT_def w_def [symmetric] by (rule bit_word_eqI) (auto simp: bit_simps)
  then have d: "pg2pgn (pg_addr phys x) - startn phys = of_nat x" by (simp add: w_def)
  have "unat (of_nat x :: 32 word) = x" using ux by (simp add: unat_eq_nat_uint)
  then show "Refaddr phys (pg_addr phys x) = Ok x" using assms(2) unfolding Refaddr_def d by simp
qed

subsection \<open>The steps keep the invariant\<close>

lemma of_nat_idx:
  assumes "pm_geom phys" "x < length (Pgs phys)"
  shows "unat (of_nat x :: 32 word) = x" "(of_nat x :: 32 word) \<noteq> nil_idx"
proof -
  have x: "x < 134217728" using assms by (simp add: pm_geom_def)
  then show u: "unat (of_nat x :: 32 word) = x" by (simp add: unat_of_nat)
  have "uint nil_idx = 4294967295" by code_simp
  moreover have "uint (of_nat x :: 32 word) = int x" using u by (simp add: uint_nat)
  ultimately show "(of_nat x :: 32 word) \<noteq> nil_idx" using x by auto
qed

lemma pm_free_valid: "fl_valid phys L \<Longrightarrow> x \<in> set (fr L) \<Longrightarrow> x \<in> pm_free phys fr"
  by (auto simp: pm_free_def)

lemma pm_free_split:
  assumes "fl_valid phys L"
  shows "pm_free phys fr = set (fr L) \<union> (\<Union>M \<in> {M. fl_valid phys M \<and> M \<noteq> L}. set (fr M))"
    "pm_free phys (fr(L := xs)) = set xs \<union> (\<Union>M \<in> {M. fl_valid phys M \<and> M \<noteq> L}. set (fr M))"
proof -
  have e: "{M. fl_valid phys M} = insert L {M. fl_valid phys M \<and> M \<noteq> L}" using assms by auto
  show "pm_free phys fr = set (fr L) \<union> (\<Union>M \<in> {M. fl_valid phys M \<and> M \<noteq> L}. set (fr M))"
    unfolding pm_free_def e by simp
  show "pm_free phys (fr(L := xs)) = set xs \<union> (\<Union>M \<in> {M. fl_valid phys M \<and> M \<noteq> L}. set (fr M))"
    unfolding pm_free_def e by simp
qed

lemma pm_list_length:
  assumes "pm_inv tot phys fr own pend" "fl_valid phys L"
  shows "length (fr L) \<le> length (Pgs phys)" "int (length (fr L)) \<le> 134217728"
proof -
  have "set (fr L) \<subseteq> {..<length (Pgs phys)}" using assms pm_free_valid by (fastforce simp: pm_inv_def)
  then have "card (set (fr L)) \<le> length (Pgs phys)" using card_mono [of "{..<length (Pgs phys)}"] by fastforce
  moreover have "distinct (fr L)" using assms by (simp add: pm_inv_def pm_lists_def)
  ultimately show l: "length (fr L) \<le> length (Pgs phys)" by (simp add: distinct_card)
  show "int (length (fr L)) \<le> 134217728" using l assms(1) by (simp add: pm_inv_def pm_geom_def)
qed

lemma pm_lists_pop:
  assumes "pm_lists phys fr" "fl_valid phys L" "fr L = x # xs"
  shows "pm_lists (fl_set phys L (nexti (Pgs phys ! x)) (int (length xs))) (fr(L := xs))"
    "pm_free phys fr = insert x (pm_free phys (fr(L := xs)))" "x \<notin> pm_free phys (fr(L := xs))"
proof -
  have L: "fl_chain (Pgs phys) (fst (fl_get phys L)) (x # xs)" "distinct (x # xs)"
    using assms by (auto simp: pm_lists_def)
  have M: "fl_chain (Pgs phys) (fst (fl_get phys M)) (fr M)" "snd (fl_get phys M) = int (length (fr M))" "distinct (fr M)"
    if "fl_valid phys M" for M using that assms(1) by (auto simp: pm_lists_def)
  have D: "set (fr M) \<inter> set (fr N) = {}" if "fl_valid phys M" "fl_valid phys N" "M \<noteq> N" for M N
    using that assms(1) by (auto simp: pm_lists_def)
  have xM: "x \<notin> set (fr M)" if "fl_valid phys M" "M \<noteq> L" for M using D [OF that(1) assms(2) that(2)] assms(3) by auto
  show "pm_lists (fl_set phys L (nexti (Pgs phys ! x)) (int (length xs))) (fr(L := xs))"
    unfolding pm_lists_def
  proof (intro conjI allI impI; (elim conjE)?)
    fix M assume v: "fl_valid (fl_set phys L (nexti (Pgs phys ! x)) (int (length xs))) M"
    then have v': "fl_valid phys M" by simp
    show "fl_chain (Pgs (fl_set phys L (nexti (Pgs phys ! x)) (int (length xs))))
        (fst (fl_get (fl_set phys L (nexti (Pgs phys ! x)) (int (length xs))) M)) ((fr(L := xs)) M)"
      using L M(1) [OF v'] v' assms(2) by (cases "M = L") auto
    show "snd (fl_get (fl_set phys L (nexti (Pgs phys ! x)) (int (length xs))) M) = int (length ((fr(L := xs)) M))"
      using M(2) [OF v'] v' assms(2) by (cases "M = L") auto
    show "distinct ((fr(L := xs)) M)" using L(2) M(3) [OF v'] by (cases "M = L") auto
  next
    fix M N assume "fl_valid (fl_set phys L (nexti (Pgs phys ! x)) (int (length xs))) M"
      "fl_valid (fl_set phys L (nexti (Pgs phys ! x)) (int (length xs))) N" "M \<noteq> N"
    then show "set ((fr(L := xs)) M) \<inter> set ((fr(L := xs)) N) = {}"
      using D [of M N] assms(3) by (cases "M = L"; cases "N = L") auto
  qed
  show "pm_free phys fr = insert x (pm_free phys (fr(L := xs)))"
    unfolding pm_free_split [OF assms(2)] assms(3) by simp
  show "x \<notin> pm_free phys (fr(L := xs))" unfolding pm_free_split(2) [OF assms(2)] using L(2) xM by auto
qed

lemma phys_new_spec:
  assumes inv: "pm_inv tot phys fr own pend" and v: "fl_valid phys L"
  shows "fr L = [] \<Longrightarrow> phys_new phys L = Ok (None, phys)"
    and "fr L = x # xs \<Longrightarrow> \<exists>phys'. phys_new phys L = Ok (Some (pg_addr phys x), phys') \<and> Pgs phys' = Pgs phys \<and>
      startn phys' = startn phys \<and> pm_inv tot phys' (fr(L := xs)) (insert x own) pend"
proof -
  have g: "pm_geom phys" "pm_lists phys fr" using inv by (simp_all add: pm_inv_def)
  have ch: "fl_chain (Pgs phys) (fst (fl_get phys L)) (fr L)" "snd (fl_get phys L) = int (length (fr L))"
    using g(2) v by (simp_all add: pm_lists_def)
  obtain ff cnt where fl: "fl_get phys L = (ff, cnt)" by (cases "fl_get phys L")
  show "phys_new phys L = Ok (None, phys)" if "fr L = []"
    using that ch g(1) by (simp add: phys_new_def fl pm_geom_def)
  assume L: "fr L = x # xs"
  have x: "ff = of_nat x" "x < length (Pgs phys)" "cnt = int (length xs) + 1" using ch L fl by auto
  note ix = of_nat_idx [OF g(1) x(2)]
  have xf: "x \<in> pm_free phys fr" using pm_free_valid [OF v] L by auto
  then have rc: "Refcnt (Pgs phys ! x) = 0" using inv by (simp add: pm_inv_def)
  have cnt: "i32 (cnt - 1) = int (length xs)"
    using pm_list_length(2) [OF inv v] x(3) L by (simp add: i32_id)
  let ?p = "fl_set phys L (nexti (Pgs phys ! x)) (int (length xs))"
  have "phys_new phys L = Ok (Some (pg_addr phys x), ?p)"
    using g(1) ix x pg_addr_index(2) [OF g(1) x(2)] rc cnt
    by (simp add: phys_new_def fl pm_geom_def Let_def pg_addr_def)
  moreover have "pm_inv tot ?p (fr(L := xs)) (insert x own) pend"
  proof -
    note pop = pm_lists_pop [OF g(2) v L]
    have "pm_free ?p (fr(L := xs)) = pm_free phys (fr(L := xs))" by (simp add: pm_free_def)
    then show ?thesis using inv pop rc xf unfolding pm_inv_def by (auto simp: pm_geom_def)
  qed
  ultimately show "\<exists>phys'. phys_new phys L = Ok (Some (pg_addr phys x), phys') \<and> Pgs phys' = Pgs phys \<and>
      startn phys' = startn phys \<and> pm_inv tot phys' (fr(L := xs)) (insert x own) pend"
    by (intro exI [of _ ?p]) simp
qed

lemma pm_lists_push:
  assumes "pm_lists phys fr" "fl_valid phys L" "x \<notin> pm_free phys fr" "x < length (Pgs phys)"
  defines "phys' \<equiv> fl_set (set_pg phys x (\<lambda>pg. pg\<lparr>nexti := fst (fl_get phys L)\<rparr>)) L (of_nat x) (int (length (fr L)) + 1)"
  shows "pm_lists phys' (fr(L := x # fr L))"
    "pm_free phys (fr(L := x # fr L)) = insert x (pm_free phys fr)"
proof -
  let ?s = "set_pg phys x (\<lambda>pg. pg\<lparr>nexti := fst (fl_get phys L)\<rparr>)"
  have M: "fl_chain (Pgs phys) (fst (fl_get phys M)) (fr M)" "snd (fl_get phys M) = int (length (fr M))" "distinct (fr M)"
    if "fl_valid phys M" for M using that assms(1) by (auto simp: pm_lists_def)
  have D: "set (fr M) \<inter> set (fr N) = {}" if "fl_valid phys M" "fl_valid phys N" "M \<noteq> N" for M N
    using that assms(1) by (auto simp: pm_lists_def)
  have xM: "x \<notin> set (fr M)" if "fl_valid phys M" for M using that assms(3) pm_free_valid by blast
  have ch: "fl_chain (Pgs ?s) i (fr M) = fl_chain (Pgs phys) i (fr M)" if "fl_valid phys M" "fl_chain (Pgs phys) i (fr M)" for M i
  proof (rule fl_chain_cong)
    fix y assume "y \<in> set (fr M)"
    then have "y < length (Pgs phys)" "y \<noteq> x" using fl_chain_bound [OF that(2)] xM [OF that(1)] by auto
    then show "nexti (Pgs ?s ! y) = nexti (Pgs phys ! y)" by (simp add: nth_set_pg)
  qed simp
  have v: "fl_valid phys' = fl_valid phys" "Pgs phys' = Pgs ?s" by (simp_all add: phys'_def)
  show "pm_lists phys' (fr(L := x # fr L))"
    unfolding pm_lists_def v
  proof (intro conjI allI impI)
    fix N assume n: "fl_valid phys N"
    show "fl_chain (Pgs ?s) (fst (fl_get phys' N)) ((fr(L := x # fr L)) N)"
    proof (cases "N = L")
      case True
      then show ?thesis using M(1) [OF assms(2)] ch [OF assms(2)] assms(2,4) by (simp add: phys'_def nth_set_pg)
    next
      case False
      then show ?thesis using M(1) [OF n] ch [OF n] n by (simp add: phys'_def)
    qed
    show "snd (fl_get phys' N) = int (length ((fr(L := x # fr L)) N))"
      using M(2) [OF n] n assms(2) by (cases "N = L") (simp_all add: phys'_def)
    show "distinct ((fr(L := x # fr L)) N)" using M(3) [OF n] xM [OF n] by (cases "N = L") simp_all
  next
    fix N K assume "fl_valid phys N" "fl_valid phys K" "N \<noteq> K"
    then show "set ((fr(L := x # fr L)) N) \<inter> set ((fr(L := x # fr L)) K) = {}"
      using D [of N K] xM by (cases "N = L"; cases "K = L") auto
  qed
  show "pm_free phys (fr(L := x # fr L)) = insert x (pm_free phys fr)"
    unfolding pm_free_split [OF assms(2)] by simp
qed

lemma phys_insert_spec:
  assumes inv: "pm_inv tot phys fr own pend" and v: "fl_valid phys L" and x: "x \<in> pend"
  shows "\<exists>phys'. phys_insert phys L x = Ok phys' \<and> startn phys' = startn phys \<and> length (Pgs phys') = length (Pgs phys) \<and>
    percpu phys' = percpu (fl_set phys L (of_nat x) (int (length (fr L)) + 1)) \<and>
    pm_inv tot phys' (fr(L := x # fr L)) own (pend - {x})"
proof -
  have g: "pm_geom phys" "pm_lists phys fr" using inv by (simp_all add: pm_inv_def)
  have xb: "x < length (Pgs phys)" "x \<notin> pm_free phys fr" "Refcnt (Pgs phys ! x) = 0" "x \<notin> own"
    using inv x by (auto simp: pm_inv_def)
  obtain ff cnt where fl: "fl_get phys L = (ff, cnt)" by (cases "fl_get phys L")
  have cnt: "cnt = int (length (fr L))" using g(2) v fl by (auto simp: pm_lists_def)
  then have c: "i32 (cnt + 1) = int (length (fr L)) + 1" using pm_list_length(2) [OF inv v] by (simp add: i32_id)
  let ?s = "set_pg phys x (\<lambda>pg. pg\<lparr>nexti := ff\<rparr>)"
  let ?p = "fl_set ?s L (of_nat x) (int (length (fr L)) + 1)"
  have run: "phys_insert phys L x = Ok ?p" using xb(1) c by (simp add: phys_insert_def fl Let_def)
  note push = pm_lists_push [OF g(2) v xb(2,1), unfolded fl fst_conv]
  have fr: "pm_free ?p (fr(L := x # fr L)) = insert x (pm_free phys fr)"
    using push(2) by (simp add: pm_free_def)
  have rc: "Refcnt (Pgs ?p ! y) = Refcnt (Pgs phys ! y)" if "y < length (Pgs phys)" for y
    using that by (simp add: nth_set_pg)
  have tot: "tot \<subseteq> {..<length (Pgs phys)}" "own \<union> pend \<union> pm_free phys fr = tot" using inv by (simp_all add: pm_inv_def)
  have "pm_inv tot ?p (fr(L := x # fr L)) own (pend - {x})"
    unfolding pm_inv_def
  proof (intro conjI)
    show "pm_geom ?p" using g(1) by (simp add: pm_geom_def)
    show "pm_lists ?p (fr(L := x # fr L))" by (rule push(1))
    show "own \<inter> (pend - {x}) = {}" "(own \<union> (pend - {x})) \<inter> pm_free ?p (fr(L := x # fr L)) = {}"
      "own \<union> (pend - {x}) \<union> pm_free ?p (fr(L := x # fr L)) = tot" "tot \<subseteq> {..<length (Pgs ?p)}"
      using inv x xb(2,4) unfolding fr by (auto simp: pm_inv_def)
    show "\<forall>y \<in> pend - {x} \<union> pm_free ?p (fr(L := x # fr L)). Refcnt (Pgs ?p ! y) = 0"
    proof
      fix y assume "y \<in> pend - {x} \<union> pm_free ?p (fr(L := x # fr L))"
      then have y: "y \<in> pend \<union> pm_free phys fr" using x unfolding fr by auto
      then have "y < length (Pgs phys)" using tot by auto
      then show "Refcnt (Pgs ?p ! y) = 0" using rc inv y by (simp add: pm_inv_def)
    qed
    show "\<forall>y \<in> own. 0 \<le> Refcnt (Pgs ?p ! y) \<and> Refcnt (Pgs ?p ! y) < 2 ^ 31"
    proof
      fix y assume y: "y \<in> own"
      then have "y < length (Pgs phys)" using tot by auto
      then show "0 \<le> Refcnt (Pgs ?p ! y) \<and> Refcnt (Pgs ?p ! y) < 2 ^ 31" using rc inv y by (simp add: pm_inv_def)
    qed
  qed
  moreover have "percpu ?p = percpu (fl_set phys L (of_nat x) (int (length (fr L)) + 1))"
    by (cases "(phys, L)" rule: fl_get.cases) (simp_all add: set_pg_def)
  ultimately show ?thesis using run by (intro exI [of _ ?p]) simp
qed

text \<open>Changing the reference count of an owned page.\<close>

lemma set_ref_inv:
  assumes inv: "pm_inv tot phys fr own pend" and x: "x \<in> own" and c: "0 \<le> c" "c < 2 ^ 31"
  shows "pm_inv tot (set_pg phys x (\<lambda>pg. pg\<lparr>Refcnt := c\<rparr>)) fr own pend"
    "c = 0 \<Longrightarrow> pm_inv tot (set_pg phys x (\<lambda>pg. pg\<lparr>Refcnt := c\<rparr>)) fr (own - {x}) (insert x pend)"
proof -
  define p where "p = set_pg phys x (\<lambda>pg. pg\<lparr>Refcnt := c\<rparr>)"
  have f: "length (Pgs p) = length (Pgs phys)" "startn p = startn phys" "Dmapinit p = Dmapinit phys"
    "fl_valid p = fl_valid phys" "fl_get p L = fl_get phys L" for L by (simp_all add: p_def)
  have tot: "tot \<subseteq> {..<length (Pgs phys)}" "own \<union> pend \<union> pm_free phys fr = tot" using inv by (simp_all add: pm_inv_def)
  have rc: "Refcnt (Pgs p ! y) = (if y = x then c else Refcnt (Pgs phys ! y))" "nexti (Pgs p ! y) = nexti (Pgs phys ! y)"
    if "y < length (Pgs phys)" for y using that by (simp_all add: nth_set_pg p_def)
  have li: "pm_lists p fr"
  proof -
    have "fl_chain (Pgs p) i (fr L) = fl_chain (Pgs phys) i (fr L)" if "fl_valid phys L" "fl_chain (Pgs phys) i (fr L)" for i L
      using rc(2) fl_chain_bound [OF that(2)] f(1) by (intro fl_chain_cong) simp_all
    then show ?thesis using inv f by (auto simp: pm_inv_def pm_lists_def)
  qed
  have fr: "pm_free p fr = pm_free phys fr" by (simp add: pm_free_def f)
  have b: "y < length (Pgs phys)" if "y \<in> own \<union> pend \<union> pm_free phys fr" for y using tot that by auto
  show "pm_inv tot (set_pg phys x (\<lambda>pg. pg\<lparr>Refcnt := c\<rparr>)) fr own pend"
    using inv x c li unfolding p_def [symmetric] pm_inv_def fr by (auto simp: pm_geom_def rc b f)
  show "pm_inv tot (set_pg phys x (\<lambda>pg. pg\<lparr>Refcnt := c\<rparr>)) fr (own - {x}) (insert x pend)" if "c = 0"
    using inv x c li that unfolding p_def [symmetric] pm_inv_def fr by (auto simp: pm_geom_def rc b f)
qed

lemma Refup_spec:
  assumes inv: "pm_inv tot phys fr own pend" and x: "x \<in> own" "Refaddr phys p = Ok x" "Refcnt (Pgs phys ! x) < 2 ^ 31 - 1"
  shows "\<exists>phys'. Refup phys p = Ok phys' \<and> pm_inv tot phys' fr own pend \<and>
    phys' = set_pg phys x (\<lambda>pg. pg\<lparr>Refcnt := Refcnt (Pgs phys ! x) + 1\<rparr>)"
proof -
  have r: "0 \<le> Refcnt (Pgs phys ! x)" using inv x(1) by (simp add: pm_inv_def)
  then have c: "i32 (Refcnt (Pgs phys ! x) + 1) = Refcnt (Pgs phys ! x) + 1" using x(3) by (intro i32_id) simp_all
  then show ?thesis using set_ref_inv(1) [OF inv x(1), of "Refcnt (Pgs phys ! x) + 1"] r x(2,3) by (simp add: Refup_def Let_def)
qed

lemma refdec_spec:
  assumes inv: "pm_inv tot phys fr own pend" and x: "x \<in> own" "Refaddr phys p = Ok x" "0 < Refcnt (Pgs phys ! x)"
  defines "phys' \<equiv> set_pg phys x (\<lambda>pg. pg\<lparr>Refcnt := Refcnt (Pgs phys ! x) - 1\<rparr>)"
  shows "refdec phys p = Ok (Refcnt (Pgs phys ! x) = 1, x, phys')"
    "Refcnt (Pgs phys ! x) = 1 \<Longrightarrow> pm_inv tot phys' fr (own - {x}) (insert x pend)"
    "Refcnt (Pgs phys ! x) \<noteq> 1 \<Longrightarrow> pm_inv tot phys' fr own pend"
proof -
  have r: "Refcnt (Pgs phys ! x) < 2 ^ 31" using inv x(1) by (simp add: pm_inv_def)
  then have c: "i32 (Refcnt (Pgs phys ! x) - 1) = Refcnt (Pgs phys ! x) - 1" using x(3) by (intro i32_id) simp_all
  show "refdec phys p = Ok (Refcnt (Pgs phys ! x) = 1, x, phys')"
    using x(2,3) c by (auto simp: refdec_def Let_def phys'_def)
  show "pm_inv tot phys' fr (own - {x}) (insert x pend)" if "Refcnt (Pgs phys ! x) = 1"
    unfolding phys'_def using that by (intro set_ref_inv(2) [OF inv x(1)]) simp_all
  show "pm_inv tot phys' fr own pend"
    unfolding phys'_def using r x(3) by (intro set_ref_inv(1) [OF inv x(1)]) simp_all
qed

subsection \<open>Interleaved executions\<close>

text \<open>
  The atomic steps of the allocator, in any interleaving of the CPUs: taking a page from a list,
  raising and lowering the count of a page that is in use, and returning a page whose count has
  dropped to zero to some list.  A client only changes the count of a page it was given, and lowers
  only a positive count.
\<close>

type_synonym pm_state = "physmem_t \<times> nat set \<times> nat set"

inductive pm_step :: "pm_state \<Rightarrow> pm_state \<Rightarrow> bool" where
  pm_new: "fl_valid phys L \<Longrightarrow> phys_new phys L = Ok (Some p, phys') \<Longrightarrow> Refaddr phys p = Ok x \<Longrightarrow>
    pm_step (phys, own, pend) (phys', insert x own, pend)"
| pm_up: "x \<in> own \<Longrightarrow> Refaddr phys p = Ok x \<Longrightarrow> Refcnt (Pgs phys ! x) < 2 ^ 31 - 1 \<Longrightarrow> Refup phys p = Ok phys' \<Longrightarrow>
    pm_step (phys, own, pend) (phys', own, pend)"
| pm_dec: "x \<in> own \<Longrightarrow> Refaddr phys p = Ok x \<Longrightarrow> 0 < Refcnt (Pgs phys ! x) \<Longrightarrow> refdec phys p = Ok (add, i, phys') \<Longrightarrow>
    pm_step (phys, own, pend) (phys', if add then own - {x} else own, if add then insert i pend else pend)"
| pm_put: "x \<in> pend \<Longrightarrow> fl_valid phys L \<Longrightarrow> phys_insert phys L x = Ok phys' \<Longrightarrow>
    pm_step (phys, own, pend) (phys', own, pend - {x})"

inductive_cases pm_stepE: "pm_step s s'"

definition pm_ok :: "nat set \<Rightarrow> pm_state \<Rightarrow> bool" where
  "pm_ok tot st \<longleftrightarrow> (\<exists>fr. pm_inv tot (fst st) fr (fst (snd st)) (snd (snd st)))"

lemma pm_step_ok: "pm_step st st' \<Longrightarrow> pm_ok tot st \<Longrightarrow> pm_ok tot st'"
proof (induction rule: pm_step.induct)
  case (pm_new phys L p phys' x own pend)
  then obtain fr where inv: "pm_inv tot phys fr own pend" by (auto simp: pm_ok_def)
  show ?case
  proof (cases "fr L")
    case Nil
    then show ?thesis using phys_new_spec(1) [OF inv pm_new(1)] pm_new(2) by simp
  next
    case (Cons y ys)
    then obtain q where q: "phys_new phys L = Ok (Some (pg_addr phys y), q)" "pm_inv tot q (fr(L := ys)) (insert y own) pend"
      using phys_new_spec(2) [OF inv pm_new(1)] by blast
    have "y \<in> pm_free phys fr" using pm_free_valid [OF pm_new(1)] Cons by auto
    then have "y < length (Pgs phys)" "pm_geom phys" using inv by (auto simp: pm_inv_def)
    then have "x = y" using pg_addr_index(1) [of phys y] q(1) pm_new(2,3) by simp
    then show ?thesis using q pm_new(2) by (auto simp: pm_ok_def)
  qed
next
  case (pm_up x own phys p phys' pend)
  then show ?case using Refup_spec [of tot phys _ own pend x p] by (fastforce simp: pm_ok_def)
next
  case (pm_dec x own phys p add i phys' pend)
  then obtain fr where inv: "pm_inv tot phys fr own pend" by (auto simp: pm_ok_def)
  note d = refdec_spec [OF inv pm_dec(1-3)]
  show ?case using d pm_dec(4) by (cases "Refcnt (Pgs phys ! x) = 1") (auto simp: pm_ok_def)
next
  case (pm_put x pend phys L phys' own)
  then show ?case using phys_insert_spec [of tot phys _ own pend L x] by (fastforce simp: pm_ok_def)
qed

lemma pm_steps_ok: "pm_step\<^sup>*\<^sup>* st st' \<Longrightarrow> pm_ok tot st \<Longrightarrow> pm_ok tot st'"
  by (induction rule: rtranclp_induct) (auto intro: pm_step_ok)

subsection \<open>The initial lists\<close>

lemma fl_chain_snoc:
  assumes "fl_chain pgs i xs" "xs \<noteq> []" "length pgs' = length pgs" "\<forall>x \<in> set (butlast xs). nexti (pgs' ! x) = nexti (pgs ! x)"
    "nexti (pgs' ! last xs) = of_nat y" "y < length pgs" "nexti (pgs' ! y) = nil_idx"
  shows "fl_chain pgs' i (xs @ [y])"
  using assms by (induction xs arbitrary: i) (auto split: if_splits)

definition pm_start :: "physmem_t \<Rightarrow> nat list \<Rightarrow> bool" where
  "pm_start phys xs \<longleftrightarrow> xs \<noteq> [] \<and> fl_chain (Pgs phys) (freei phys) xs \<and> freelen phys = int (length xs) \<and> distinct xs \<and>
     (\<forall>x \<in> set xs. Refcnt (Pgs phys ! x) = 0) \<and> pmaps phys = nil_idx \<and> pmaplen phys = 0"

lemma pm_start_inv:
  assumes "pm_start phys xs" "unat (startn phys) + length (Pgs phys) \<le> 2 ^ 27"
  shows "\<exists>fr. pm_inv (set xs) (phys\<lparr>Dmapinit := True, percpu := replicate ncpu percpu_init\<rparr>) fr {} {}"
proof -
  let ?fr = "\<lambda>L. if L = Sysl False then xs else []" and ?p = "phys\<lparr>Dmapinit := True, percpu := replicate ncpu percpu_init\<rparr>"
  have "pm_free ?p ?fr = set xs" by (auto simp: pm_free_def intro!: exI [of _ "Sysl False"])
  moreover have "pm_lists ?p ?fr"
    unfolding pm_lists_def
  proof (intro conjI allI impI)
    fix L assume v: "fl_valid ?p L"
    show "fl_chain (Pgs ?p) (fst (fl_get ?p L)) (?fr L)" "snd (fl_get ?p L) = int (length (?fr L))" "distinct (?fr L)"
      using v assms(1) by (cases "(?p, L)" rule: fl_get.cases; simp add: pm_start_def percpu_init_def)+
  qed auto
  moreover have "set xs \<subseteq> {..<length (Pgs phys)}" using assms(1) fl_chain_bound by (auto simp: pm_start_def)
  ultimately show ?thesis using assms by (intro exI [of _ ?fr]) (auto simp: pm_inv_def pm_geom_def pm_start_def)
qed

lemma phys_init_turn:
  assumes "pm_start phys xs" "idx < length (Pgs phys)" "idx \<notin> set xs" "length (Pgs phys) \<le> 2 ^ 27"
  defines "phys' \<equiv> set_pg (set_pg (set_pg phys idx (\<lambda>pg. pg\<lparr>Refcnt := 0\<rparr>)) (last xs) (\<lambda>pg. pg\<lparr>nexti := of_nat idx\<rparr>)) idx
    (\<lambda>pg. pg\<lparr>nexti := nil_idx\<rparr>)"
  shows "pm_start (phys'\<lparr>freelen := i32 (freelen phys' + 1)\<rparr>) (xs @ [idx])"
proof -
  have ch: "fl_chain (Pgs phys) (freei phys) xs" "xs \<noteq> []" "distinct xs" using assms(1) by (simp_all add: pm_start_def)
  have b: "x < length (Pgs phys)" if "x \<in> set xs" for x using that fl_chain_bound [OF ch(1)] by blast
  have la: "last xs \<in> set xs" "last xs \<noteq> idx" using ch(2) assms(3) by auto
  have bl: "x \<in> set xs" "x \<noteq> last xs" if "x \<in> set (butlast xs)" for x
    using that ch(2,3) by (auto dest: in_set_butlastD) (metis append_butlast_last_id distinct_append disjoint_iff list.set_intros(1))
  have nx: "nexti (Pgs phys' ! x) = (if x = idx then nil_idx else if x = last xs then of_nat idx else nexti (Pgs phys ! x))"
    and rc: "Refcnt (Pgs phys' ! x) = (if x = idx then 0 else Refcnt (Pgs phys ! x))"
    if "x < length (Pgs phys)" for x using that by (auto simp: phys'_def nth_set_pg)
  have "length (Pgs phys') = length (Pgs phys)" by (simp add: phys'_def)
  then have "fl_chain (Pgs phys') (freei phys) (xs @ [idx])"
    using la bl b assms(2,3) nx by (intro fl_chain_snoc [OF ch(1,2)]) fastforce+
  moreover have "set xs \<subseteq> {..<length (Pgs phys)}" using b by auto
  then have "length xs \<le> length (Pgs phys)" using card_mono [of "{..<length (Pgs phys)}" "set xs"] distinct_card [OF ch(3)] by simp
  then have "int (length xs) \<le> 134217728" using assms(4) by simp
  moreover have "freei phys' = freei phys" "freelen phys' = freelen phys" "pmaps phys' = pmaps phys" "pmaplen phys' = pmaplen phys"
    by (simp_all add: phys'_def set_pg_def)
  ultimately show ?thesis using assms(1-3) rc b by (auto simp: pm_start_def i32_id)
qed

definition init_turn :: "physmem_t \<Rightarrow> nat \<Rightarrow> nat \<Rightarrow> physmem_t" where
  "init_turn phys la idx =
     (let p = set_pg (set_pg (set_pg phys idx (\<lambda>pg. pg\<lparr>Refcnt := 0\<rparr>)) la (\<lambda>pg. pg\<lparr>nexti := of_nat idx\<rparr>)) idx
        (\<lambda>pg. pg\<lparr>nexti := nil_idx\<rparr>)
      in p\<lparr>freelen := i32 (freelen p + 1)\<rparr>)"

lemma phys_init_loop_Suc:
  assumes "Suc n < respgs" "idx = unat (pg2pgn (gp (respgs - Suc n)) - startn phys)"
  shows "phys_init_loop gp respgs (Suc n) la phys =
    (if idx \<ge> length (Pgs phys) then if n + 2 > respgs div 100 then Panic ''got many bad pages'' else Ok phys
     else phys_init_loop gp respgs n idx (init_turn phys la idx))"
proof -
  have "Suc (respgs - 1 - Suc n) = respgs - Suc n" "respgs - (respgs - 1 - Suc n) = n + 2" using assms(1) by simp_all
  then show ?thesis using assms(2) by (simp only: phys_init_loop.simps Let_def init_turn_def)
qed

lemma phys_init_loop_start:
  assumes "phys_init_loop gp respgs n (last xs) phys = Ok phys'" "pm_start phys xs" "n < respgs"
    "startn phys = pg2pgn (gp 0)" "length (Pgs phys) = respgs" "respgs \<le> 2 ^ 27"
    "set xs \<subseteq> (\<lambda>j. unat (pg2pgn (gp j) - pg2pgn (gp 0))) ` {..<respgs - n}" "inj_on (\<lambda>j. pg2pgn (gp j)) {..<respgs}"
  shows "\<exists>ys. pm_start phys' ys \<and> startn phys' = pg2pgn (gp 0) \<and> length (Pgs phys') = respgs"
  using assms
proof (induction n arbitrary: phys xs)
  case 0
  then show ?case by auto
next
  case (Suc n)
  define j where "j = respgs - Suc n"
  define idx where "idx = unat (pg2pgn (gp j) - pg2pgn (gp 0))"
  have j: "j < respgs" "respgs - n = Suc j" using Suc.prems(3) by (auto simp: j_def)
  have "idx = unat (pg2pgn (gp (respgs - Suc n)) - startn phys)" by (simp add: idx_def j_def Suc.prems(4))
  note eq = phys_init_loop_Suc [of n respgs idx gp phys "last xs", OF Suc.prems(3) this]
  show ?case
  proof (cases "idx \<ge> length (Pgs phys)")
    case True
    then have "phys' = phys" using Suc.prems(1) unfolding eq by (simp split: if_splits)
    then show ?thesis using Suc.prems by auto
  next
    case False
    have ni: "idx \<notin> set xs"
    proof
      assume "idx \<in> set xs"
      then obtain k where k: "k < j" "idx = unat (pg2pgn (gp k) - pg2pgn (gp 0))" using Suc.prems(7) by (auto simp: j_def)
      then have "pg2pgn (gp j) - pg2pgn (gp 0) = pg2pgn (gp k) - pg2pgn (gp 0)" unfolding idx_def by (intro word_unat_eq_iff [THEN iffD2]) simp
      then have "pg2pgn (gp k) = pg2pgn (gp j)" by simp
      then show False using inj_onD [OF Suc.prems(8), of k j] k j by simp
    qed
    have st: "pm_start (init_turn phys (last xs) idx) (xs @ [idx])"
      using phys_init_turn [OF Suc.prems(2) _ ni] False Suc.prems(5,6) by (simp add: init_turn_def Let_def)
    have "phys_init_loop gp respgs n (last (xs @ [idx])) (init_turn phys (last xs) idx) = Ok phys'"
      using Suc.prems(1) False unfolding eq by simp
    moreover have "set (xs @ [idx]) \<subseteq> (\<lambda>j. unat (pg2pgn (gp j) - pg2pgn (gp 0))) ` {..<respgs - n}"
      using Suc.prems(7) unfolding j(2) by (auto simp: idx_def j_def lessThan_Suc)
    moreover have "startn (init_turn phys (last xs) idx) = pg2pgn (gp 0)" "length (Pgs (init_turn phys (last xs) idx)) = respgs"
      using Suc.prems(4,5) by (simp_all add: init_turn_def Let_def)
    ultimately show ?thesis using Suc.IH [OF _ st] Suc.prems(3,6,8) by (simp del: last_snoc)
  qed
qed

lemma Phys_init_ok:
  assumes "Phys_init ncpu respgs gp = Ok phys" "inj_on (\<lambda>j. pg2pgn (gp j)) {..<respgs}" "0 < respgs"
    "unat (pg2pgn (gp 0)) + respgs \<le> 2 ^ 27"
  shows "\<exists>tot. pm_ok tot (phys\<lparr>Dmapinit := True\<rparr>, {}, {})"
proof -
  define p0 where "p0 = set_pg \<lparr>Pgs = replicate respgs \<lparr>Refcnt = - 10, nexti = 0, Cpumask = 0\<rparr>, startn = pg2pgn (gp 0), freei = 0,
    freelen = 1, pmaps = nil_idx, pmaplen = 0, Dmapinit = False, percpu = []\<rparr> 0 (\<lambda>pg. pg\<lparr>Refcnt := 0, nexti := nil_idx\<rparr>)"
  obtain p where p: "phys_init_loop gp respgs (respgs - 1) 0 p0 = Ok p" "phys = p\<lparr>percpu := replicate ncpu percpu_init\<rparr>"
    using assms(1) by (auto simp: Phys_init_def p0_def gbind_eq_Ok Let_def)
  have "pm_start p0 [0]" using assms(3) by (simp add: p0_def pm_start_def set_pg_def)
  from phys_init_loop_start [of gp respgs "respgs - 1" "[0]" p0 p, OF _ this] p(1) assms(2-4)
  obtain ys where "pm_start p ys" "startn p = pg2pgn (gp 0)" "length (Pgs p) = respgs"
    by (auto simp: p0_def)
  moreover have "phys\<lparr>Dmapinit := True\<rparr> = p\<lparr>Dmapinit := True, percpu := replicate ncpu percpu_init\<rparr>"
    unfolding p(2) by (cases p) simp
  ultimately show ?thesis using pm_start_inv [of p ys ncpu] assms(4) by (auto simp: pm_ok_def)
qed

subsection \<open>Whole operations as sequences of steps\<close>

lemma phys_new_steps:
  assumes ok: "pm_ok tot (phys, own, pend)" and v: "fl_valid phys L"
  shows "phys_new phys L = Ok (None, phys) \<or>
    (\<exists>x phys'. phys_new phys L = Ok (Some (pg_addr phys x), phys') \<and> x \<notin> own \<union> pend \<and> Refcnt (Pgs phys ! x) = 0 \<and>
       Refaddr phys (pg_addr phys x) = Ok x \<and> pm_step (phys, own, pend) (phys', insert x own, pend))"
proof -
  obtain fr where inv: "pm_inv tot phys fr own pend" using ok by (auto simp: pm_ok_def)
  show ?thesis
  proof (cases "fr L")
    case Nil
    then show ?thesis using phys_new_spec(1) [OF inv v] by simp
  next
    case (Cons x xs)
    have x: "x \<in> pm_free phys fr" using pm_free_valid [OF v] Cons by auto
    then have "x < length (Pgs phys)" "pm_geom phys" "x \<notin> own \<union> pend" "Refcnt (Pgs phys ! x) = 0" using inv by (auto simp: pm_inv_def)
    then show ?thesis using phys_new_spec(2) [OF inv v Cons] pg_addr_index(1) [of phys x] pm_new [OF v] by blast
  qed
qed

text \<open>What a page allocation promises: nothing changes when it finds no page, and a page it returns was in nobody's hands.\<close>

definition fresh_page :: "physmem_t \<Rightarrow> nat set \<Rightarrow> nat set \<Rightarrow> (pa_t option \<times> physmem_t) go \<Rightarrow> bool" where
  "fresh_page phys own pend r \<longleftrightarrow> r = Ok (None, phys) \<or>
     (\<exists>x phys'. r = Ok (Some (pg_addr phys x), phys') \<and> x \<notin> own \<union> pend \<and> Refcnt (Pgs phys ! x) = 0 \<and>
        Refaddr phys (pg_addr phys x) = Ok x \<and> pm_step (phys, own, pend) (phys', insert x own, pend))"

lemma fresh_page_new: "pm_ok tot (phys, own, pend) \<Longrightarrow> fl_valid phys L \<Longrightarrow> fresh_page phys own pend (phys_new phys L)"
  unfolding fresh_page_def by (rule phys_new_steps)

lemma fresh_page_or:
  assumes "fresh_page phys own pend r" "fresh_page phys own pend (f phys)"
  shows "fresh_page phys own pend (gbind r (\<lambda>(r, phys). case r of Some p \<Rightarrow> Ok (Some p, phys) | None \<Rightarrow> f phys))"
  using assms unfolding fresh_page_def by fastforce

lemma fresh_page_refpg:
  assumes "pm_ok tot (phys, own, pend)" "me < length (percpu phys)"
  shows "fresh_page phys own pend (refpg_new phys me)"
  unfolding refpg_new_def pcpu_new_def using assms by (intro fresh_page_or fresh_page_new [OF assms(1)]) simp_all

lemma phys_insert_step:
  assumes "pm_ok tot (phys, own, pend)" "fl_valid phys L" "x \<in> pend"
  shows "\<exists>phys'. phys_insert phys L x = Ok phys' \<and> pm_step (phys, own, pend) (phys', own, pend - {x})"
  using assms phys_insert_spec [of tot phys _ own pend L x] pm_put [OF assms(3,2)] by (fastforce simp: pm_ok_def)

lemma pcpu_put_steps:
  assumes "pm_ok tot (phys, own, pend)" "me < length (percpu phys)" "x \<in> pend"
  shows "pcpu_put phys me x b = Ok (False, phys) \<or>
    (\<exists>phys'. pcpu_put phys me x b = Ok (True, phys') \<and> pm_step (phys, own, pend) (phys', own, pend - {x}))"
  using phys_insert_step [OF assms(1) _ assms(3), of "Cpul me b"] assms(2) by (auto simp: pcpu_put_def Let_def)

lemma phys_put_steps:
  assumes ok: "pm_ok tot (phys, own, pend)" and me: "me < length (percpu phys)"
    and x: "x \<in> own" "Refaddr phys p = Ok x" "0 < Refcnt (Pgs phys ! x)"
  shows "\<exists>phys'. phys_put phys me p b = Ok (Refcnt (Pgs phys ! x) = 1, phys') \<and>
    pm_step\<^sup>*\<^sup>* (phys, own, pend) (phys', if Refcnt (Pgs phys ! x) = 1 then own - {x} else own, pend)"
proof -
  obtain fr where inv: "pm_inv tot phys fr own pend" using ok by (auto simp: pm_ok_def)
  define q where "q = set_pg phys x (\<lambda>pg. pg\<lparr>Refcnt := Refcnt (Pgs phys ! x) - 1\<rparr>)"
  have d: "refdec phys p = Ok (Refcnt (Pgs phys ! x) = 1, x, q)" unfolding q_def by (rule refdec_spec(1) [OF inv x])
  note st = pm_dec [OF x d, of pend]
  show ?thesis
  proof (cases "Refcnt (Pgs phys ! x) = 1")
    case True
    have xp: "x \<notin> pend" using inv x(1) by (auto simp: pm_inv_def)
    have st': "pm_step (phys, own, pend) (q, own - {x}, insert x pend)" using st True by simp
    have ok': "pm_ok tot (q, own - {x}, insert x pend)" by (rule pm_step_ok [OF st' ok])
    have m: "me < length (percpu q)" using me by (simp add: q_def)
    have fin: "pm_step\<^sup>*\<^sup>* (phys, own, pend) (q', own - {x}, pend)" if "pm_step (q, own - {x}, insert x pend) (q', own - {x}, insert x pend - {x})" for q'
      using st' that xp by (simp add: converse_rtranclp_into_rtranclp)
    show ?thesis
      using pcpu_put_steps [OF ok' m, of x b] phys_insert_step [OF ok', of "Sysl b" x] fin True
      by (auto simp: phys_put_def d)
  next
    case False
    then show ?thesis using st d by (auto simp: phys_put_def)
  qed
qed

subsection \<open>Properties\<close>

text \<open>
  C9: After any interleaving of allocator steps from the state that \<open>Phys_init\<close> leaves (with the direct
  map set up, and \<open>Get_phys\<close> never returning a page twice), an allocation for a page or a page map does
  not panic, and either finds no page and changes nothing or returns the address of a page that nobody
  holds and whose reference count is zero: no page is handed out twice.
\<close>

theorem physmem_exclusive:
  assumes "Phys_init ncpu respgs gp = Ok phys0" "inj_on (\<lambda>j. pg2pgn (gp j)) {..<respgs}" "0 < respgs"
    and "unat (pg2pgn (gp 0)) + respgs \<le> 2 ^ 27"
    and "pm_step\<^sup>*\<^sup>* (phys0\<lparr>Dmapinit := True\<rparr>, {}, {}) (phys, own, pend)" "me < length (percpu phys)"
  shows "fresh_page phys own pend (Refpg_new phys me) \<and> fresh_page phys own pend (Refpg_new_nozero phys me) \<and>
    fresh_page phys own pend (Pmap_new phys me)"
proof -
  obtain tot where ok: "pm_ok tot (phys, own, pend)" using Phys_init_ok [OF assms(1-4)] pm_steps_ok [OF assms(5)] by blast
  have "Dmapinit phys" using ok by (auto simp: pm_ok_def pm_inv_def pm_geom_def)
  then have r: "fresh_page phys own pend (Refpg_new phys me)" using fresh_page_refpg [OF ok assms(6)] by (simp add: Refpg_new_def)
  moreover have "fresh_page phys own pend (Pmap_new phys me)"
    unfolding Pmap_new_def pcpu_new_def
    using assms(6) by (intro fresh_page_or fresh_page_new [OF ok]) (simp_all add: r)
  ultimately show ?thesis using fresh_page_refpg [OF ok assms(6)] by (simp add: Refpg_new_nozero_def)
qed

text \<open>A machine with one CPU and two pages, after one page was allocated and referenced.\<close>

definition ex_gp :: "nat \<Rightarrow> pa_t" where
  "ex_gp j = (of_nat j + 16) * 4096"

definition ex_pgs :: "int \<Rightarrow> physpg_t list" where
  "ex_pgs c = [\<lparr>Refcnt = c, nexti = 1, Cpumask = 0\<rparr>, \<lparr>Refcnt = 0, nexti = nil_idx, Cpumask = 0\<rparr>]"

definition ex_phys :: "int \<Rightarrow> 32 word \<Rightarrow> int \<Rightarrow> physmem_t" where
  "ex_phys c fi n = \<lparr>Pgs = ex_pgs c, startn = 16, freei = fi, freelen = n, pmaps = nil_idx, pmaplen = 0,
     Dmapinit = True, percpu = [percpu_init]\<rparr>"

lemma ex_pgn: "pg2pgn (ex_gp 0) = 16" "pg2pgn (ex_gp (Suc 0)) = 17"
  by code_simp+

lemma ex_init: "Phys_init 1 2 ex_gp = Ok ((ex_phys 0 0 2)\<lparr>Dmapinit := False\<rparr>)"
  by (simp add: Phys_init_def Let_def numeral_2_eq_2 set_pg_def ex_pgn ex_phys_def ex_pgs_def i32_id)

lemma ex_init_dmap: "(ex_phys 0 0 2)\<lparr>Dmapinit := False, Dmapinit := True\<rparr> = ex_phys 0 0 2"
  by (simp add: ex_phys_def)

lemma ex_geom: "inj_on (\<lambda>j. pg2pgn (ex_gp j)) {..<2}" "unat (pg2pgn (ex_gp 0)) + 2 \<le> 2 ^ 27"
proof -
  show "inj_on (\<lambda>j. pg2pgn (ex_gp j)) {..<2}" by (simp add: numeral_2_eq_2 lessThan_Suc ex_pgn)
qed (simp add: ex_pgn)

lemma ex_steps: "pm_step\<^sup>*\<^sup>* (ex_phys 0 0 2, {}, {}) (ex_phys 1 1 1, {0}, {})"
proof -
  have new: "phys_new (ex_phys 0 0 2) (Sysl False) = Ok (Some 65536, ex_phys 0 1 1)"
    and ra: "Refaddr (ex_phys 0 0 2) 65536 = Ok 0" "Refaddr (ex_phys 0 1 1) 65536 = Ok 0"
    and up: "Refup (ex_phys 0 1 1) 65536 = Ok (ex_phys 1 1 1)" by code_simp+
  have "pm_step (ex_phys 0 0 2, {}, {}) (ex_phys 0 1 1, {0}, {})"
    by (rule pm_new [of _ "Sysl False", OF _ new ra(1)]) simp
  moreover have "pm_step (ex_phys 0 1 1, {0}, {}) (ex_phys 1 1 1, {0}, {})"
    by (rule pm_up [OF _ ra(2) _ up]) (simp_all add: ex_phys_def ex_pgs_def)
  ultimately show ?thesis by (meson converse_rtranclp_into_rtranclp r_into_rtranclp)
qed

theorem physmem_exclusive_witness:
  "fresh_page (ex_phys 1 1 1) {0} {} (Refpg_new (ex_phys 1 1 1) 0) \<and>
   Refpg_new (ex_phys 1 1 1) 0 = Ok (Some 69632, ex_phys 1 nil_idx 0)"
proof
  have "pm_step\<^sup>*\<^sup>* ((ex_phys 0 0 2)\<lparr>Dmapinit := False, Dmapinit := True\<rparr>, {}, {}) (ex_phys 1 1 1, {0}, {})"
    unfolding ex_init_dmap by (rule ex_steps)
  from physmem_exclusive [OF ex_init ex_geom(1) _ ex_geom(2) this, of 0]
  show "fresh_page (ex_phys 1 1 1) {0} {} (Refpg_new (ex_phys 1 1 1) 0)" by (simp add: ex_phys_def)
  show "Refpg_new (ex_phys 1 1 1) 0 = Ok (Some 69632, ex_phys 1 nil_idx 0)" by code_simp
qed

text \<open>
  C10: Dropping a reference, of a page or of a page map, never panics on a page that is held: it reports
  a freed page exactly when that was the last reference; the page then leaves the held ones and is on a
  free list, no page is lost, and all later allocations are as above since the result is reachable.
\<close>

theorem Refdown_returns:
  assumes "Phys_init ncpu respgs gp = Ok phys0" "inj_on (\<lambda>j. pg2pgn (gp j)) {..<respgs}" "0 < respgs"
    and "unat (pg2pgn (gp 0)) + respgs \<le> 2 ^ 27"
    and "pm_step\<^sup>*\<^sup>* (phys0\<lparr>Dmapinit := True\<rparr>, {}, {}) (phys, own, pend)" "me < length (percpu phys)"
    and "x \<in> own" "Refaddr phys p = Ok x" "0 < Refcnt (Pgs phys ! x)"
  shows "\<exists>tot phys'. phys_put phys me p ispmap = Ok (Refcnt (Pgs phys ! x) = 1, phys') \<and>
    pm_step\<^sup>*\<^sup>* (phys0\<lparr>Dmapinit := True\<rparr>, {}, {}) (phys', if Refcnt (Pgs phys ! x) = 1 then own - {x} else own, pend) \<and>
    (\<exists>fr. pm_inv tot phys fr own pend) \<and>
    (\<exists>fr. pm_inv tot phys' fr (if Refcnt (Pgs phys ! x) = 1 then own - {x} else own) pend)"
proof -
  obtain tot where ok: "pm_ok tot (phys, own, pend)" using Phys_init_ok [OF assms(1-4)] pm_steps_ok [OF assms(5)] by blast
  from phys_put_steps [OF ok assms(6-9), of ispmap] obtain phys' where
    p: "phys_put phys me p ispmap = Ok (Refcnt (Pgs phys ! x) = 1, phys')"
    "pm_step\<^sup>*\<^sup>* (phys, own, pend) (phys', if Refcnt (Pgs phys ! x) = 1 then own - {x} else own, pend)" by blast
  show ?thesis
    using p rtranclp_trans [OF assms(5) p(2)] pm_steps_ok [OF p(2) ok] ok
    by (intro exI [of _ tot] exI [of _ phys']) (simp add: pm_ok_def del: if_split)
qed

theorem Refdown_returns_witness:
  "(\<exists>phys'. Refdown (ex_phys 1 1 1) 0 65536 = Ok (True, phys') \<and> pm_step\<^sup>*\<^sup>* (ex_phys 0 0 2, {}, {}) (phys', {}, {}))"
proof -
  have "pm_step\<^sup>*\<^sup>* ((ex_phys 0 0 2)\<lparr>Dmapinit := False, Dmapinit := True\<rparr>, {}, {}) (ex_phys 1 1 1, {0}, {})"
    unfolding ex_init_dmap by (rule ex_steps)
  moreover have "Refaddr (ex_phys 1 1 1) 65536 = Ok 0" by code_simp
  moreover have "Refcnt (Pgs (ex_phys 1 1 1) ! 0) = 1" "0 < length (percpu (ex_phys 1 1 1))" by (simp_all add: ex_phys_def ex_pgs_def)
  ultimately show ?thesis
    using Refdown_returns [OF ex_init ex_geom(1) _ ex_geom(2), of "ex_phys 1 1 1" "{0}" "{}" 0 0 65536 False]
    by (auto simp: Refdown_def ex_init_dmap)
qed

end
