(* ===== verification/Cbpage.thy ===== *)
theory Cbpage
  imports Circbuf Physmem
begin

text \<open>
  The circular buffer on the physical page allocator: \<open>mem.Physmem\<close> is the value of \<open>mem.Page_i\<close> that
  the kernel passes to \<open>Cb_init\<close>.  The contract of the interface is a locale, the life of a buffer's
  page is proved from it, and the allocator's model discharges it.
\<close>

text \<open>Copying into a buffer leaves its page alone.\<close>

lemma Copyin_second_page: "Copyin_second ui hi ti n cb u = Ok (c, e, cb', u') \<Longrightarrow> cb_p_pg cb' = cb_p_pg cb"
  by (auto simp: Copyin_second_def gbind_eq_Ok Let_def split: if_splits)

lemma Copyin_body_page: "Copyin_body ui cb u = Ok (c, e, cb', u') \<Longrightarrow> cb_p_pg cb' = cb_p_pg cb"
  by (auto simp: Copyin_body_def gbind_eq_Ok Let_def split: if_splits dest!: Copyin_second_page)

subsection \<open>The contract of the page allocator\<close>

text \<open>
  \<open>ok m H\<close>: the allocator is consistent and \<open>H\<close> are the addresses of the pages it has handed out;
  \<open>refs\<close> are their reference counts.  A new page was not handed out before and has no reference.
\<close>

locale page_provider =
  fixes pgi :: "'m page_i"
    and ok :: "'m \<Rightarrow> int set \<Rightarrow> bool"
    and refs :: "'m \<Rightarrow> int \<Rightarrow> int"
  assumes new_page: "ok m H \<Longrightarrow> pi_Refpg_new_nozero pgi m = Ok (None, m) \<or>
      (\<exists>pg p m'. pi_Refpg_new_nozero pgi m = Ok (Some (pg, p), m') \<and> length pg = 4096 \<and> p \<notin> H \<and>
         refs m' p = 0 \<and> ok m' (insert p H))"
    and ref_up: "ok m H \<Longrightarrow> p \<in> H \<Longrightarrow> refs m p < 2 ^ 31 - 1 \<Longrightarrow>
      \<exists>m'. pi_Refup pgi m p = Ok m' \<and> refs m' p = refs m p + 1 \<and> ok m' H"
    and ref_down: "ok m H \<Longrightarrow> p \<in> H \<Longrightarrow> 0 < refs m p \<Longrightarrow>
      \<exists>m'. pi_Refdown pgi m p = Ok (refs m p = 1, m') \<and> ok m' (if refs m p = 1 then H - {p} else H)"
begin

lemma ensure_page:
  assumes "ok m H" "cb_Buf cb = None" "0 < cb_bufsz cb" "cb_bufsz cb \<le> 4096"
  shows "Cb_ensure pgi cb m = Ok (- ENOMEM, cb, m) \<or>
    (\<exists>b p m'. Cb_ensure pgi cb m =
        Ok (0, cb\<lparr>cb_Buf := Some b, cb_head := 0, cb_tail := 0, cb_p_pg := p\<rparr>, m') \<and>
      int (length b) = cb_bufsz cb \<and> p \<notin> H \<and> refs m' p = 1 \<and> ok m' (insert p H))"
proof (cases "pi_Refpg_new_nozero pgi m = Ok (None, m)")
  case True
  then show ?thesis using assms(2,3) by (simp add: Cb_ensure_def)
next
  case False
  then obtain pg p m' where n: "pi_Refpg_new_nozero pgi m = Ok (Some (pg, p), m')" "length pg = 4096" "p \<notin> H"
    "refs m' p = 0" "ok m' (insert p H)" using new_page [OF assms(1)] by blast
  from ref_up [OF n(5), of p] n(4) obtain m'' where
    u: "pi_Refup pgi m' p = Ok m''" "refs m'' p = 1" "ok m'' (insert p H)" by auto
  let ?b = "take (nat (cb_bufsz cb)) pg"
  have b: "int (length ?b) = cb_bufsz cb" using n(2) assms(3,4) by simp
  then have "Cb_ensure pgi cb m = Ok (0, cb\<lparr>cb_Buf := Some ?b, cb_head := 0, cb_tail := 0, cb_p_pg := p\<rparr>, m'')"
    using assms(2-4) n(1,2) u(1) by (cases cb) (simp add: Cb_ensure_def Cb_init_phys_def)
  then show ?thesis using b n(3) u(2,3) by blast
qed

lemma release_page:
  assumes "ok m H" "cb_Buf cb \<noteq> None" "cb_p_pg cb \<in> H" "refs m (cb_p_pg cb) = 1"
  shows "\<exists>cb' m'. Cb_release pgi cb m = Ok (cb', m') \<and> cb_Buf cb' = None \<and> ok m' (H - {cb_p_pg cb})"
  using ref_down [OF assms(1,3)] assms(2,4) by (auto simp: Cb_release_def)

lemma first_Copyin:
  assumes u: "userio ui uinv pnd snk rm" "uinv u" and "ok m H" "cb_Buf cb = None" "0 < cb_bufsz cb" "cb_bufsz cb \<le> 4096"
    and e: "cb_head cb = 0" "cb_tail cb = 0"
  shows "Copyin pgi ui cb m u = Ok (0, - ENOMEM, cb, m, u) \<or>
    (\<exists>c e cb' m' u'. Copyin pgi ui cb m u = Ok (c, e, cb', m', u') \<and> uinv u' \<and> copied_in pnd cb u c e cb' u' \<and>
       cb_p_pg cb' \<notin> H \<and> refs m' (cb_p_pg cb') = 1 \<and> ok m' (insert (cb_p_pg cb') H))"
proof (cases "Cb_ensure pgi cb m = Ok (- ENOMEM, cb, m)")
  case True
  then show ?thesis by (simp add: Copyin_def)
next
  case False
  then obtain b p m' where r: "Cb_ensure pgi cb m =
        Ok (0, cb\<lparr>cb_Buf := Some b, cb_head := 0, cb_tail := 0, cb_p_pg := p\<rparr>, m')" "int (length b) = cb_bufsz cb"
      "p \<notin> H" "refs m' p = 1" "ok m' (insert p H)" using ensure_page [OF assms(3-6)] by blast
  define cb1 where "cb1 = cb\<lparr>cb_Buf := Some b, cb_head := 0, cb_tail := 0, cb_p_pg := p\<rparr>"
  have "cb_inv cb1" "cb_Buf cb1 = Some b" using r(2) assms(5) by (simp_all add: cb1_def cb_inv_def)
  from userio.Copyin_body_ok [OF u(1) this u(2)] obtain c e cb' u' where
    c: "Copyin_body ui cb1 u = Ok (c, e, cb', u')" "uinv u'" "copied_in pnd cb1 u c e cb' u'" by blast
  have "cb_p_pg cb' = p" using Copyin_body_page [OF c(1)] by (simp add: cb1_def)
  moreover
  have q: "cb_data cb1 = cb_data cb" "Left cb1 = Left cb" using e by (simp_all add: cb_data_def ring_def Left_def cb1_def)
  have "copied_in pnd cb u c e cb' u'" using c(3) unfolding copied_in_def q .
  moreover have "Copyin pgi ui cb m u = Ok (c, e, cb', m', u')" using r(1) c(1) by (simp add: Copyin_def cb1_def)
  ultimately show ?thesis using c(2) r(3-5) by auto
qed

end

subsection \<open>The allocator keeps the contract\<close>

text \<open>
  \<open>mem.Physmem\<close> as a \<open>Page_i\<close>, called on CPU \<open>me\<close>; \<open>pmem\<close> are the bytes of physical memory.
\<close>

definition phys_page :: "(pa_t \<Rightarrow> byte) \<Rightarrow> nat \<Rightarrow> physmem_t page_i" where
  "phys_page pmem me = \<lparr>
     pi_Refup = (\<lambda>phys p. Refup phys (word_of_int p)),
     pi_Refdown = (\<lambda>phys p. Refdown phys me (word_of_int p)),
     pi_Refpg_new_nozero = (\<lambda>phys. gbind (Refpg_new_nozero phys me) (\<lambda>(r, phys).
       Ok (map_option (\<lambda>p. (map (\<lambda>i. pmem (p + of_nat i)) [0..<4096], uint p)) r, phys)))\<rparr>"

text \<open>
  \<open>page_addrs\<close> are the addresses of a set of pages; \<open>phys_holds tot pend me phys H\<close> is the allocator's
  invariant with exactly the pages at \<open>H\<close> handed out.
\<close>

definition page_addrs :: "physmem_t \<Rightarrow> nat set \<Rightarrow> int set" where
  "page_addrs phys own = (\<lambda>x. uint (pg_addr phys x)) ` own"

definition phys_holds :: "nat set \<Rightarrow> nat set \<Rightarrow> nat \<Rightarrow> physmem_t \<Rightarrow> int set \<Rightarrow> bool" where
  "phys_holds tot pend me phys H \<longleftrightarrow> me < length (percpu phys) \<and>
     (\<exists>own. pm_ok tot (phys, own, pend) \<and> H = page_addrs phys own)"

definition page_refs :: "physmem_t \<Rightarrow> int \<Rightarrow> int" where
  "page_refs phys p = (case Refcnt_of phys (word_of_int p) of Ok c \<Rightarrow> c | Panic _ \<Rightarrow> 0)"

lemma pm_step_frame:
  "pm_step st st' \<Longrightarrow> startn (fst st') = startn (fst st) \<and> length (percpu (fst st')) = length (percpu (fst st)) \<and>
     length (Pgs (fst st')) = length (Pgs (fst st))"
  by (induction rule: pm_step.induct)
    (auto simp: phys_new_def Refup_def refdec_def phys_insert_def gbind_eq_Ok Let_def split: if_splits prod.splits)

lemma pm_steps_frame:
  "pm_step\<^sup>*\<^sup>* st st' \<Longrightarrow> startn (fst st') = startn (fst st) \<and> length (percpu (fst st')) = length (percpu (fst st)) \<and>
     length (Pgs (fst st')) = length (Pgs (fst st))"
  by (induction rule: rtranclp_induct) (auto dest: pm_step_frame)

lemma page_addrs_frame: "startn phys' = startn phys \<Longrightarrow> page_addrs phys' = page_addrs phys"
  by (simp add: page_addrs_def pg_addr_def fun_eq_iff)

lemma page_own:
  assumes "pm_ok tot (phys, own, pend)" "x \<in> own"
  shows "Refaddr phys (pg_addr phys x) = Ok x" "page_refs phys (uint (pg_addr phys x)) = Refcnt (Pgs phys ! x)"
proof -
  have "pm_geom phys" "x < length (Pgs phys)" using assms by (auto simp: pm_ok_def pm_inv_def)
  then show "Refaddr phys (pg_addr phys x) = Ok x" by (rule pg_addr_index)
  then show "page_refs phys (uint (pg_addr phys x)) = Refcnt (Pgs phys ! x)" by (simp add: page_refs_def Refcnt_of_def)
qed

lemma pg_addr_inj:
  "Refaddr phys (pg_addr phys x) = Ok x \<Longrightarrow> Refaddr phys (pg_addr phys y) = Ok y \<Longrightarrow>
   uint (pg_addr phys y) = uint (pg_addr phys x) \<Longrightarrow> y = x"
  by (metis word_eq_iff_unsigned go.inject(1))

lemma page_addrs_minus:
  assumes "pm_ok tot (phys, own, pend)" "x \<in> own"
  shows "page_addrs phys (own - {x}) = page_addrs phys own - {uint (pg_addr phys x)}"
proof -
  have "y = x" if "y \<in> own" "uint (pg_addr phys y) = uint (pg_addr phys x)" for y
    using pg_addr_inj page_own(1) [OF assms] page_own(1) [OF assms(1) that(1)] that(2) .
  then show ?thesis by (auto simp: page_addrs_def)
qed

lemma pg_addr_notin:
  assumes "pm_ok tot (phys, own, pend)" "x \<notin> own" "Refaddr phys (pg_addr phys x) = Ok x"
  shows "uint (pg_addr phys x) \<notin> page_addrs phys own"
  using pg_addr_inj [OF assms(3) page_own(1) [OF assms(1)]] assms(2) by (fastforce simp: page_addrs_def)

lemma phys_new_Pgs: "phys_new phys L = Ok (r, phys') \<Longrightarrow> Pgs phys' = Pgs phys"
  by (auto simp: phys_new_def gbind_eq_Ok Let_def split: if_splits prod.splits)

lemma refpg_new_Pgs: "refpg_new phys me = Ok (r, phys') \<Longrightarrow> Pgs phys' = Pgs phys"
  by (auto simp: refpg_new_def pcpu_new_def gbind_eq_Ok split: option.splits dest!: phys_new_Pgs)

lemma phys_holds_new:
  assumes h: "phys_holds tot pend me phys H"
  shows "pi_Refpg_new_nozero (phys_page pmem me) phys = Ok (None, phys) \<or>
    (\<exists>pg p phys'. pi_Refpg_new_nozero (phys_page pmem me) phys = Ok (Some (pg, p), phys') \<and> length pg = 4096 \<and>
       p \<notin> H \<and> page_refs phys' p = 0 \<and> phys_holds tot pend me phys' (insert p H))"
proof -
  obtain own where o: "pm_ok tot (phys, own, pend)" "H = page_addrs phys own" "me < length (percpu phys)"
    using h by (auto simp: phys_holds_def)
  show ?thesis
  proof (cases "refpg_new phys me = Ok (None, phys)")
    case True
    then show ?thesis by (simp add: phys_page_def Refpg_new_nozero_def)
  next
    case False
    then obtain x phys' where x: "refpg_new phys me = Ok (Some (pg_addr phys x), phys')" "x \<notin> own \<union> pend" "Refcnt (Pgs phys ! x) = 0"
      "Refaddr phys (pg_addr phys x) = Ok x" "pm_step (phys, own, pend) (phys', insert x own, pend)"
      using fresh_page_refpg [OF o(1,3)] unfolding fresh_page_def by blast
    have f: "startn phys' = startn phys" "length (percpu phys') = length (percpu phys)" using pm_step_frame [OF x(5)] by simp_all
    have ok: "pm_ok tot (phys', insert x own, pend)" by (rule pm_step_ok [OF x(5) o(1)])
    have "Pgs phys' = Pgs phys" using refpg_new_Pgs [OF x(1)] .
    then have "page_refs phys' (uint (pg_addr phys x)) = 0"
      using page_own(2) [OF ok, of x] x(3) f(1) by (simp add: pg_addr_def)
    moreover have "phys_holds tot pend me phys' (insert (uint (pg_addr phys x)) H)"
      unfolding phys_holds_def using o(2,3) f ok
      by (intro conjI exI [of _ "insert x own"]) (simp_all add: page_addrs_def pg_addr_def)
    ultimately show ?thesis
      using x(1) pg_addr_notin [OF o(1) _ x(4)] x(2) o(2) by (auto simp: phys_page_def Refpg_new_nozero_def)
  qed
qed

lemma phys_holds_up:
  assumes h: "phys_holds tot pend me phys H" and p: "p \<in> H" "page_refs phys p < 2 ^ 31 - 1"
  shows "\<exists>phys'. pi_Refup (phys_page pmem me) phys p = Ok phys' \<and> page_refs phys' p = page_refs phys p + 1 \<and>
    phys_holds tot pend me phys' H"
proof -
  obtain own x where o: "pm_ok tot (phys, own, pend)" "H = page_addrs phys own" "me < length (percpu phys)"
    and x: "x \<in> own" "p = uint (pg_addr phys x)" using h p(1) by (auto simp: phys_holds_def page_addrs_def)
  note po = page_own [OF o(1) x(1)]
  have r: "Refcnt (Pgs phys ! x) < 2 ^ 31 - 1" using p(2) po(2) x(2) by simp
  obtain fr where inv: "pm_inv tot phys fr own pend" using o(1) by (auto simp: pm_ok_def)
  from Refup_spec [OF inv x(1) po(1) r] obtain phys' where
    u: "Refup phys (pg_addr phys x) = Ok phys'" "phys' = set_pg phys x (\<lambda>pg. pg\<lparr>Refcnt := Refcnt (Pgs phys ! x) + 1\<rparr>)" by blast
  have st: "pm_step (phys, own, pend) (phys', own, pend)" by (rule pm_up [OF x(1) po(1) r u(1)])
  have f: "startn phys' = startn phys" "length (percpu phys') = length (percpu phys)" using pm_step_frame [OF st] by simp_all
  have ok: "pm_ok tot (phys', own, pend)" by (rule pm_step_ok [OF st o(1)])
  have "x < length (Pgs phys)" using inv x(1) by (auto simp: pm_inv_def)
  then have "Refcnt (Pgs phys' ! x) = Refcnt (Pgs phys ! x) + 1" unfolding u(2) by (simp add: nth_set_pg)
  then have "page_refs phys' p = page_refs phys p + 1"
    using page_own(2) [OF ok x(1)] po(2) f(1) x(2) by (simp add: pg_addr_def)
  moreover have "phys_holds tot pend me phys' H" using o f ok page_addrs_frame [OF f(1)] by (auto simp: phys_holds_def)
  ultimately show ?thesis using u(1) x(2) by (simp add: phys_page_def)
qed

lemma phys_holds_down:
  assumes h: "phys_holds tot pend me phys H" and p: "p \<in> H" "0 < page_refs phys p"
  shows "\<exists>phys'. pi_Refdown (phys_page pmem me) phys p = Ok (page_refs phys p = 1, phys') \<and>
    phys_holds tot pend me phys' (if page_refs phys p = 1 then H - {p} else H)"
proof -
  obtain own x where o: "pm_ok tot (phys, own, pend)" "H = page_addrs phys own" "me < length (percpu phys)"
    and x: "x \<in> own" "p = uint (pg_addr phys x)" using h p(1) by (auto simp: phys_holds_def page_addrs_def)
  note po = page_own [OF o(1) x(1)]
  have r: "0 < Refcnt (Pgs phys ! x)" using p(2) po(2) x(2) by simp
  define own' where "own' = (if Refcnt (Pgs phys ! x) = 1 then own - {x} else own)"
  from phys_put_steps [OF o(1,3) x(1) po(1) r, of False] obtain phys' where
    d: "phys_put phys me (pg_addr phys x) False = Ok (Refcnt (Pgs phys ! x) = 1, phys')"
      "pm_step\<^sup>*\<^sup>* (phys, own, pend) (phys', own', pend)" unfolding own'_def by blast
  have f: "startn phys' = startn phys" "length (percpu phys') = length (percpu phys)" using pm_steps_frame [OF d(2)] by simp_all
  have ok: "pm_ok tot (phys', own', pend)" by (rule pm_steps_ok [OF d(2) o(1)])
  have "page_addrs phys' own' = (if page_refs phys p = 1 then H - {p} else H)"
    using page_addrs_frame [OF f(1)] page_addrs_minus [OF o(1) x(1)] o(2) x(2) po(2) by (simp add: own'_def)
  then have "phys_holds tot pend me phys' (if page_refs phys p = 1 then H - {p} else H)"
    using ok o(3) f(2) by (auto simp: phys_holds_def)
  then show ?thesis using d(1) po(2) x(2) by (simp add: phys_page_def Refdown_def)
qed

interpretation pp: page_provider "phys_page pmem me" "phys_holds tot pend me" page_refs for pmem me tot pend
  by unfold_locales (rule phys_holds_new phys_holds_up phys_holds_down; assumption)+

subsection \<open>Properties\<close>

text \<open>
  C11: A circular buffer on the physical page allocator.  The first \<open>Copyin\<close> after \<open>Cb_init\<close> never panics:
  it either returns \<open>-ENOMEM\<close> and changes nothing, or copies as it does on an allocated buffer, into a
  page that nobody held and that now has one reference.  \<open>Cb_release\<close>, in any later state of the
  allocator that still has this one reference, gives exactly that page back.
\<close>

theorem circbuf_page_life:
  assumes "userio ui uinv pnd snk rm" "uinv u" "phys_holds tot pend me phys H"
    and "cb_Buf cb0 = None" "Cb_init cb0 sz = Ok (0, cb)"
  shows "Copyin (phys_page pmem me) ui cb phys u = Ok (0, - ENOMEM, cb, phys, u) \<or>
    (\<exists>c e cb' phys' u'. Copyin (phys_page pmem me) ui cb phys u = Ok (c, e, cb', phys', u') \<and>
       copied_in pnd cb u c e cb' u' \<and> cb_p_pg cb' \<notin> H \<and> page_refs phys' (cb_p_pg cb') = 1 \<and>
       phys_holds tot pend me phys' (insert (cb_p_pg cb') H) \<and>
       (\<forall>H2 phys2. phys_holds tot pend me phys2 (insert (cb_p_pg cb') H2) \<and> page_refs phys2 (cb_p_pg cb') = 1 \<longrightarrow>
          (\<exists>cb3 phys3. Cb_release (phys_page pmem me) cb' phys2 = Ok (cb3, phys3) \<and> cb_Buf cb3 = None \<and>
             phys_holds tot pend me phys3 (H2 - {cb_p_pg cb'}))))"
proof -
  have "cb = cb0\<lparr>cb_bufsz := sz, cb_head := 0, cb_tail := 0\<rparr>" "0 < sz" "sz \<le> 4096"
    using assms(5) by (auto simp: Cb_init_def split: if_splits)
  then have cb: "cb_Buf cb = None" "0 < cb_bufsz cb" "cb_bufsz cb \<le> 4096" "cb_head cb = 0" "cb_tail cb = 0" using assms(4) by simp_all
  have "\<exists>cb3 phys3. Cb_release (phys_page pmem me) cb' phys2 = Ok (cb3, phys3) \<and> cb_Buf cb3 = None \<and>
      phys_holds tot pend me phys3 (H2 - {cb_p_pg cb'})"
    if "copied_in pnd cb u c e cb' u'" "phys_holds tot pend me phys2 (insert (cb_p_pg cb') H2)" "page_refs phys2 (cb_p_pg cb') = 1"
    for c e cb' u' H2 phys2
    using pp.release_page [OF that(2), of cb' pmem] that(1,3) by (simp add: copied_in_def)
  then show ?thesis using pp.first_Copyin [OF assms(1-3) cb, of pmem] by blast
qed

lemma ex_holds: "\<exists>tot. phys_holds tot {} 0 (ex_phys 1 1 1) {65536}"
proof -
  obtain tot where "pm_ok tot (ex_phys 0 0 2, {}, {})"
    using Phys_init_ok [OF ex_init ex_geom(1) _ ex_geom(2)] by (auto simp: ex_init_dmap)
  then have "pm_ok tot (ex_phys 1 1 1, {0}, {})" by (rule pm_steps_ok [OF ex_steps])
  moreover have "uint (pg_addr (ex_phys 1 1 1) 0) = 65536" by code_simp
  moreover have "0 < length (percpu (ex_phys 1 1 1))" by (simp add: ex_phys_def)
  ultimately show ?thesis unfolding phys_holds_def by (intro exI conjI) (auto simp: page_addrs_def)
qed

definition ex_cb :: "int \<Rightarrow> circbuf_t" where
  "ex_cb sz = \<lparr>cb_Buf = None, cb_bufsz = sz, cb_head = 0, cb_tail = 0, cb_p_pg = 0\<rparr>"

lemma ex_Copyin_page:
  assumes "Copyin (phys_page pmem 0) ui (ex_cb 8) (ex_phys 1 1 1) u = Ok (c, e, cb', phys', u')"
  shows "cb_p_pg cb' = 69632"
proof -
  have new: "Refpg_new_nozero (ex_phys 1 1 1) 0 = Ok (Some 69632, ex_phys 1 nil_idx 0)" by code_simp
  obtain phys2 where up: "Refup (ex_phys 1 nil_idx 0) 69632 = Ok phys2"
    by (cases "Refup (ex_phys 1 nil_idx 0) 69632") (auto simp: Refup_def Refaddr_def pg2pgn_def PGSHIFT_def ex_phys_def ex_pgs_def i32_id Let_def)
  show ?thesis using assms Copyin_body_page
    by (fastforce simp: Copyin_def Cb_ensure_def Cb_init_phys_def phys_page_def ex_cb_def new up gbind_eq_Ok)
qed

theorem circbuf_page_life_witness:
  "\<exists>tot c e cb' phys' u'. Cb_init (ex_cb 0) 8 = Ok (0, ex_cb 8) \<and>
     Copyin (phys_page (\<lambda>a. 0) 0) fake_userio (ex_cb 8) (ex_phys 1 1 1) sample_fb = Ok (c, e, cb', phys', u') \<and>
     copied_in fb_fbuf (ex_cb 8) sample_fb c e cb' u' \<and> cb_p_pg cb' \<notin> {65536} \<and>
     phys_holds tot {} 0 phys' (insert (cb_p_pg cb') {65536}) \<and>
     (\<exists>cb3 phys3. Cb_release (phys_page (\<lambda>a. 0) 0) cb' phys' = Ok (cb3, phys3) \<and> cb_Buf cb3 = None \<and>
        phys_holds tot {} 0 phys3 {65536})"
proof -
  obtain tot where h: "phys_holds tot {} 0 (ex_phys 1 1 1) {65536}" using ex_holds by blast
  have i: "Cb_init (ex_cb 0) 8 = Ok (0, ex_cb 8)" "cb_Buf (ex_cb 0) = None" by (simp_all add: Cb_init_def ex_cb_def)
  have "Copyin (phys_page (\<lambda>a. 0) 0) fake_userio (ex_cb 8) (ex_phys 1 1 1) sample_fb \<noteq> Ok (0, - 12, ex_cb 8, ex_phys 1 1 1, sample_fb)"
    using ex_Copyin_page [of "\<lambda>a. 0" fake_userio sample_fb 0 "- 12" "ex_cb 8"] by (auto simp: ex_cb_def)
  then obtain c e cb' phys' u' where
    c: "Copyin (phys_page (\<lambda>a. 0) 0) fake_userio (ex_cb 8) (ex_phys 1 1 1) sample_fb = Ok (c, e, cb', phys', u')"
      "copied_in fb_fbuf (ex_cb 8) sample_fb c e cb' u'" "cb_p_pg cb' \<notin> {65536}" "page_refs phys' (cb_p_pg cb') = 1"
      "phys_holds tot {} 0 phys' (insert (cb_p_pg cb') {65536})"
    and rel: "\<And>H2 phys2. phys_holds tot {} 0 phys2 (insert (cb_p_pg cb') H2) \<Longrightarrow> page_refs phys2 (cb_p_pg cb') = 1 \<Longrightarrow>
      \<exists>cb3 phys3. Cb_release (phys_page (\<lambda>a. 0) 0) cb' phys2 = Ok (cb3, phys3) \<and> cb_Buf cb3 = None \<and>
        phys_holds tot {} 0 phys3 (H2 - {cb_p_pg cb'})"
    using circbuf_page_life [OF fake.userio_axioms _ h i(2,1), where u = sample_fb and pmem = "\<lambda>a. 0"] by blast
  have "{65536} - {cb_p_pg cb'} = {65536}" using c(3) by auto
  then show ?thesis using i(1) c rel [OF c(5,4)] by metis
qed

end
