(* ===== verification/Routes.thy ===== *)
theory Routes
  imports Inet Defs_Model Limits_Model
begin

unbundle bit_operations_syntax

text \<open>
  \<^verbatim>\<open>biscuit/src/bnet/net.go\<close>, the routing table.  A route is stored under a 64-bit key, the netmask in
  the upper half and the network number shifted down to bit 0 in the lower half; \<open>subnets\<close> lists the
  shift distances in use in ascending order, so that a lookup tries longer prefixes first.  The map is
  an association list, in which a key occurs once.  Writers build a changed copy and publish it with
  one atomic store, so that each operation is one step.
\<close>

abbreviation (input) EHOSTUNREACH :: err_t where "EHOSTUNREACH \<equiv> 65"

record rtentry_t =
  rt_myip :: Ip4_t
  rt_gwip :: Ip4_t
  rt_shift :: nat
  rt_gateway :: bool

record defgw_t =
  dg_myip :: Ip4_t
  dg_ip :: Ip4_t
  dg_valid :: bool

record routes_t =
  subnets :: "nat list"
  routes :: "(64 word \<times> rtentry_t) list"
  defgw :: defgw_t

definition routes_init :: routes_t where
  "routes_init = \<lparr>subnets = [], routes = [], defgw = \<lparr>dg_myip = 0, dg_ip = 0, dg_valid = False\<rparr>\<rparr>"

definition routes_defaultgw :: "routes_t \<Rightarrow> Ip4_t \<Rightarrow> Ip4_t \<Rightarrow> routes_t" where
  "routes_defaultgw r myip gwip = r\<lparr>defgw := \<lparr>dg_myip = myip, dg_ip = gwip, dg_valid = True\<rparr>\<rparr>"

text \<open>The search for the lowest bit of the netmask, with \<open>n\<close> turns left.\<close>

fun lsb_loop :: "32 word \<Rightarrow> nat \<Rightarrow> nat" where
  "lsb_loop m 0 = 32"
| "lsb_loop m (Suc n) = (if m AND push_bit (31 - n) 1 \<noteq> 0 then 31 - n else lsb_loop m n)"

definition route_key :: "Ip4_t \<Rightarrow> Ip4_t \<Rightarrow> nat \<Rightarrow> 64 word" where
  "route_key netip netmask bt = ucast (drop_bit bt netip) OR push_bit 32 (ucast netmask)"

definition routes_insert :: "routes_t \<Rightarrow> Ip4_t \<Rightarrow> Ip4_t \<Rightarrow> Ip4_t \<Rightarrow> Ip4_t \<Rightarrow> bool \<Rightarrow> routes_t go" where
  "routes_insert r myip netip netmask gwip isgw =
     (if netmask = 0 \<or> netmask = NOT 0 \<or> netip AND netmask = 0 then Panic ''not a subnet or default gw''
      else
        let bt = lsb_loop netmask 32;
            r = (if bt \<in> set (subnets r) then r else r\<lparr>subnets := sort (subnets r @ [bt])\<rparr>);
            nrt = \<lparr>rt_myip = myip, rt_gwip = gwip, rt_shift = bt, rt_gateway = isgw\<rparr>;
            key = route_key netip netmask bt in
        if map_of (routes r) key \<noteq> None then Panic ''subnet must be unique''
        else Ok (r\<lparr>routes := (key, nrt) # routes r\<rparr>))"

definition routes_insert_gateway :: "routes_t \<Rightarrow> Ip4_t \<Rightarrow> Ip4_t \<Rightarrow> Ip4_t \<Rightarrow> Ip4_t \<Rightarrow> routes_t go" where
  "routes_insert_gateway r myip netip netmask gwip = routes_insert r myip netip netmask gwip True"

definition routes_insert_local :: "routes_t \<Rightarrow> Ip4_t \<Rightarrow> Ip4_t \<Rightarrow> Ip4_t \<Rightarrow> routes_t go" where
  "routes_insert_local r myip netip netmask = routes_insert r myip netip netmask 0 False"

definition routes_copy :: "syslimit_t \<Rightarrow> routes_t \<Rightarrow> routes_t option \<times> err_t" where
  "routes_copy sl r = (if int (length (routes r)) \<ge> Routes sl then (None, - ENOMEM) else (Some r, 0))"

definition try_key :: "Ip4_t \<Rightarrow> nat \<Rightarrow> 64 word" where
  "try_key dip s = ucast (drop_bit s dip) OR NOT (push_bit (s + 32) 1 - 1)"

fun lookup_loop :: "(64 word \<times> rtentry_t) list \<Rightarrow> Ip4_t \<Rightarrow> nat list \<Rightarrow> rtentry_t option" where
  "lookup_loop rs dip [] = None"
| "lookup_loop rs dip (s # ss) = (case map_of rs (try_key dip s) of Some rt \<Rightarrow> Some rt | None \<Rightarrow> lookup_loop rs dip ss)"

definition routes_lookup :: "routes_t \<Rightarrow> Ip4_t \<Rightarrow> Ip4_t \<times> Ip4_t \<times> err_t" where
  "routes_lookup r dip = (case lookup_loop (routes r) dip (subnets r) of
       Some rt \<Rightarrow> (rt_myip rt, if rt_gateway rt then rt_gwip rt else dip, 0)
     | None \<Rightarrow> if \<not> dg_valid (defgw r) then (0, 0, - EHOSTUNREACH) else (dg_myip (defgw r), dg_ip (defgw r), 0))"

text \<open>The published table; every writer copies, changes the copy and stores it (\<open>commit\<close>).\<close>

definition insert_gateway :: "syslimit_t \<Rightarrow> routes_t \<Rightarrow> Ip4_t \<Rightarrow> Ip4_t \<Rightarrow> Ip4_t \<Rightarrow> Ip4_t \<Rightarrow> (err_t \<times> routes_t) go" where
  "insert_gateway sl rt myip netip netmask gwip = (case routes_copy sl rt of
       (None, err) \<Rightarrow> Ok (err, rt)
     | (Some nr, _) \<Rightarrow> gbind (routes_insert_gateway nr myip netip netmask gwip) (\<lambda>nr. Ok (0, nr)))"

definition Insert_local :: "syslimit_t \<Rightarrow> routes_t \<Rightarrow> Ip4_t \<Rightarrow> Ip4_t \<Rightarrow> Ip4_t \<Rightarrow> (err_t \<times> routes_t) go" where
  "Insert_local sl rt myip netip netmask = (case routes_copy sl rt of
       (None, err) \<Rightarrow> Ok (err, rt)
     | (Some nr, _) \<Rightarrow> gbind (routes_insert_local nr myip netip netmask) (\<lambda>nr. Ok (0, nr)))"

definition Defaultgw :: "syslimit_t \<Rightarrow> routes_t \<Rightarrow> Ip4_t \<Rightarrow> Ip4_t \<Rightarrow> err_t \<times> routes_t" where
  "Defaultgw sl rt myip gwip = (case routes_copy sl rt of
       (None, err) \<Rightarrow> (err, rt)
     | (Some nr, _) \<Rightarrow> (0, routes_defaultgw nr myip gwip))"

text \<open>\<open>lip\<close> is the address of the loopback interface.\<close>

definition Lookup :: "Ip4_t \<Rightarrow> routes_t \<Rightarrow> Ip4_t \<Rightarrow> Ip4_t \<times> Ip4_t \<times> err_t" where
  "Lookup lip rt dip = (if dip = lip then (lip, lip, 0) else routes_lookup rt dip)"

subsection \<open>Specification: longest prefix first\<close>

text \<open>A route as configured: network number, prefix length and where to send.\<close>

record route =
  r_net :: Ip4_t
  r_len :: nat
  r_myip :: Ip4_t
  r_gw :: "Ip4_t option"

datatype rop = AddRoute route | SetDefault Ip4_t Ip4_t

definition prefix_mask :: "nat \<Rightarrow> Ip4_t" where
  "prefix_mask n = NOT (mask (32 - n))"

definition covers :: "Ip4_t \<Rightarrow> route \<Rightarrow> bool" where
  "covers dip e \<longleftrightarrow> dip AND prefix_mask (r_len e) = r_net e AND prefix_mask (r_len e)"

fun longest :: "route list \<Rightarrow> route option" where
  "longest [] = None"
| "longest (e # es) = (case longest es of None \<Rightarrow> Some e | Some f \<Rightarrow> Some (if r_len f < r_len e then e else f))"

text \<open>The configured routes and the default gateway.\<close>

type_synonym rspec = "route list \<times> (Ip4_t \<times> Ip4_t) option"

fun spec_op :: "int \<Rightarrow> rop \<Rightarrow> rspec \<Rightarrow> err_t \<times> rspec" where
  "spec_op lim (AddRoute e) (es, dg) = (if int (length es) \<ge> lim then (- ENOMEM, (es, dg)) else (0, (e # es, dg)))"
| "spec_op lim (SetDefault myip gwip) (es, dg) =
     (if int (length es) \<ge> lim then (- ENOMEM, (es, dg)) else (0, (es, Some (myip, gwip))))"

definition spec_lookup :: "rspec \<Rightarrow> Ip4_t \<Rightarrow> Ip4_t \<times> Ip4_t \<times> err_t" where
  "spec_lookup s dip = (case longest (filter (covers dip) (fst s)) of
       Some e \<Rightarrow> (r_myip e, (case r_gw e of Some gwip \<Rightarrow> gwip | None \<Rightarrow> dip), 0)
     | None \<Rightarrow> (case snd s of Some (myip, gwip) \<Rightarrow> (myip, gwip, 0) | None \<Rightarrow> (0, 0, - EHOSTUNREACH)))"

fun do_op :: "syslimit_t \<Rightarrow> rop \<Rightarrow> routes_t \<Rightarrow> (err_t \<times> routes_t) go" where
  "do_op sl (AddRoute e) rt = (case r_gw e of
       Some gwip \<Rightarrow> insert_gateway sl rt (r_myip e) (r_net e) (prefix_mask (r_len e)) gwip
     | None \<Rightarrow> Insert_local sl rt (r_myip e) (r_net e) (prefix_mask (r_len e)))"
| "do_op sl (SetDefault myip gwip) rt = Ok (Defaultgw sl rt myip gwip)"

subsection \<open>Netmasks and keys\<close>

lemma lsb_loop_prefix: "k < 32 \<Longrightarrow> 32 - n \<le> k \<Longrightarrow> n \<le> 32 \<Longrightarrow> lsb_loop (NOT (mask k)) n = k"
proof (induction n)
  case (Suc n)
  have "(NOT (mask k) AND push_bit (31 - n) 1 \<noteq> (0 :: 32 word)) \<longleftrightarrow> bit (NOT (mask k) :: 32 word) (31 - n)"
    by (simp only: bit_iff_and_push_bit_not_eq_0)
  also have "\<dots> \<longleftrightarrow> k \<le> 31 - n" by (simp add: bit_simps not_less) linarith
  finally show ?case using Suc by auto
qed simp

lemma try_mask: "NOT (push_bit (s + 32) 1 - 1 :: 64 word) = NOT (mask (s + 32))"
  by (simp add: mask_eq_decr_exp push_bit_eq_mult)

lemma route_key_mask: "k \<le> 32 \<Longrightarrow> route_key netip (NOT (mask k)) k = ucast (drop_bit k netip) OR NOT (mask (k + 32))"
  unfolding route_key_def by (rule bit_word_eqI) (auto simp: bit_simps)

lemma key_bits:
  "i < 64 \<Longrightarrow> bit (ucast (w :: 32 word) OR NOT (mask (k + 32)) :: 64 word) i \<longleftrightarrow> bit w i \<or> k + 32 \<le> i"
  by (auto simp: bit_simps)

lemma keys_eq:
  assumes "k < 32" "s < 32" "(ucast v OR NOT (mask (k + 32)) :: 64 word) = ucast w OR NOT (mask (s + 32))"
  shows "k = s \<and> v = (w :: 32 word)"
proof
  have b: "bit v i \<or> k + 32 \<le> i \<longleftrightarrow> bit w i \<or> s + 32 \<le> i" if "i < 64" for i
    using key_bits [OF that, of v k] key_bits [OF that, of w s] assms(3) by simp
  have h: "\<not> bit v i" "\<not> bit w i" if "32 \<le> i" for i using that by (auto dest: bit_imp_le_length)
  show "k = s" using b [of "k + 32"] b [of "s + 32"] h assms(1,2) by auto
  show "v = w"
  proof (rule bit_word_eqI)
    fix i assume "i < LENGTH(32)"
    then show "bit v i = bit w i" using b [of i] by simp
  qed
qed

lemma and_prefix_eq: "w AND NOT (mask k) = v AND NOT (mask k) \<longleftrightarrow> drop_bit k w = drop_bit k v" for w v :: "32 word"
proof
  assume "w AND NOT (mask k) = v AND NOT (mask k)"
  then have b: "bit (w AND NOT (mask k)) (k + i) = bit (v AND NOT (mask k)) (k + i)" for i by simp
  show "drop_bit k w = drop_bit k v"
  proof (rule bit_word_eqI)
    fix i show "bit (drop_bit k w) i = bit (drop_bit k v) i"
      using b [of i] bit_imp_le_length [of w "k + i"] bit_imp_le_length [of v "k + i"] by (auto simp: bit_simps)
  qed
next
  assume "drop_bit k w = drop_bit k v"
  then have b: "bit (drop_bit k w) i = bit (drop_bit k v) i" for i by simp
  show "w AND NOT (mask k) = v AND NOT (mask k)"
  proof (rule bit_word_eqI)
    fix i show "bit (w AND NOT (mask k)) i = bit (v AND NOT (mask k)) i"
      using b [of "i - k"] by (auto simp: bit_simps)
  qed
qed

lemma covers_iff: "covers dip e \<longleftrightarrow> drop_bit (32 - r_len e) dip = drop_bit (32 - r_len e) (r_net e)"
  by (simp only: covers_def prefix_mask_def and_prefix_eq)

subsection \<open>The table implements the specification\<close>

definition e_shift :: "route \<Rightarrow> nat" where "e_shift e = 32 - r_len e"

definition e_key :: "route \<Rightarrow> 64 word" where
  "e_key e = route_key (r_net e) (prefix_mask (r_len e)) (e_shift e)"

definition e_entry :: "route \<Rightarrow> rtentry_t" where
  "e_entry e = \<lparr>rt_myip = r_myip e, rt_gwip = (case r_gw e of Some gwip \<Rightarrow> gwip | None \<Rightarrow> 0), rt_shift = e_shift e,
     rt_gateway = (r_gw e \<noteq> None)\<rparr>"

definition wf_route :: "route \<Rightarrow> bool" where
  "wf_route e \<longleftrightarrow> 0 < r_len e \<and> r_len e < 32 \<and> r_net e AND prefix_mask (r_len e) \<noteq> 0"

text \<open>The table \<open>rt\<close> holds the routes and the default gateway of \<open>s\<close>.\<close>

definition rt_rel :: "routes_t \<Rightarrow> rspec \<Rightarrow> bool" where
  "rt_rel rt s \<longleftrightarrow> routes rt = map (\<lambda>e. (e_key e, e_entry e)) (fst s) \<and> distinct (map e_key (fst s)) \<and>
     sorted (subnets rt) \<and> set (subnets rt) = e_shift ` set (fst s) \<and> (\<forall>e \<in> set (fst s). wf_route e) \<and>
     (case snd s of None \<Rightarrow> \<not> dg_valid (defgw rt)
      | Some (myip, gwip) \<Rightarrow> dg_valid (defgw rt) \<and> dg_myip (defgw rt) = myip \<and> dg_ip (defgw rt) = gwip)"

lemma e_key_try:
  assumes "wf_route e" "s < 32"
  shows "e_key e = try_key dip s \<longleftrightarrow> e_shift e = s \<and> covers dip e"
proof -
  have l: "0 < r_len e" "r_len e < 32" "e_shift e < 32" using assms(1) by (auto simp: wf_route_def e_shift_def)
  have k: "e_key e = ucast (drop_bit (e_shift e) (r_net e)) OR NOT (mask (e_shift e + 32))"
    using l by (simp add: e_key_def prefix_mask_def e_shift_def route_key_mask)
  have t: "try_key dip s = ucast (drop_bit s dip) OR NOT (mask (s + 32))" unfolding try_key_def try_mask ..
  have c: "covers dip e \<longleftrightarrow> drop_bit (e_shift e) dip = drop_bit (e_shift e) (r_net e)" by (simp add: covers_iff e_shift_def)
  show ?thesis
    unfolding k t c using keys_eq [OF l(3) assms(2), of "drop_bit (e_shift e) (r_net e)" "drop_bit s dip"] by metis
qed

lemma lsb_prefix: "0 < n \<Longrightarrow> n < 32 \<Longrightarrow> lsb_loop (prefix_mask n) 32 = 32 - n"
  unfolding prefix_mask_def by (rule lsb_loop_prefix) simp_all

lemma map_of_keys:
  assumes "distinct (map e_key es)" "e \<in> set es"
  shows "map_of (map (\<lambda>e. (e_key e, e_entry e)) es) (e_key e) = Some (e_entry e)"
  using assms by (induction es) (auto intro: rev_image_eqI)

lemma map_of_keys_None: "map_of (map (\<lambda>e. (e_key e, e_entry e)) es) k = None \<longleftrightarrow> k \<notin> e_key ` set es"
  by (induction es) auto

lemma longest_None: "longest es = None \<longleftrightarrow> es = []"
  by (cases es) (auto split: option.splits)

lemma longest_Some: "longest es = Some e \<Longrightarrow> e \<in> set es \<and> (\<forall>f \<in> set es. r_len f \<le> r_len e)"
proof (induction es arbitrary: e)
  case (Cons a es)
  show ?case
  proof (cases "longest es")
    case None
    then show ?thesis using Cons.prems by (simp add: longest_None)
  next
    case (Some f)
    then show ?thesis using Cons.IH [OF Some] Cons.prems by (auto split: if_splits)
  qed
qed simp

lemma lookup_loop_first:
  assumes "sorted ss" "e_shift e \<in> set ss" "\<forall>s \<in> set ss. s < 32" "\<forall>f \<in> set es. wf_route f" "distinct (map e_key es)"
    and "e \<in> set es" "covers dip e" "\<forall>f \<in> set es. covers dip f \<longrightarrow> e_shift e \<le> e_shift f"
  shows "lookup_loop (map (\<lambda>e. (e_key e, e_entry e)) es) dip ss = Some (e_entry e)"
  using assms(1-3)
proof (induction ss)
  case (Cons s ss)
  have e: "e_key e = try_key dip (e_shift e)" using e_key_try [of e "e_shift e" dip] assms(4,6,7) by (auto simp: wf_route_def e_shift_def)
  show ?case
  proof (cases "s = e_shift e")
    case True
    then show ?thesis using map_of_keys [OF assms(5,6)] e by simp
  next
    case False
    then have lt: "s < e_shift e" "s < 32" using Cons.prems by force+
    have "try_key dip s \<notin> e_key ` set es" using e_key_try [OF _ lt(2)] assms(4,8) lt(1) by fastforce
    then show ?thesis using Cons False by (simp add: map_of_keys_None [THEN iffD2])
  qed
qed simp

lemma lookup_loop_none:
  assumes "\<forall>s \<in> set ss. s < 32" "\<forall>f \<in> set es. wf_route f \<and> \<not> covers dip f"
  shows "lookup_loop (map (\<lambda>e. (e_key e, e_entry e)) es) dip ss = None"
  using assms(1)
proof (induction ss)
  case (Cons s ss)
  then have "try_key dip s \<notin> e_key ` set es" using e_key_try assms(2) by fastforce
  then show ?case using Cons by (simp add: map_of_keys_None [THEN iffD2])
qed simp

lemma lookup_refines:
  assumes "rt_rel rt s"
  shows "routes_lookup rt dip = spec_lookup s dip"
proof -
  obtain es dg where s: "s = (es, dg)" by (cases s)
  have r: "routes rt = map (\<lambda>e. (e_key e, e_entry e)) es" "distinct (map e_key es)" "sorted (subnets rt)"
    "set (subnets rt) = e_shift ` set es" "\<forall>e \<in> set es. wf_route e" using assms by (auto simp: rt_rel_def s)
  then have b: "\<forall>k \<in> set (subnets rt). k < 32" by (auto simp: wf_route_def e_shift_def)
  show ?thesis
  proof (cases "longest (filter (covers dip) es)")
    case None
    then have "\<forall>f \<in> set es. \<not> covers dip f" by (simp add: longest_None filter_empty_conv)
    then have "lookup_loop (routes rt) dip (subnets rt) = None" unfolding r(1) using r(5) b by (intro lookup_loop_none) auto
    then show ?thesis using None assms by (auto simp: routes_lookup_def spec_lookup_def s rt_rel_def split: option.splits)
  next
    case (Some e)
    from longest_Some [OF this] have e: "e \<in> set es" "covers dip e" "\<forall>f \<in> set es. covers dip f \<longrightarrow> r_len f \<le> r_len e" by auto
    then have "\<forall>f \<in> set es. covers dip f \<longrightarrow> e_shift e \<le> e_shift f" by (auto simp: e_shift_def)
    then have "lookup_loop (routes rt) dip (subnets rt) = Some (e_entry e)"
      unfolding r(1) using r e b by (intro lookup_loop_first) auto
    then show ?thesis using Some by (simp add: routes_lookup_def spec_lookup_def s e_entry_def split: option.splits)
  qed
qed

lemma routes_insert_Ok:
  assumes "routes_insert rt myip netip m gwip isgw = Ok rt'"
  defines "bt \<equiv> lsb_loop m 32"
  shows "netip AND m \<noteq> 0" "map_of (routes rt) (route_key netip m bt) = None" "defgw rt' = defgw rt"
    "routes rt' = (route_key netip m bt, \<lparr>rt_myip = myip, rt_gwip = gwip, rt_shift = bt, rt_gateway = isgw\<rparr>) # routes rt"
    "subnets rt' = (if bt \<in> set (subnets rt) then subnets rt else sort (subnets rt @ [bt]))"
proof -
  define bt' where "bt' = lsb_loop m 32"
  have "netip AND m \<noteq> 0 \<and> map_of (routes rt) (route_key netip m bt') = None \<and> defgw rt' = defgw rt \<and>
    routes rt' = (route_key netip m bt', \<lparr>rt_myip = myip, rt_gwip = gwip, rt_shift = bt', rt_gateway = isgw\<rparr>) # routes rt \<and>
    subnets rt' = (if bt' \<in> set (subnets rt) then subnets rt else sort (subnets rt @ [bt']))"
    using assms(1) unfolding routes_insert_def bt'_def [symmetric] Let_def by (auto split: if_splits)
  then show "netip AND m \<noteq> 0" "map_of (routes rt) (route_key netip m bt) = None" "defgw rt' = defgw rt"
    "routes rt' = (route_key netip m bt, \<lparr>rt_myip = myip, rt_gwip = gwip, rt_shift = bt, rt_gateway = isgw\<rparr>) # routes rt"
    "subnets rt' = (if bt \<in> set (subnets rt) then subnets rt else sort (subnets rt @ [bt]))"
    unfolding bt_def bt'_def by blast+
qed

lemma insert_refines:
  assumes rel: "rt_rel rt (es, dg)" and l: "0 < r_len e" "r_len e < 32"
    and ins: "routes_insert rt (r_myip e) (r_net e) (prefix_mask (r_len e)) (case r_gw e of Some gwip \<Rightarrow> gwip | None \<Rightarrow> 0) (r_gw e \<noteq> None) = Ok rt'"
  shows "rt_rel rt' (e # es, dg)"
proof -
  have bt: "lsb_loop (prefix_mask (r_len e)) 32 = e_shift e" using lsb_prefix [OF l] by (simp add: e_shift_def)
  note i = routes_insert_Ok [OF ins, unfolded bt, folded e_key_def e_entry_def]
  have r: "routes rt = map (\<lambda>e. (e_key e, e_entry e)) es" using rel by (simp add: rt_rel_def)
  have "wf_route e" using l i(1) by (simp add: wf_route_def)
  moreover have "e_key e \<notin> e_key ` set es" using i(2) unfolding r map_of_keys_None .
  moreover have "sorted (subnets rt')" "set (subnets rt') = insert (e_shift e) (set (subnets rt))"
    using rel unfolding i(5) by (auto simp: rt_rel_def)
  ultimately show ?thesis using rel unfolding rt_rel_def i(3,4) by simp
qed

lemma do_op_refines:
  assumes "rt_rel rt s" "do_op sl op rt = Ok (err, rt')" "\<forall>e. op = AddRoute e \<longrightarrow> 0 < r_len e \<and> r_len e < 32"
  shows "\<exists>s'. spec_op (Routes sl) op s = (err, s') \<and> rt_rel rt' s'"
proof -
  obtain es dg where s: "s = (es, dg)" by (cases s)
  have l: "length (routes rt) = length es" using assms(1) by (simp add: rt_rel_def s)
  show ?thesis
  proof (cases op)
    case (AddRoute e)
    have "rt_rel rt' (e # es, dg)" if "\<not> Routes sl \<le> int (length es)"
      using that assms(2) AddRoute l assms(3)
      by (intro insert_refines [OF assms(1) [unfolded s]])
        (auto simp: insert_gateway_def Insert_local_def routes_copy_def routes_insert_gateway_def routes_insert_local_def gbind_eq_Ok
          split: option.splits)
    moreover have "err = (if Routes sl \<le> int (length es) then - ENOMEM else 0)" "Routes sl \<le> int (length es) \<Longrightarrow> rt' = rt"
      using assms(2) AddRoute l
      by (auto simp: insert_gateway_def Insert_local_def routes_copy_def gbind_eq_Ok split: option.splits if_splits)
    ultimately show ?thesis using AddRoute assms(1) s by auto
  next
    case (SetDefault myip gwip)
    then show ?thesis using assms(1,2) s l
      by (auto simp: Defaultgw_def routes_copy_def routes_defaultgw_def rt_rel_def split: if_splits)
  qed
qed

subsection \<open>Sequences of operations\<close>

fun do_ops :: "syslimit_t \<Rightarrow> rop list \<Rightarrow> routes_t \<Rightarrow> (err_t list \<times> routes_t) go" where
  "do_ops sl [] rt = Ok ([], rt)"
| "do_ops sl (op # ops) rt = gbind (do_op sl op rt) (\<lambda>(err, rt).
     gbind (do_ops sl ops rt) (\<lambda>(errs, rt). Ok (err # errs, rt)))"

fun spec_ops :: "int \<Rightarrow> rop list \<Rightarrow> rspec \<Rightarrow> err_t list \<times> rspec" where
  "spec_ops lim [] s = ([], s)"
| "spec_ops lim (op # ops) s = (let (err, s) = spec_op lim op s; (errs, s) = spec_ops lim ops s in (err # errs, s))"

text \<open>The routes that are added are subnets, and no two have the same prefix.\<close>

definition same_prefix :: "route \<Rightarrow> route \<Rightarrow> bool" where
  "same_prefix e f \<longleftrightarrow> r_len e = r_len f \<and> covers (r_net e) f"

fun fresh_routes :: "route list \<Rightarrow> rop list \<Rightarrow> bool" where
  "fresh_routes es [] \<longleftrightarrow> True"
| "fresh_routes es (AddRoute e # ops) \<longleftrightarrow> wf_route e \<and> (\<forall>f \<in> set es. \<not> same_prefix e f) \<and> fresh_routes (e # es) ops"
| "fresh_routes es (SetDefault _ _ # ops) \<longleftrightarrow> fresh_routes es ops"

lemma fresh_routes_mono: "fresh_routes es ops \<Longrightarrow> set es' \<subseteq> set es \<Longrightarrow> fresh_routes es' ops"
proof (induction es ops arbitrary: es' rule: fresh_routes.induct)
  case (2 es e ops)
  have "set (e # es') \<subseteq> set (e # es)" using "2.prems"(2) by auto
  then have "fresh_routes (e # es') ops" using "2.IH" "2.prems"(1) by simp
  then show ?case using "2.prems" by auto
qed auto

lemma prefix_mask_ne: "0 < n \<Longrightarrow> n < 32 \<Longrightarrow> prefix_mask n \<noteq> 0 \<and> prefix_mask n \<noteq> NOT 0"
proof -
  assume n: "0 < n" "n < 32"
  have "bit (prefix_mask n) 31" "\<not> bit (prefix_mask n) 0" using n by (auto simp: prefix_mask_def bit_simps)
  moreover have "bit (NOT 0 :: 32 word) 0" "\<not> bit (0 :: 32 word) 31" by (simp_all add: bit_simps)
  ultimately show ?thesis by metis
qed

lemma insert_total:
  assumes rel: "rt_rel rt (es, dg)" and e: "wf_route e" "\<forall>f \<in> set es. \<not> same_prefix e f"
  shows "\<exists>rt'. routes_insert rt myip (r_net e) (prefix_mask (r_len e)) gwip isgw = Ok rt'"
proof -
  have l: "0 < r_len e" "r_len e < 32" "r_net e AND prefix_mask (r_len e) \<noteq> 0" using e(1) by (simp_all add: wf_route_def)
  have k: "e_key e = try_key (r_net e) (e_shift e)" using e_key_try [OF e(1), of "e_shift e" "r_net e"] l by (simp add: e_shift_def covers_def)
  have r: "routes rt = map (\<lambda>e. (e_key e, e_entry e)) es" "\<forall>f \<in> set es. wf_route f" using rel by (auto simp: rt_rel_def)
  have "e_key f \<noteq> e_key e" if "f \<in> set es" for f
  proof -
    have f: "wf_route f" "\<not> same_prefix e f" using that r(2) e(2) by auto
    have "e_shift f \<noteq> e_shift e \<or> \<not> covers (r_net e) f" using f l by (auto simp: same_prefix_def e_shift_def wf_route_def)
    then show ?thesis unfolding k using e_key_try [OF f(1), of "e_shift e" "r_net e"] l by (auto simp: e_shift_def)
  qed
  then have "map_of (routes rt) (e_key e) = None" unfolding r(1) map_of_keys_None by fastforce
  then have "map_of (routes rt) (route_key (r_net e) (prefix_mask (r_len e)) (lsb_loop (prefix_mask (r_len e)) 32)) = None"
    using lsb_prefix [OF l(1,2)] by (simp add: e_key_def e_shift_def)
  then show ?thesis using prefix_mask_ne [OF l(1,2)] l(3) by (simp add: routes_insert_def Let_def)
qed

lemma do_op_total:
  assumes "rt_rel rt (es, dg)" "fresh_routes es (op # ops)"
  shows "\<exists>err rt'. do_op sl op rt = Ok (err, rt')"
proof (cases op)
  case (AddRoute e)
  then have "wf_route e" "\<forall>f \<in> set es. \<not> same_prefix e f" using assms(2) by simp_all
  from insert_total [OF assms(1) this] show ?thesis
    using AddRoute
    by (auto simp: insert_gateway_def Insert_local_def routes_copy_def routes_insert_gateway_def routes_insert_local_def split: option.splits)
qed simp

lemma do_ops_refines:
  assumes "rt_rel rt s" "fresh_routes (fst s) ops"
  shows "\<exists>errs rt' s'. do_ops sl ops rt = Ok (errs, rt') \<and> spec_ops (Routes sl) ops s = (errs, s') \<and> rt_rel rt' s'"
  using assms
proof (induction ops arbitrary: rt s)
  case (Cons op ops)
  obtain es dg where s: "s = (es, dg)" by (cases s)
  from do_op_total [of rt es dg op ops sl] Cons.prems obtain err rt1 where d: "do_op sl op rt = Ok (err, rt1)" by (auto simp: s)
  have "\<forall>e. op = AddRoute e \<longrightarrow> 0 < r_len e \<and> r_len e < 32" using Cons.prems(2) by (auto simp: wf_route_def)
  from do_op_refines [OF Cons.prems(1) d this] obtain s1 where s1: "spec_op (Routes sl) op s = (err, s1)" "rt_rel rt1 s1" by blast
  have "fresh_routes (fst s1) ops"
    using Cons.prems(2) s1(1) by (cases op) (auto simp: s split: if_splits elim: fresh_routes_mono)
  from Cons.IH [OF s1(2) this] show ?case using d s1(1) by auto
qed simp

subsection \<open>Properties\<close>

text \<open>
  C12: Any sequence of route and default-gateway insertions with distinct subnet prefixes, starting from
  an empty table, runs without panicking and returns the errors of the specification (\<open>-ENOMEM\<close> exactly
  when the table is full), and \<open>Lookup\<close> then gives for every destination the route with the longest
  prefix that covers it, otherwise the default gateway, otherwise \<open>-EHOSTUNREACH\<close>.
\<close>

theorem routes_longest_prefix:
  assumes "fresh_routes [] ops"
  shows "\<exists>errs rt s. do_ops sl ops routes_init = Ok (errs, rt) \<and> spec_ops (Routes sl) ops ([], None) = (errs, s) \<and>
    (\<forall>dip. Lookup lip rt dip = (if dip = lip then (lip, lip, 0) else spec_lookup s dip))"
proof -
  have "rt_rel routes_init ([], None)" by (simp add: rt_rel_def routes_init_def)
  from do_ops_refines [OF this, of ops sl] assms obtain errs rt s where
    r: "do_ops sl ops routes_init = Ok (errs, rt)" "spec_ops (Routes sl) ops ([], None) = (errs, s)" "rt_rel rt s" by auto
  then show ?thesis using lookup_refines [OF r(3)] by (auto simp: Lookup_def)
qed

text \<open>Two nested subnets and a default gateway: 10.0.0.0/8 by a gateway, 10.1.0.0/16 local.\<close>

definition ex_routes :: "rop list" where
  "ex_routes = [AddRoute \<lparr>r_net = 0x0a000000, r_len = 8, r_myip = 1, r_gw = Some 2\<rparr>,
     AddRoute \<lparr>r_net = 0x0a010000, r_len = 16, r_myip = 3, r_gw = None\<rparr>, SetDefault 4 5]"

lemma ex_routes_fresh: "fresh_routes [] ex_routes"
  by code_simp

lemma ex_routes_spec:
  "spec_ops 32 ex_routes ([], None) = ([0, 0, 0], ([\<lparr>r_net = 0x0a010000, r_len = 16, r_myip = 3, r_gw = None\<rparr>,
     \<lparr>r_net = 0x0a000000, r_len = 8, r_myip = 1, r_gw = Some 2\<rparr>], Some (4, 5)))"
  by code_simp

theorem routes_longest_prefix_witness:
  "\<exists>rt. do_ops MkSysLimit ex_routes routes_init = Ok ([0, 0, 0], rt) \<and> Lookup 0x7f000001 rt 0x0a010203 = (3, 0x0a010203, 0) \<and>
     Lookup 0x7f000001 rt 0x0a020203 = (1, 2, 0) \<and> Lookup 0x7f000001 rt 0x08080808 = (4, 5, 0)"
proof -
  define s :: rspec where "s = ([\<lparr>r_net = 0x0a010000, r_len = 16, r_myip = 3, r_gw = None\<rparr>,
     \<lparr>r_net = 0x0a000000, r_len = 8, r_myip = 1, r_gw = Some 2\<rparr>], Some (4, 5))"
  have l: "spec_lookup s 0x0a010203 = (3, 0x0a010203, 0)" "spec_lookup s 0x0a020203 = (1, 2, 0)"
    "spec_lookup s 0x08080808 = (4, 5, 0)" unfolding s_def by code_simp+
  have "Routes MkSysLimit = 32" by (simp add: MkSysLimit_def)
  then show ?thesis
    using routes_longest_prefix [OF ex_routes_fresh, of MkSysLimit "0x7f000001"] ex_routes_spec l by (auto simp: s_def)
qed

end
