(* ===== verification/Arp.thy ===== *)
theory Arp
  imports Tcpopt Defs_Model Limits_Model "HOL-Library.AList"
begin

unbundle bit_operations_syntax

text \<open>
  \<^verbatim>\<open>biscuit/src/bnet/net.go\<close>, address resolution: the ARP table with the threads that wait for an answer,
  and the handler of received ARP packets.

  The two Go maps are association lists in which a key occurs once.  \<open>range\<close> visits a map in an order
  that the runtime chooses: \<open>ord\<close> gives it from the keys.  Times are nanoseconds, and \<open>now\<close> is what
  \<open>time.Now()\<close> returns during one call.  A channel is a number; waking a thread is sending to its channel.
  \<open>Arp_resolve\<close> blocks in the middle, so it is two steps, \<open>arp_try\<close> up to the \<open>select\<close> and \<open>arp_resume\<close>
  from there, each of which runs under the table's lock.  A network card is its address, and the
  frames it is given are part of the results.
\<close>

abbreviation (input) ENETDOWN :: err_t where "ENETDOWN \<equiv> 50"
abbreviation (input) ETIMEDOUT :: err_t where "ETIMEDOUT \<equiv> 110"

type_synonym chan = nat
type_synonym frame = "Mac_t \<times> byte list"

record arprec_t =
  ar_mac :: Mac_t
  ar_expire :: int

record arptbl_t =
  am :: "(Ip4_t \<times> arprec_t) list"
  enttimeout :: int
  waiters :: "(Ip4_t \<times> chan list) list"
  waittot :: int

subsection \<open>The table\<close>

definition arp_expire :: "int \<Rightarrow> arptbl_t \<Rightarrow> arptbl_t" where
  "arp_expire now t = t\<lparr>am := filter (\<lambda>(_, v). \<not> ar_expire v < now) (am t)\<rparr>"

fun evict_resolved :: "Ip4_t list \<Rightarrow> nat \<Rightarrow> arptbl_t \<Rightarrow> nat \<times> arptbl_t" where
  "evict_resolved [] evict t = (evict, t)"
| "evict_resolved (ip # ips) evict t =
     (let (evict, t) = (if map_of (waiters t) ip = None then (evict + 1, t\<lparr>am := AList.delete ip (am t)\<rparr>) else (evict, t)) in
      if evict > 3 then (evict, t) else evict_resolved ips evict t)"

fun evict_waiting :: "Ip4_t list \<Rightarrow> nat \<Rightarrow> arptbl_t \<Rightarrow> arptbl_t" where
  "evict_waiting [] evict t = t"
| "evict_waiting (ip # ips) evict t =
     (let chans = (case map_of (waiters t) ip of Some cs \<Rightarrow> cs | None \<Rightarrow> []);
          t = t\<lparr>waiters := AList.delete ip (waiters t), waittot := waittot t - int (length chans)\<rparr> in
      if evict + 1 > 3 then t else evict_waiting ips (evict + 1) t)"

definition arp_evict :: "(Ip4_t list \<Rightarrow> Ip4_t list) \<Rightarrow> arptbl_t \<Rightarrow> arptbl_t" where
  "arp_evict ord t =
     (let (evict, t) = evict_resolved (ord (map fst (am t))) 0 t in
      if evict = 0 then evict_waiting (ord (map fst (waiters t))) 0 t else t)"

text \<open>The second result are the channels that are sent to.\<close>

definition arp_add :: "syslimit_t \<Rightarrow> (Ip4_t list \<Rightarrow> Ip4_t list) \<Rightarrow> int \<Rightarrow> Ip4_t \<Rightarrow> Mac_t \<Rightarrow> arptbl_t \<Rightarrow> arptbl_t \<times> chan list" where
  "arp_add sl ord now ip mac t =
     (let t = arp_expire now t;
          t = (if int (length (am t)) \<ge> Arpents sl then arp_evict ord t else t);
          nr = \<lparr>ar_mac = go_copy (replicate 6 0) mac, ar_expire = now + enttimeout t\<rparr>;
          t = (if map_of (am t) ip = None then t\<lparr>am := (ip, nr) # am t\<rparr> else t) in
      case map_of (waiters t) ip of
        None \<Rightarrow> (t, [])
      | Some wl \<Rightarrow> (t\<lparr>waiters := AList.delete ip (waiters t), waittot := waittot t - int (length wl)\<rparr>, wl))"

definition arp_lookup :: "int \<Rightarrow> Ip4_t \<Rightarrow> arptbl_t \<Rightarrow> arprec_t option \<times> arptbl_t" where
  "arp_lookup now ip t = (case map_of (am t) ip of
       None \<Rightarrow> (None, t)
     | Some ar \<Rightarrow> if ar_expire ar < now then (None, t\<lparr>am := AList.delete ip (am t)\<rparr>) else (Some ar, t))"

subsection \<open>Resolution\<close>

datatype arp_res = Resolved Mac_t | Failed err_t | Waiting

definition net_arp_start :: "Mac_t \<Rightarrow> Ip4_t \<Rightarrow> Ip4_t \<Rightarrow> frame list go" where
  "net_arp_start nic lip qip = gbind (Init_req zero_Arpv4 nic lip qip) (\<lambda>arp. Ok [(nic, Arpv4_Bytes arp)])"

text \<open>From the label \<open>evictrace\<close> to the \<open>select\<close>; \<open>ch\<close> is the channel that \<open>make\<close> returns.\<close>

definition arp_try :: "syslimit_t \<Rightarrow> Mac_t \<Rightarrow> int \<Rightarrow> Ip4_t \<Rightarrow> Ip4_t \<Rightarrow> chan \<Rightarrow> arptbl_t \<Rightarrow> (arp_res \<times> arptbl_t \<times> frame list) go" where
  "arp_try sl nic now sip dip ch t0 = (case arp_lookup now dip t0 of
       (Some ar, t) \<Rightarrow> Ok (Resolved (ar_mac ar), t, [])
     | (None, t) \<Rightarrow>
         if waittot t \<ge> Arpents sl then Ok (Failed (- ENOMEM), t, [])
         else (case map_of (waiters t) dip of
             None \<Rightarrow> gbind (net_arp_start nic sip dip) (\<lambda>fs.
               Ok (Waiting, t\<lparr>waiters := (dip, [ch]) # waiters t, waittot := waittot t + 1\<rparr>, fs))
           | Some wl \<Rightarrow> Ok (Waiting, t\<lparr>waiters := AList.update dip (wl @ [ch]) (waiters t), waittot := waittot t + 1\<rparr>, [])))"

text \<open>\<open>nics\<close> is \<open>Nic_lookup\<close>; \<open>lo\<close> is the loopback interface.\<close>

definition Arp_resolve :: "syslimit_t \<Rightarrow> (Ip4_t \<Rightarrow> Mac_t option) \<Rightarrow> Ip4_t \<times> Mac_t \<Rightarrow> int \<Rightarrow> Ip4_t \<Rightarrow> Ip4_t \<Rightarrow> chan \<Rightarrow> arptbl_t \<Rightarrow>
    (arp_res \<times> arptbl_t \<times> frame list) go" where
  "Arp_resolve sl nics lo now sip dip ch t = (case nics sip of
       None \<Rightarrow> Ok (Failed (- ENETDOWN), t, [])
     | Some nic \<Rightarrow> if dip = fst lo then Ok (Resolved (snd lo), t, []) else arp_try sl nic now sip dip ch t)"

text \<open>After the \<open>select\<close>; \<open>ch'\<close> is the channel of another turn.\<close>

definition arp_resume :: "syslimit_t \<Rightarrow> Mac_t \<Rightarrow> int \<Rightarrow> Ip4_t \<Rightarrow> Ip4_t \<Rightarrow> chan \<Rightarrow> chan \<Rightarrow> bool \<Rightarrow> arptbl_t \<Rightarrow>
    (arp_res \<times> arptbl_t \<times> frame list) go" where
  "arp_resume sl nic now sip dip ch ch' timeout t0 =
     (let t = t0\<lparr>waittot := waittot t0 - 1\<rparr> in
      if timeout then
        Ok (Failed (- ETIMEDOUT),
          (case map_of (waiters t) dip of
             None \<Rightarrow> t
           | Some wl \<Rightarrow>
               let wl = remove1 ch wl in
               if wl = [] then t\<lparr>waiters := AList.delete dip (waiters t)\<rparr>
               else t\<lparr>waiters := AList.update dip wl (waiters t)\<rparr>), [])
      else (case arp_lookup now dip t of
          (None, t) \<Rightarrow> arp_try sl nic now sip dip ch' t
        | (Some ar, t) \<Rightarrow> Ok (Resolved (ar_mac ar), t, [])))"

subsection \<open>Received ARP packets\<close>

text \<open>The \<open>switch\<close> on the operation.\<close>

definition arp_switch :: "syslimit_t \<Rightarrow> (Ip4_t list \<Rightarrow> Ip4_t list) \<Rightarrow> int \<Rightarrow> Mac_t \<Rightarrow> Ip4_t \<Rightarrow> Ip4_t \<Rightarrow> Mac_t \<Rightarrow> Be16 \<Rightarrow> arptbl_t \<Rightarrow>
    (arptbl_t \<times> chan list \<times> frame list) go" where
  "arp_switch sl ord now nic toip fromip frommac arpop t =
     (if arpop = Htons 2 then
        let (t, wake) = arp_add sl ord now fromip frommac t in Ok (t, wake, [])
      else if arpop = Htons 1 then
        let (t, wake) = arp_add sl ord now fromip frommac t in
        gbind (Init_reply zero_Arpv4 nic frommac toip fromip) (\<lambda>rep. Ok (t, wake, [(nic, Arpv4_Bytes rep)]))
      else Ok (t, [], []))"

definition net_arp :: "syslimit_t \<Rightarrow> (Ip4_t list \<Rightarrow> Ip4_t list) \<Rightarrow> (Ip4_t \<Rightarrow> Mac_t option) \<Rightarrow> int \<Rightarrow> byte list list \<Rightarrow> arptbl_t \<Rightarrow>
    (arptbl_t \<times> chan list \<times> frame list) go" where
  "net_arp sl ord nics now pkt t = (case pkt of
       [] \<Rightarrow> Panic ''index out of range''
     | buf0 # _ \<Rightarrow>
         if length buf0 < ARPLEN then Ok (t, [], [])
         else
           let buf = drop ETHERLEN buf0 in
           gbind (Sl2ip (drop 24 buf)) (\<lambda>toip.
           case nics toip of
             None \<Rightarrow> Ok (t, [], [])
           | Some nic \<Rightarrow>
               gbind (Sl2ip (drop 14 buf)) (\<lambda>fromip.
               arp_switch sl ord now nic toip fromip (go_copy (replicate 6 0) (drop 8 buf)) (rd16 buf 6) t)))"

subsection \<open>Well-formed tables\<close>

definition arptbl_ok :: "syslimit_t \<Rightarrow> arptbl_t \<Rightarrow> bool" where
  "arptbl_ok sl t \<longleftrightarrow> distinct (map fst (am t)) \<and> distinct (map fst (waiters t)) \<and>
     fst ` set (am t) \<inter> fst ` set (waiters t) = {} \<and> int (length (am t)) \<le> Arpents sl"

lemma map_of_None_iff: "map_of xs k = None \<longleftrightarrow> k \<notin> fst ` set xs"
  by (simp add: map_of_eq_None_iff)

lemma delete_fst [simp]: "fst ` set (AList.delete k xs) = fst ` set xs - {k}"
proof -
  have "set (map fst (AList.delete k xs)) = set (map fst xs) - {k}" unfolding AList.delete_keys by auto
  then show ?thesis by simp
qed

lemma delete_distinct [simp]: "distinct (map fst xs) \<Longrightarrow> distinct (map fst (AList.delete k xs))"
  by (simp add: AList.delete_keys distinct_removeAll)

text \<open>A table that lost entries: the same waiting threads, fewer resolved addresses, no new ones.\<close>

definition smaller :: "arptbl_t \<Rightarrow> arptbl_t \<Rightarrow> bool" where
  "smaller t' t \<longleftrightarrow> waiters t' = waiters t \<and> enttimeout t' = enttimeout t \<and> waittot t' = waittot t \<and>
     set (am t') \<subseteq> set (am t) \<and> (distinct (map fst (am t)) \<longrightarrow> distinct (map fst (am t'))) \<and> length (am t') \<le> length (am t)"

lemma smaller_refl [simp]: "smaller t t"
  by (simp add: smaller_def)

lemma smaller_trans: "smaller t3 t2 \<Longrightarrow> smaller t2 t1 \<Longrightarrow> smaller t3 t1"
  by (auto simp: smaller_def)

lemma smaller_delete [simp]: "smaller (t\<lparr>am := AList.delete ip (am t)\<rparr>) t"
  by (simp add: smaller_def AList.length_delete_le) (auto simp: AList.delete_eq)

lemma smaller_expire: "smaller (arp_expire now t) t"
  by (auto simp: smaller_def arp_expire_def distinct_map_filter)

lemma smaller_ok:
  assumes "arptbl_ok sl t" "smaller t' t"
  shows "arptbl_ok sl t'"
proof -
  have "fst ` set (am t') \<subseteq> fst ` set (am t)" using assms(2) by (auto simp: smaller_def)
  then show ?thesis using assms unfolding arptbl_ok_def smaller_def by auto
qed

lemma evict_resolved_smaller: "evict_resolved ips n t = (n', t') \<Longrightarrow> smaller t' t \<and> n \<le> n'"
proof (induction ips arbitrary: n t)
  case (Cons ip ips)
  define t1 where "t1 = (if map_of (waiters t) ip = None then t\<lparr>am := AList.delete ip (am t)\<rparr> else t)"
  define n1 where "n1 = (if map_of (waiters t) ip = None then n + 1 else n)"
  have s: "smaller t1 t" "n \<le> n1" by (simp_all add: t1_def n1_def)
  have "(if n1 > 3 then (n1, t1) else evict_resolved ips n1 t1) = (n', t')"
    using Cons.prems by (cases "map_of (waiters t) ip") (simp_all add: t1_def n1_def split: if_splits)
  then have "n' = n1 \<and> t' = t1 \<or> evict_resolved ips n1 t1 = (n', t')" by (cases "n1 > 3") simp_all
  then show ?case using s Cons.IH [of n1 t1] smaller_trans [of t' t1 t] by auto
qed simp

lemma evict_resolved_some:
  assumes "ip \<in> set (map fst (am t))" "map_of (waiters t) ip = None" "evict_resolved (ip # ips) 0 t = (n, t')"
  shows "0 < n" "length (am t') < length (am t)"
proof -
  let ?t = "t\<lparr>am := AList.delete ip (am t)\<rparr>"
  have "evict_resolved ips 1 ?t = (n, t')" using assms(2,3) by simp
  from evict_resolved_smaller [OF this] have s: "smaller t' ?t" "1 \<le> n" by simp_all
  then show "0 < n" by simp
  have "length (AList.delete ip (am t)) < length (am t)" using assms(1) by (auto simp: AList.delete_eq intro!: length_filter_less)
  then show "length (am t') < length (am t)" using s(1) by (simp add: smaller_def)
qed

text \<open>\<open>ord\<close> visits the keys of a map, each once.\<close>

definition map_order :: "(Ip4_t list \<Rightarrow> Ip4_t list) \<Rightarrow> bool" where
  "map_order ord \<longleftrightarrow> (\<forall>ks. set (ord ks) = set ks \<and> distinct (ord ks) = distinct ks)"

lemma arp_evict_ok:
  assumes "arptbl_ok sl t" "map_order ord" "am t \<noteq> []"
  shows "smaller (arp_evict ord t) t" "length (am (arp_evict ord t)) < length (am t)"
proof -
  have k: "set (ord (map fst (am t))) = fst ` set (am t)" using assms(2) by (simp add: map_order_def)
  then obtain ip ips where o: "ord (map fst (am t)) = ip # ips" using assms(3) by (cases "ord (map fst (am t))") auto
  have "ip \<in> fst ` set (am t)" using k o by auto
  then have ip: "ip \<in> set (map fst (am t))" "map_of (waiters t) ip = None"
    using assms(1) by (auto simp: map_of_None_iff arptbl_ok_def)
  obtain n t' where e: "evict_resolved (ip # ips) 0 t = (n, t')" by (cases "evict_resolved (ip # ips) 0 t")
  note s = evict_resolved_some [OF ip e] evict_resolved_smaller [OF e]
  have "arp_evict ord t = t'" unfolding arp_evict_def o using s(1) e by simp
  then show "smaller (arp_evict ord t) t" "length (am (arp_evict ord t)) < length (am t)" using s by simp_all
qed

lemma arp_make_room:
  assumes "arptbl_ok sl t" "map_order ord" "0 < Arpents sl"
  defines "t' \<equiv> (if int (length (am t)) \<ge> Arpents sl then arp_evict ord t else t)"
  shows "smaller t' t" "int (length (am t')) < Arpents sl"
proof -
  have "am t \<noteq> []" if "int (length (am t)) \<ge> Arpents sl" using that assms(3) by auto
  moreover have "int (length (am t)) \<le> Arpents sl" using assms(1) by (simp add: arptbl_ok_def)
  ultimately show "smaller t' t" "int (length (am t')) < Arpents sl"
    using arp_evict_ok [OF assms(1,2)] unfolding t'_def by (auto split: if_splits)
qed

lemma arp_add_ok:
  assumes ok: "arptbl_ok sl t" and ord: "map_order ord" and lim: "0 < Arpents sl"
  shows "arptbl_ok sl (fst (arp_add sl ord now ip mac t))"
proof -
  define t1 where "t1 = arp_expire now t"
  define t2 where "t2 = (if int (length (am t1)) \<ge> Arpents sl then arp_evict ord t1 else t1)"
  define nr where "nr = \<lparr>ar_mac = go_copy (replicate 6 0) mac, ar_expire = now + enttimeout t2\<rparr>"
  define t3 where "t3 = (if map_of (am t2) ip = None then t2\<lparr>am := (ip, nr) # am t2\<rparr> else t2)"
  have ok1: "arptbl_ok sl t1" unfolding t1_def by (rule smaller_ok [OF ok smaller_expire])
  note r = arp_make_room [OF ok1 ord lim, folded t2_def]
  have ok2: "arptbl_ok sl t2" by (rule smaller_ok [OF ok1 r(1)])
  have t3: "distinct (map fst (am t3))" "waiters t3 = waiters t2" "fst ` set (am t3) = insert ip (fst ` set (am t2))"
    "int (length (am t3)) \<le> Arpents sl"
  proof -
    have d: "distinct (map fst (am t2))" using ok2 by (simp add: arptbl_ok_def)
    show "waiters t3 = waiters t2" "int (length (am t3)) \<le> Arpents sl" using r(2) by (simp_all add: t3_def)
    show "distinct (map fst (am t3))" using d by (simp add: t3_def map_of_None_iff)
    show "fst ` set (am t3) = insert ip (fst ` set (am t2))" by (simp add: t3_def map_of_None_iff insert_absorb)
  qed
  have "fst (arp_add sl ord now ip mac t) = (case map_of (waiters t3) ip of None \<Rightarrow> t3
      | Some wl \<Rightarrow> t3\<lparr>waiters := AList.delete ip (waiters t3), waittot := waittot t3 - int (length wl)\<rparr>)"
    unfolding arp_add_def Let_def t1_def [symmetric] t2_def [symmetric] nr_def [symmetric] t3_def [symmetric]
    by (simp split: option.split)
  moreover have dj: "fst ` set (am t2) \<inter> fst ` set (waiters t2) = {}" "distinct (map fst (waiters t2))"
    using ok2 by (simp_all add: arptbl_ok_def)
  moreover have "fst ` set (am t3) \<inter> (fst ` set (waiters t3) - {ip}) = {}" unfolding t3(2,3) using dj(1) by blast
  moreover have "fst ` set (am t3) \<inter> fst ` set (waiters t3) = {}" if "map_of (waiters t3) ip = None"
    using that dj(1) unfolding map_of_None_iff t3(2,3) by blast
  ultimately show ?thesis
    using t3(1,4) by (cases "map_of (waiters t3) ip") (simp_all add: arptbl_ok_def t3(2))
qed

lemma arp_lookup_smaller: "smaller (snd (arp_lookup now ip t)) t"
  by (simp add: arp_lookup_def split: option.split)

lemma arp_lookup_None: "fst (arp_lookup now ip t) = None \<Longrightarrow> ip \<notin> fst ` set (am (snd (arp_lookup now ip t)))"
  by (auto simp: arp_lookup_def map_of_None_iff split: option.splits if_splits)

lemma update_fst: "fst ` set (AList.update k v xs) = insert k (fst ` set xs)"
  by (induction xs) auto

lemma waiters_ok:
  assumes "arptbl_ok sl t" "distinct (map fst w)" "fst ` set w \<inter> fst ` set (am t) = {}"
  shows "arptbl_ok sl (t\<lparr>waiters := w, waittot := n\<rparr>)"
  using assms by (auto simp: arptbl_ok_def)

lemma waiters_delete_ok: "arptbl_ok sl t \<Longrightarrow> arptbl_ok sl (t\<lparr>waiters := AList.delete ip (waiters t), waittot := n\<rparr>)"
proof (rule waiters_ok)
  assume ok: "arptbl_ok sl t"
  then have "fst ` set (am t) \<inter> fst ` set (waiters t) = {}" by (simp add: arptbl_ok_def)
  then show "fst ` set (AList.delete ip (waiters t)) \<inter> fst ` set (am t) = {}" unfolding delete_fst by blast
qed (simp_all add: arptbl_ok_def)

lemma waiters_update_ok:
  assumes "arptbl_ok sl t" "ip \<notin> fst ` set (am t)"
  shows "arptbl_ok sl (t\<lparr>waiters := AList.update ip wl (waiters t), waittot := n\<rparr>)"
proof (rule waiters_ok [OF assms(1)])
  have "fst ` set (am t) \<inter> fst ` set (waiters t) = {}" using assms(1) by (simp add: arptbl_ok_def)
  then show "fst ` set (AList.update ip wl (waiters t)) \<inter> fst ` set (am t) = {}" unfolding update_fst using assms(2) by blast
qed (use assms(1) in \<open>simp add: arptbl_ok_def AList.distinct_update\<close>)

lemma waiters_add_ok:
  assumes "arptbl_ok sl t" "ip \<notin> fst ` set (am t)" "map_of (waiters t) ip = None"
  shows "arptbl_ok sl (t\<lparr>waiters := (ip, wl) # waiters t, waittot := n\<rparr>)"
proof (rule waiters_ok [OF assms(1)])
  have "fst ` set (am t) \<inter> fst ` set (waiters t) = {}" using assms(1) by (simp add: arptbl_ok_def)
  then show "fst ` set ((ip, wl) # waiters t) \<inter> fst ` set (am t) = {}" using assms(2) by simp blast
qed (use assms(1,3) in \<open>simp add: arptbl_ok_def map_of_None_iff\<close>)

lemma arp_try_ok:
  assumes "arptbl_ok sl t" "arp_try sl nic now sip dip ch t = Ok (r, t', fs)"
  shows "arptbl_ok sl t'"
proof -
  obtain x t1 where l: "arp_lookup now dip t = (x, t1)" by (cases "arp_lookup now dip t")
  have ok1: "arptbl_ok sl t1" using smaller_ok [OF assms(1) arp_lookup_smaller [of now dip t]] l by simp
  show ?thesis
  proof (cases x)
    case None
    then have n: "dip \<notin> fst ` set (am t1)" using arp_lookup_None [of now dip t] l by simp
    show ?thesis
      using assms(2) l None ok1 waiters_update_ok [OF ok1 n] waiters_add_ok [OF ok1 n]
      by (auto simp: arp_try_def gbind_eq_Ok split: if_splits option.splits)
  next
    case (Some ar)
    then show ?thesis using assms(2) l ok1 by (simp add: arp_try_def)
  qed
qed

lemma arp_resume_ok:
  assumes "arptbl_ok sl t" "arp_resume sl nic now sip dip ch ch' timeout t = Ok (r, t', fs)"
  shows "arptbl_ok sl t'"
proof -
  define t1 where "t1 = t\<lparr>waittot := waittot t - 1\<rparr>"
  have ok1: "arptbl_ok sl t1" using assms(1) by (simp add: t1_def arptbl_ok_def)
  show ?thesis
  proof (cases timeout)
    case True
    note d = waiters_delete_ok [OF ok1, where ip = dip and n = "waittot t1"]
    have u: "arptbl_ok sl (t1\<lparr>waiters := AList.update dip wl (waiters t1)\<rparr>)" if "map_of (waiters t1) dip = Some wl'" for wl wl'
    proof -
      have "dip \<in> fst ` set (waiters t1)" using map_of_SomeD [OF that] by force
      then have "dip \<notin> fst ` set (am t1)" using ok1 unfolding arptbl_ok_def by blast
      from waiters_update_ok [OF ok1 this, where wl = wl and n = "waittot t1"] show ?thesis by simp
    qed
    show ?thesis
      using assms(2) ok1 d u True unfolding arp_resume_def t1_def [symmetric] Let_def
      by (cases "map_of (waiters t1) dip") (auto split: if_splits)
  next
    case False
    obtain x t2 where l: "arp_lookup now dip t1 = (x, t2)" by (cases "arp_lookup now dip t1")
    have ok2: "arptbl_ok sl t2" using smaller_ok [OF ok1 arp_lookup_smaller [of now dip t1]] l by simp
    then show ?thesis using assms(2) arp_try_ok [OF ok2] False l unfolding arp_resume_def t1_def [symmetric] Let_def
      by (auto split: option.splits)
  qed
qed

lemma arp_switch_table:
  assumes "arp_switch sl ord now nic toip fromip mac op t = Ok (t', wake, fs)"
  shows "t' = t \<or> t' = fst (arp_add sl ord now fromip mac t)"
  using assms by (cases "arp_add sl ord now fromip mac t") (auto simp: arp_switch_def gbind_eq_Ok split: if_splits)

lemma net_arp_table:
  assumes "net_arp sl ord nics now pkt t = Ok (t', wake, fs)"
  shows "t' = t \<or> (\<exists>ip mac. t' = fst (arp_add sl ord now ip mac t))"
  using assms arp_switch_table unfolding net_arp_def Let_def
  by (fastforce simp: gbind_eq_Ok split: if_splits option.splits list.splits)

subsection \<open>ARP packets\<close>

lemma go_copy_full: "length src = length dst \<Longrightarrow> go_copy dst src = src"
  by (simp add: go_copy_def)

definition ip_bytes :: "Ip4_t \<Rightarrow> byte list" where
  "ip_bytes ip = [ucast (drop_bit 24 ip), ucast (drop_bit 16 ip), ucast (drop_bit 8 ip), ucast ip]"

text \<open>What the handler reads of a frame with the given operation, sender and target.\<close>

definition arp_frame :: "16 word \<Rightarrow> Mac_t \<Rightarrow> Ip4_t \<Rightarrow> Mac_t \<Rightarrow> Ip4_t \<Rightarrow> Mac_t \<Rightarrow> byte list" where
  "arp_frame op sm sip tm tip dm = dm @ sm @ le16 (Htons 0x0806) @ le16 (Htons 1) @ le16 (Htons 0x0800) @ [6, 4]
     @ le16 (Htons op) @ sm @ ip_bytes sip @ tm @ ip_bytes tip"

lemma Init_req_frame:
  assumes "length nic = 6"
  shows "\<exists>arp. Init_req zero_Arpv4 nic sip qip = Ok arp \<and> Arpv4_Bytes arp = arp_frame 1 nic sip (replicate 6 0) qip (replicate 6 0xff)"
  using assms
  by (simp add: Init_req_def Ip2sl_def zero_Arpv4_def Arpv4_init_def zero_Etherhdr_def Let_def go_copy_full Arpv4_Bytes_def
      Etherhdr_Bytes_def arp_frame_def ip_bytes_def map_replicate_const)

lemma Init_reply_frame:
  assumes "length nic = 6" "length dm = 6"
  shows "\<exists>arp. Init_reply zero_Arpv4 nic dm sip dip = Ok arp \<and> Arpv4_Bytes arp = arp_frame 2 nic sip dm dip dm"
  using assms
  by (simp add: Init_reply_def Ip2sl_def zero_Arpv4_def Arpv4_init_def zero_Etherhdr_def Let_def go_copy_full Arpv4_Bytes_def
      Etherhdr_Bytes_def arp_frame_def ip_bytes_def)

lemma Sl2ip_bytes: "Sl2ip (ip_bytes ip @ xs) = Ok ip"
  by (rule Sl2ip_Ip2sl [of "replicate 4 0 @ xs"]) (simp add: Ip2sl_def ip_bytes_def)

lemma arp_frame_fields:
  assumes "length sm = 6" "length tm = 6" "length dm = 6"
  shows "length (arp_frame op sm sip tm tip dm) = 42" "Sl2ip (drop 24 (drop ETHERLEN (arp_frame op sm sip tm tip dm))) = Ok tip"
    "Sl2ip (drop 14 (drop ETHERLEN (arp_frame op sm sip tm tip dm))) = Ok sip"
    "go_copy (replicate 6 0) (drop 8 (drop ETHERLEN (arp_frame op sm sip tm tip dm))) = sm"
    "rd16 (drop ETHERLEN (arp_frame op sm sip tm tip dm)) 6 = Htons op"
proof -
  define b where "b = le16 (Htons 1) @ le16 (Htons 0x0800) @ [6, 4]"
  define buf where "buf = b @ le16 (Htons op) @ sm @ ip_bytes sip @ tm @ ip_bytes tip"
  have lb: "length b = 6" by (simp add: b_def)
  have d: "drop ETHERLEN (arp_frame op sm sip tm tip dm) = buf"
    using assms by (simp add: arp_frame_def ETHERLEN_def buf_def b_def)
  show "length (arp_frame op sm sip tm tip dm) = 42" using assms by (simp add: arp_frame_def ip_bytes_def)
  have "drop 24 buf = ip_bytes tip @ []" "drop 14 buf = ip_bytes sip @ tm @ ip_bytes tip" "drop 8 buf = sm @ ip_bytes sip @ tm @ ip_bytes tip"
    using assms lb by (simp_all add: buf_def ip_bytes_def)
  then show "Sl2ip (drop 24 (drop ETHERLEN (arp_frame op sm sip tm tip dm))) = Ok tip"
    "Sl2ip (drop 14 (drop ETHERLEN (arp_frame op sm sip tm tip dm))) = Ok sip"
    "go_copy (replicate 6 0) (drop 8 (drop ETHERLEN (arp_frame op sm sip tm tip dm))) = sm"
    unfolding d using Sl2ip_bytes assms(1) by (simp_all only:) (simp add: go_copy_def)
  show "rd16 (drop ETHERLEN (arp_frame op sm sip tm tip dm)) 6 = Htons op"
    unfolding d buf_def by (rule rd16_le16 [OF lb])
qed

lemma net_arp_frame:
  assumes "length sm = 6" "length tm = 6" "length dm = 6" "nics tip = Some nic"
  shows "net_arp sl ord nics now [arp_frame op sm sip tm tip dm] t = arp_switch sl ord now nic tip sip sm (Htons op) t"
proof -
  note f = arp_frame_fields [OF assms(1-3)]
  show ?thesis
    unfolding net_arp_def list.case f Let_def ARPLEN_def using assms(4) by simp
qed

subsection \<open>An entry is added\<close>

lemma map_of_smaller: "smaller t' t \<Longrightarrow> map_of (am t) ip = None \<Longrightarrow> map_of (am t') ip = None"
  unfolding map_of_None_iff smaller_def by blast

lemma arp_add_entry:
  assumes ok: "arptbl_ok sl t" and ord: "map_order ord" and lim: "0 < Arpents sl"
    and wl: "wl = (case map_of (waiters t) ip of None \<Rightarrow> [] | Some wl \<Rightarrow> wl)"
  shows "\<exists>t'. arp_add sl ord now ip mac t = (t', wl) \<and> map_of (am t') ip \<noteq> None \<and> waittot t' = waittot t - int (length wl) \<and>
    (map_of (am t) ip = None \<longrightarrow>
       map_of (am t') ip = Some \<lparr>ar_mac = go_copy (replicate 6 0) mac, ar_expire = now + enttimeout t\<rparr>)"
proof -
  define t1 where "t1 = arp_expire now t"
  define t2 where "t2 = (if int (length (am t1)) \<ge> Arpents sl then arp_evict ord t1 else t1)"
  define nr where "nr = \<lparr>ar_mac = go_copy (replicate 6 0) mac, ar_expire = now + enttimeout t2\<rparr>"
  define t3 where "t3 = (if map_of (am t2) ip = None then t2\<lparr>am := (ip, nr) # am t2\<rparr> else t2)"
  have ok1: "arptbl_ok sl t1" unfolding t1_def by (rule smaller_ok [OF ok smaller_expire])
  have sm: "smaller t2 t"
    using smaller_trans [OF arp_make_room(1) [OF ok1 ord lim, folded t2_def]] smaller_expire [of now t] unfolding t1_def .
  then have w: "waiters t3 = waiters t" "waittot t3 = waittot t" "enttimeout t2 = enttimeout t"
    by (simp_all add: smaller_def t3_def)
  have e: "map_of (am t3) ip \<noteq> None" by (simp add: t3_def)
  have n: "map_of (am t3) ip = Some nr" if "map_of (am t) ip = None" using map_of_smaller [OF sm that] by (simp add: t3_def)
  have "arp_add sl ord now ip mac t = (case map_of (waiters t3) ip of None \<Rightarrow> (t3, [])
      | Some wl \<Rightarrow> (t3\<lparr>waiters := AList.delete ip (waiters t3), waittot := waittot t3 - int (length wl)\<rparr>, wl))"
    unfolding arp_add_def Let_def t1_def [symmetric] t2_def [symmetric] nr_def [symmetric] t3_def [symmetric] ..
  then show ?thesis using e n w wl unfolding nr_def by (cases "map_of (waiters t) ip") simp_all
qed

subsection \<open>Two hosts\<close>

text \<open>
  A thread on host A asks for host B: the request, B's answer, A's handling of it and the end of
  \<open>Arp_resolve\<close> on A.
\<close>

definition arp_run :: "syslimit_t \<Rightarrow> (Ip4_t list \<Rightarrow> Ip4_t list) \<Rightarrow> (Ip4_t \<Rightarrow> Mac_t option) \<Rightarrow> (Ip4_t \<Rightarrow> Mac_t option) \<Rightarrow> Ip4_t \<times> Mac_t \<Rightarrow>
    int \<Rightarrow> Ip4_t \<Rightarrow> Ip4_t \<Rightarrow> chan \<Rightarrow> chan \<Rightarrow> arptbl_t \<Rightarrow> arptbl_t \<Rightarrow> (arp_res \<times> arptbl_t \<times> chan list \<times> arptbl_t) go" where
  "arp_run sl ord nicsA nicsB lo now ipA ipB ch ch' tA tB =
     gbind (Arp_resolve sl nicsA lo now ipA ipB ch tA) (\<lambda>(r, tA, req).
     gbind (net_arp sl ord nicsB now (map snd req) tB) (\<lambda>(tB, _, rep).
     gbind (net_arp sl ord nicsA now (map snd rep) tA) (\<lambda>(tA, wake, _).
     case nicsA ipA of None \<Rightarrow> Panic ''no nic''
     | Some nic \<Rightarrow> gbind (arp_resume sl nic now ipA ipB ch ch' False tA) (\<lambda>(r, tA, _). Ok (r, tA, wake, tB)))))"

lemma arp_run_ok:
  assumes okA: "arptbl_ok sl tA" and okB: "arptbl_ok sl tB" and ord: "map_order ord" and lim: "0 < Arpents sl"
    and mac: "nicsA ipA = Some macA" "nicsB ipB = Some macB" "length macA = 6" "length macB = 6"
    and A: "ipB \<noteq> fst lo" "map_of (am tA) ipB = None" "map_of (waiters tA) ipB = None" "waittot tA < Arpents sl" "0 \<le> enttimeout tA"
  shows "\<exists>tA' tB'. arp_run sl ord nicsA nicsB lo now ipA ipB ch ch' tA tB = Ok (Resolved macB, tA', [ch], tB') \<and>
    map_of (am tB') ipA \<noteq> None \<and> waittot tA' = waittot tA - 1"
proof -
  define tA1 where "tA1 = tA\<lparr>waiters := (ipB, [ch]) # waiters tA, waittot := waittot tA + 1\<rparr>"
  define f where "f = arp_frame 1 macA ipA (replicate 6 0) ipB (replicate 6 0xff)"
  define g where "g = arp_frame 2 macB ipB macA ipA macA"
  have start: "Arp_resolve sl nicsA lo now ipA ipB ch tA = Ok (Waiting, tA1, [(macA, f)])"
    using Init_req_frame [OF mac(3), of ipA ipB] mac(1) A
    by (auto simp: Arp_resolve_def arp_try_def arp_lookup_def net_arp_start_def tA1_def f_def)
  have okA1: "arptbl_ok sl tA1"
    unfolding tA1_def by (rule waiters_add_ok [OF okA]) (use A(2,3) in \<open>simp_all add: map_of_None_iff\<close>)
  obtain tB' wB where B: "arp_add sl ord now ipA macA tB = (tB', wB)" "map_of (am tB') ipA \<noteq> None"
    using arp_add_entry [OF okB ord lim refl, of now ipA macA] by blast
  have h: "Htons 1 \<noteq> Htons 2" by code_simp
  have reply: "net_arp sl ord nicsB now [f] tB = Ok (tB', wB, [(macB, g)])"
    using net_arp_frame [of macA "replicate 6 0" "replicate 6 0xff" nicsB ipB macB] Init_reply_frame [OF mac(4,3), of ipB ipA] mac B(1) h
    by (auto simp: f_def g_def arp_switch_def)
  obtain tA2 where A2: "arp_add sl ord now ipB macB tA1 = (tA2, [ch])" "waittot tA2 = waittot tA"
    "map_of (am tA2) ipB = Some \<lparr>ar_mac = macB, ar_expire = now + enttimeout tA\<rparr>"
    using arp_add_entry [OF okA1 ord lim, of "[ch]" ipB now macB] A(2) mac(4) by (auto simp: tA1_def go_copy_full)
  have got: "net_arp sl ord nicsA now [g] tA1 = Ok (tA2, [ch], [])"
    using net_arp_frame [of macB macA macA nicsA ipA macA] mac A2(1) by (simp add: g_def arp_switch_def)
  have "arp_resume sl macA now ipA ipB ch ch' False tA2 = Ok (Resolved macB, tA2\<lparr>waittot := waittot tA2 - 1\<rparr>, [])"
    using A2(3) A(5) by (simp add: arp_resume_def arp_lookup_def)
  then show ?thesis using start reply got mac(1) B(2) A2(2) by (simp add: arp_run_def)
qed

subsection \<open>Every table that can arise\<close>

definition arp_init :: arptbl_t where
  "arp_init = \<lparr>am = [], enttimeout = 20 * 60 * 10 ^ 9, waiters = [], waittot = 0\<rparr>"

inductive arp_step :: "syslimit_t \<Rightarrow> arptbl_t \<Rightarrow> arptbl_t \<Rightarrow> bool" for sl where
  step_packet: "map_order ord \<Longrightarrow> net_arp sl ord nics now pkt t = Ok (t', wake, fs) \<Longrightarrow> arp_step sl t t'"
| step_resolve: "Arp_resolve sl nics lo now sip dip ch t = Ok (r, t', fs) \<Longrightarrow> arp_step sl t t'"
| step_resume: "arp_resume sl nic now sip dip ch ch' timeout t = Ok (r, t', fs) \<Longrightarrow> arp_step sl t t'"

lemma arp_step_ok: "arp_step sl t t' \<Longrightarrow> 0 < Arpents sl \<Longrightarrow> arptbl_ok sl t \<Longrightarrow> arptbl_ok sl t'"
proof (induction rule: arp_step.induct)
  case (step_packet ord nics now pkt t t' wake fs)
  then show ?case using net_arp_table [OF step_packet(2)] arp_add_ok by blast
next
  case (step_resolve nics lo now sip dip ch t r t' fs)
  then show ?case using arp_try_ok by (auto simp: Arp_resolve_def split: option.splits if_splits)
next
  case step_resume
  then show ?case using arp_resume_ok by blast
qed

lemma arp_steps_ok: "(arp_step sl)\<^sup>*\<^sup>* t t' \<Longrightarrow> 0 < Arpents sl \<Longrightarrow> arptbl_ok sl t \<Longrightarrow> arptbl_ok sl t'"
  by (induction rule: rtranclp_induct) (auto intro: arp_step_ok)

lemma Sl2ip_total: "4 \<le> length b \<Longrightarrow> \<exists>ip. Sl2ip b = Ok ip"
  by (simp add: Sl2ip_def)

lemma arp_switch_total: "\<exists>r. arp_switch sl ord now nic toip fromip mac op t = Ok r"
proof -
  have "\<exists>rep. Init_reply zero_Arpv4 nic mac toip fromip = Ok rep"
    by (simp add: Init_reply_def Ip2sl_def zero_Arpv4_def Arpv4_init_def Let_def)
  then show ?thesis by (cases "arp_add sl ord now fromip mac t") (auto simp: arp_switch_def)
qed

lemma net_arp_total:
  assumes "pkt \<noteq> []"
  shows "\<exists>r. net_arp sl ord nics now pkt t = Ok r"
proof -
  obtain b rest where p: "pkt = b # rest" using assms by (cases pkt) auto
  show ?thesis
  proof (cases "length b < ARPLEN")
    case False
    then have "4 \<le> length (drop 24 (drop ETHERLEN b))" "4 \<le> length (drop 14 (drop ETHERLEN b))"
      by (simp_all add: ARPLEN_def ETHERLEN_def)
    then obtain toip fromip where i: "Sl2ip (drop 24 (drop ETHERLEN b)) = Ok toip" "Sl2ip (drop 14 (drop ETHERLEN b)) = Ok fromip"
      using Sl2ip_total by blast
    show ?thesis unfolding p net_arp_def list.case Let_def i using False arp_switch_total
      by (cases "nics toip") simp_all
  qed (simp add: p net_arp_def)
qed

subsection \<open>Properties\<close>

text \<open>
  C14: In every table that can arise from received packets and resolving threads, in any interleaving
  and for any order in which the runtime visits a map, no address has two entries, no address is both
  resolved and waited for, and there are at most \<open>Arpents\<close> entries; and no received ARP packet makes
  the handler panic.
\<close>

theorem arp_table_wf:
  assumes "0 < Arpents sl" "(arp_step sl)\<^sup>*\<^sup>* arp_init t"
  shows "arptbl_ok sl t \<and> (pkt \<noteq> [] \<longrightarrow> (\<exists>t' wake fs. net_arp sl ord nics now pkt t = Ok (t', wake, fs)))"
proof -
  have "arptbl_ok sl arp_init" using assms(1) by (simp add: arptbl_ok_def arp_init_def)
  then have "arptbl_ok sl t" by (rule arp_steps_ok [OF assms(2,1)])
  then show ?thesis using net_arp_total by fastforce
qed

text \<open>Host A is 10.0.0.1, host B is 10.0.0.2.\<close>

definition ex_nicsA :: "Ip4_t \<Rightarrow> Mac_t option" where "ex_nicsA = [0x0a000001 \<mapsto> [2, 0, 0, 0, 0, 1]]"
definition ex_nicsB :: "Ip4_t \<Rightarrow> Mac_t option" where "ex_nicsB = [0x0a000002 \<mapsto> [2, 0, 0, 0, 0, 2]]"
definition ex_lo :: "Ip4_t \<times> Mac_t" where "ex_lo = (0x7f000001, replicate 6 0)"

lemma ex_order: "map_order (\<lambda>ks. ks)"
  by (simp add: map_order_def)

lemma ex_arpents: "Arpents MkSysLimit = 1024"
  by (simp add: MkSysLimit_def)

theorem arp_table_wf_witness:
  "\<exists>t. (arp_step MkSysLimit)\<^sup>*\<^sup>* arp_init t \<and> arptbl_ok MkSysLimit t \<and> waiters t = [(0x0a000002, [7])] \<and>
     (\<exists>t' wake fs. net_arp MkSysLimit (\<lambda>ks. ks) ex_nicsA 0 [[1, 2, 3]] t = Ok (t', wake, fs))"
proof -
  obtain arp where "Init_req zero_Arpv4 [2, 0, 0, 0, 0, 1] 0x0a000001 0x0a000002 = Ok arp"
    using Init_req_frame [of "[2, 0, 0, 0, 0, 1]" "0x0a000001" "0x0a000002"] by auto
  then have "Arp_resolve MkSysLimit ex_nicsA ex_lo 0 0x0a000001 0x0a000002 7 arp_init =
      Ok (Waiting, arp_init\<lparr>waiters := [(0x0a000002, [7])], waittot := 1\<rparr>, [([2, 0, 0, 0, 0, 1], Arpv4_Bytes arp)])"
    by (simp add: Arp_resolve_def arp_try_def arp_lookup_def net_arp_start_def ex_nicsA_def ex_lo_def arp_init_def ex_arpents)
  then have s: "(arp_step MkSysLimit)\<^sup>*\<^sup>* arp_init (arp_init\<lparr>waiters := [(0x0a000002, [7])], waittot := 1\<rparr>)"
    by (blast intro: step_resolve r_into_rtranclp)
  show ?thesis
    using arp_table_wf [OF _ s, of "[[1, 2, 3]]" "\<lambda>ks. ks" ex_nicsA 0] s by (auto simp: ex_arpents)
qed

text \<open>
  C13: Two hosts on a network.  When a thread of host A resolves the address of host B, which is not in A's
  table, A broadcasts a request, B's handler records A and answers, A's handler of the answer wakes
  exactly the waiting thread, and that thread gets B's hardware address.
\<close>

theorem arp_exchange:
  assumes "(arp_step sl)\<^sup>*\<^sup>* arp_init tA" "(arp_step sl)\<^sup>*\<^sup>* arp_init tB" "map_order ord" "0 < Arpents sl"
    and "nicsA ipA = Some macA" "nicsB ipB = Some macB" "length macA = 6" "length macB = 6"
    and "ipB \<noteq> fst lo" "map_of (am tA) ipB = None" "map_of (waiters tA) ipB = None" "waittot tA < Arpents sl" "0 \<le> enttimeout tA"
  shows "\<exists>tA' tB'. arp_run sl ord nicsA nicsB lo now ipA ipB ch ch' tA tB = Ok (Resolved macB, tA', [ch], tB') \<and>
    map_of (am tB') ipA \<noteq> None"
proof -
  have i: "arptbl_ok sl arp_init" using assms(4) by (simp add: arptbl_ok_def arp_init_def)
  show ?thesis
    using arp_run_ok [where nicsA = nicsA and nicsB = nicsB and ipA = ipA and ipB = ipB, OF arp_steps_ok [OF assms(1,4) i] arp_steps_ok [OF assms(2,4) i] assms(3-13)] by blast
qed

lemma arp_init_fields: "map_of (am arp_init) ip = None" "map_of (waiters arp_init) ip = None" "waittot arp_init = 0" "0 \<le> enttimeout arp_init"
  by (simp_all add: arp_init_def)

lemma ex_macs: "ex_nicsA 0x0a000001 = Some [2, 0, 0, 0, 0, 1]" "ex_nicsB 0x0a000002 = Some [2, 0, 0, 0, 0, 2]" "0x0a000002 \<noteq> fst ex_lo"
  by (simp_all add: ex_nicsA_def ex_nicsB_def ex_lo_def)

theorem arp_exchange_witness:
  "\<exists>tA' tB'. arp_run MkSysLimit (\<lambda>ks. ks) ex_nicsA ex_nicsB ex_lo 0 0x0a000001 0x0a000002 7 8 arp_init arp_init =
     Ok (Resolved [2, 0, 0, 0, 0, 2], tA', [7], tB') \<and> map_of (am tB') 0x0a000001 \<noteq> None"
  using arp_exchange [where nicsA = ex_nicsA and nicsB = ex_nicsB and ipA = "0x0a000001" and ipB = "0x0a000002" and lo = ex_lo, OF rtranclp.rtrancl_refl rtranclp.rtrancl_refl ex_order _ ex_macs(1,2) _ _ ex_macs(3) arp_init_fields(1,2) _ arp_init_fields(4)]
    arp_init_fields(3) ex_arpents by simp



end
