(* ===== verification/Netrx.thy ===== *)
theory Netrx
  imports Arp Util_Model
begin

unbundle bit_operations_syntax

text \<open>
  \<^verbatim>\<open>biscuit/src/bnet/net.go\<close>, the entry point for received packets: \<open>Net_start\<close> with the handlers of ARP and
  ICMP packets.  A packet is a list of slices, the first of which holds the headers.  The TCP handler
  is an argument, and what is shown is about the other packets.  The state is the ARP table, the queue of the channel \<open>icmp_echos\<close> (capacity 30) and
  the state of the TCP handler; printing is left out.
\<close>

record 's netst =
  ns_arp :: arptbl_t
  ns_echos :: "byte list list"
  ns_tcp :: 's

definition icmp_cap :: nat where "icmp_cap = 30"

text \<open>The loop that copies the slices into one buffer of \<open>tlen\<close> bytes; \<open>tmp\<close> is the room left.\<close>

fun copy_out :: "byte list list \<Rightarrow> nat \<Rightarrow> byte list \<Rightarrow> byte list" where
  "copy_out [] tmp data = data"
| "copy_out (src # pkt) tmp data = copy_out pkt (tmp - min tmp (length src)) (data @ take tmp src)"

definition net_icmp :: "(Ip4_t \<Rightarrow> Mac_t option) \<Rightarrow> byte list list \<Rightarrow> int \<Rightarrow> byte list list \<Rightarrow> byte list list go" where
  "net_icmp nics pkt tlen echos = (case pkt of
       [] \<Rightarrow> Panic ''index out of range''
     | buf0 # _ \<Rightarrow>
         if length buf0 < ETHERLEN then Panic ''slice bounds out of range''
         else
           let buf = drop ETHERLEN buf0 in
           if length buf < IP4LEN + 8 then Ok echos
           else
             gbind (Sl2ip (drop 16 buf)) (\<lambda>toip.
             if nics toip = None then Ok echos
             else
               let icmp_type = buf ! IP4LEN in
               if icmp_type = 0 then gbind (Readn buf 8 (int IP4LEN + 8)) (\<lambda>_. Ok echos)
               else if icmp_type = 8 then
                 if tlen < 0 then Panic ''makeslice: len out of range''
                 else
                   let data = copy_out pkt (nat tlen) [] in
                   if int (length data) \<noteq> tlen then Panic ''total len mismatch''
                   else Ok (if length echos < icmp_cap then echos @ [data] else echos)
               else Ok echos))"

text \<open>The padding of the frame is cut off the last slice.\<close>

definition prune_pad :: "Ip4hdr_t \<Rightarrow> byte list list \<Rightarrow> int \<Rightarrow> (byte list list \<times> int) go" where
  "prune_pad ippkt pkt tlen =
     (let reallen = uint (Ntohs (Tlen ippkt)) + int ETHERLEN in
      if tlen > reallen then
        let prune = tlen - reallen; la = last pkt in
        if int (length la) < prune then Panic ''many extra bytes!''
        else Ok (butlast pkt @ [take (nat (int (length la) - prune)) la], reallen)
      else Ok (pkt, tlen))"

definition Net_start :: "syslimit_t \<Rightarrow> (Ip4_t list \<Rightarrow> Ip4_t list) \<Rightarrow> (Ip4_t \<Rightarrow> Mac_t option) \<Rightarrow>
    (byte list list \<Rightarrow> int \<Rightarrow> 's \<Rightarrow> 's go) \<Rightarrow> int \<Rightarrow> byte list list \<Rightarrow> int \<Rightarrow> 's netst \<Rightarrow> ('s netst \<times> chan list \<times> frame list) go" where
  "Net_start sl ord nics net_tcp now pkt tlen st = (case pkt of
       [] \<Rightarrow> Panic ''index out of range''
     | buf # _ \<Rightarrow>
         if length buf < ETHERLEN then Ok (st, [], [])
         else
           gbind (Readn buf 2 12) (\<lambda>e.
           let etype = Ntohs (word_of_int e) in
           if etype = 0x0806 then
             gbind (net_arp sl ord nics now pkt (ns_arp st)) (\<lambda>(t, wake, fs). Ok (st\<lparr>ns_arp := t\<rparr>, wake, fs))
           else if etype = 0x0800 then
             (case Sl2iphdr (drop ETHERLEN buf) of
                None \<Rightarrow> Ok (st, [], [])
              | Some (ippkt, _) \<Rightarrow>
                  if Vers_hdr ippkt AND 0xf0 \<noteq> 0x40 then Ok (st, [], [])
                  else if Vers_hdr ippkt AND 0xf \<noteq> 0x5 then Ok (st, [], [])
                  else gbind (prune_pad ippkt pkt tlen) (\<lambda>(pkt, tlen).
                    if Proto ippkt = 1 then
                      gbind (net_icmp nics pkt tlen (ns_echos st)) (\<lambda>es. Ok (st\<lparr>ns_echos := es\<rparr>, [], []))
                    else if Proto ippkt = 6 then
                      gbind (net_tcp pkt tlen (ns_tcp st)) (\<lambda>s. Ok (st\<lparr>ns_tcp := s\<rparr>, [], []))
                    else Ok (st, [], [])))
           else Ok (st, [], [])))"

subsection \<open>Frames in one slice\<close>

lemma copy_out_all: "length (concat pkt) \<le> n \<Longrightarrow> copy_out pkt n data = data @ concat pkt"
  by (induction pkt arbitrary: n data) auto

text \<open>The part of a frame that its IP header claims.\<close>

definition ip_part :: "byte list \<Rightarrow> byte list" where
  "ip_part buf = take (nat (uint (Ntohs (rd16 buf 16)) + 14)) buf"

text \<open>An ICMP echo reply for one of our addresses with fewer than eight bytes of data.\<close>

definition short_ping_reply :: "(Ip4_t \<Rightarrow> Mac_t option) \<Rightarrow> byte list \<Rightarrow> bool" where
  "short_ping_reply nics buf \<longleftrightarrow> length buf \<ge> 34 \<and> Ntohs (rd16 buf 12) = 0x0800 \<and> buf ! 14 = 0x45 \<and> buf ! 23 = 1 \<and>
     42 \<le> length (ip_part buf) \<and> length (ip_part buf) < 50 \<and> buf ! 34 = 0 \<and>
     (\<exists>ip. Sl2ip (drop 30 buf) = Ok ip \<and> nics ip \<noteq> None)"

lemma Sl2iphdr_frame:
  assumes "length buf \<ge> 34"
  shows "\<exists>h r. Sl2iphdr (drop ETHERLEN buf) = Some (h, r) \<and> Tlen h = rd16 buf 16 \<and> Vers_hdr h = buf ! 14 \<and> Proto h = buf ! 23"
proof -
  have l: "\<not> length (drop ETHERLEN buf) < IP4LEN" using assms by (simp add: IP4LEN_def ETHERLEN_def)
  show ?thesis unfolding Sl2iphdr_def if_not_P [OF l] using assms by (simp add: ETHERLEN_def rd16_def sub_list_def)
qed

lemma prune_one:
  assumes "Tlen h = rd16 buf 16"
  shows "prune_pad h [buf] (int (length buf)) = Ok ([ip_part buf], int (length (ip_part buf)))"
proof -
  define l where "l = uint (Ntohs (rd16 buf 16))"
  have "0 \<le> l" by (simp add: l_def)
  then show ?thesis by (auto simp: prune_pad_def Let_def ETHERLEN_def ip_part_def assms simp flip: l_def)
qed

lemma Sl2ip_take: "4 \<le> n \<Longrightarrow> Sl2ip (take n b) = Sl2ip b"
  by (simp add: Sl2ip_def min_def)

lemma net_icmp_one:
  assumes "14 \<le> length b"
  shows "(\<exists>m. net_icmp nics [b] (int (length b)) es = Panic m) \<longleftrightarrow>
    42 \<le> length b \<and> length b < 50 \<and> b ! 34 = 0 \<and> (\<exists>ip. Sl2ip (drop 30 b) = Ok ip \<and> nics ip \<noteq> None)"
proof (cases "length b < 42")
  case False
  then have "4 \<le> length (drop 30 b)" by simp
  then obtain ip where ip: "Sl2ip (drop 30 b) = Ok ip" using Sl2ip_total by blast
  have l: "\<not> length b - 14 < 28" using False by linarith
  have rd: "(\<exists>m. Readn (drop 14 b) 8 28 = Panic m) \<longleftrightarrow> length b < 50" using False by (auto simp: Readn_def Let_def)
  have c: "copy_out [b] (nat (int (length b))) [] = b" using copy_out_all [of "[b]" "length b" "[]"] by simp
  have "net_icmp nics [b] (int (length b)) es = (if nics ip = None then Ok es
      else if b ! 34 = 0 then gbind (Readn (drop 14 b) 8 28) (\<lambda>_. Ok es)
      else if b ! 34 = 8 then Ok (if length es < icmp_cap then es @ [b] else es) else Ok es)"
    using False l ip c by (simp add: net_icmp_def ETHERLEN_def IP4LEN_def Let_def)
  then show ?thesis using False ip rd by (cases "Readn (drop 14 b) 8 28") auto
next
  case True
  then have "length b - 14 < 28" using assms by linarith
  then show ?thesis using True assms by (simp add: net_icmp_def ETHERLEN_def IP4LEN_def Let_def)
qed

lemma vers_hdr: "(v AND 0xf0 \<noteq> 0x40 \<or> v AND 0xf \<noteq> 0x5) \<longleftrightarrow> v \<noteq> 0x45" for v :: byte
proof -
  have m: "(0xf0 OR 0xf :: byte) = - 1" by code_simp
  have "v = (v AND 0xf0) OR (v AND 0xf)" unfolding bit.conj_disj_distrib [symmetric] m by simp
  moreover have "(0x40 OR 0x5 :: byte) = 0x45" "(0x45 AND 0xf0 :: byte) = 0x40" "(0x45 AND 0xf :: byte) = 0x5" by code_simp+
  ultimately show ?thesis by metis
qed

lemma ip_part_icmp:
  assumes "length buf \<ge> 34"
  shows "(\<exists>m. net_icmp nics [ip_part buf] (int (length (ip_part buf))) es = Panic m) \<longleftrightarrow>
    42 \<le> length (ip_part buf) \<and> length (ip_part buf) < 50 \<and> buf ! 34 = 0 \<and> (\<exists>ip. Sl2ip (drop 30 buf) = Ok ip \<and> nics ip \<noteq> None)"
proof -
  define n where "n = nat (uint (Ntohs (rd16 buf 16)) + 14)"
  have n: "14 \<le> n" using uint_ge_0 [of "Ntohs (rd16 buf 16)"] unfolding n_def by linarith
  have p: "ip_part buf = take n buf" by (simp add: n_def ip_part_def)
  have l: "14 \<le> length (ip_part buf)" using assms n unfolding p by simp
  have "ip_part buf ! 34 = buf ! 34" "Sl2ip (drop 30 (ip_part buf)) = Sl2ip (drop 30 buf)" if "42 \<le> length (ip_part buf)"
  proof -
    have n: "42 \<le> n" using that unfolding p by simp
    then show "ip_part buf ! 34 = buf ! 34" unfolding p by simp
    show "Sl2ip (drop 30 (ip_part buf)) = Sl2ip (drop 30 buf)" unfolding p drop_take using n by (intro Sl2ip_take) linarith
  qed
  then show ?thesis unfolding net_icmp_one [OF l] by metis
qed

lemma etype_read: "length buf \<ge> 14 \<Longrightarrow> \<exists>e. Readn buf 2 12 = Ok e \<and> word_of_int e = rd16 buf 12"
  using Readn_small [of 2 12 buf] by (simp add: rd16_def)

lemma Net_start_ip:
  assumes l: "length buf \<ge> 34" "Ntohs (rd16 buf 12) = 0x0800" and tcp: "buf ! 23 \<noteq> 6"
  shows "(\<exists>m. Net_start sl ord nics net_tcp now [buf] (int (length buf)) st = Panic m) \<longleftrightarrow>
    buf ! 14 = 0x45 \<and> buf ! 23 = 1 \<and> (\<exists>m. net_icmp nics [ip_part buf] (int (length (ip_part buf))) (ns_echos st) = Panic m)"
proof -
  obtain e where e: "Readn buf 2 12 = Ok e" "word_of_int e = rd16 buf 12" using etype_read [of buf] l(1) by auto
  obtain h r where h: "Sl2iphdr (drop ETHERLEN buf) = Some (h, r)" "Tlen h = rd16 buf 16" "Vers_hdr h = buf ! 14" "Proto h = buf ! 23"
    using Sl2iphdr_frame [OF l(1)] by blast
  let ?b = "ip_part buf"
  have "Net_start sl ord nics net_tcp now [buf] (int (length buf)) st =
    (if buf ! 14 \<noteq> 0x45 then Ok (st, [], [])
     else if buf ! 23 = 1 then gbind (net_icmp nics [?b] (int (length ?b)) (ns_echos st)) (\<lambda>es. Ok (st\<lparr>ns_echos := es\<rparr>, [], []))
     else Ok (st, [], []))"
    using l tcp vers_hdr [of "buf ! 14"] by (auto simp: Net_start_def ETHERLEN_def [symmetric] e h prune_one [OF h(2)]) (simp_all add: ETHERLEN_def)
  then show ?thesis by (cases "net_icmp nics [?b] (int (length ?b)) (ns_echos st)") auto
qed

subsection \<open>Properties\<close>

text \<open>
  C39: Which received frames make the kernel panic.  For a frame in one slice that is not a TCP packet,
  \<open>Net_start\<close> panics exactly on an ICMP echo reply to one of the host's addresses
  that carries fewer than eight bytes of data: \<open>net_icmp\<close> checks for the ICMP header only, and then
  reads a time stamp behind it.
\<close>

theorem Net_start_panics_iff:
  assumes "buf ! 23 \<noteq> 6"
  shows "(\<exists>m. Net_start sl ord nics net_tcp now [buf] (int (length buf)) st = Panic m) \<longleftrightarrow> short_ping_reply nics buf"
proof (cases "length buf \<ge> 34 \<and> Ntohs (rd16 buf 12) = 0x0800")
  case True
  then have l: "length buf \<ge> 34" "Ntohs (rd16 buf 12) = 0x0800" by simp_all
  show ?thesis unfolding Net_start_ip [OF l assms] ip_part_icmp [OF l(1)] short_ping_reply_def using l by blast
next
  case False
  obtain e where e: "Readn buf 2 12 = Ok e" "word_of_int e = rd16 buf 12" if "length buf \<ge> 14" using etype_read [of buf] by blast
  have s: "Sl2iphdr (drop ETHERLEN buf) = None" if "length buf < 34" using that by (simp add: Sl2iphdr_def ETHERLEN_def IP4LEN_def)
  have "\<exists>r. net_arp sl ord nics now [buf] (ns_arp st) = Ok r" by (rule net_arp_total) simp
  then have "\<exists>r. Net_start sl ord nics net_tcp now [buf] (int (length buf)) st = Ok r"
    using False e s by (cases "length buf < 14") (auto simp: Net_start_def ETHERLEN_def Let_def)
  then show ?thesis using False by (auto simp: short_ping_reply_def)
qed

text \<open>A reply without data to 10.0.0.1, padded to 60 bytes.\<close>

definition ex_ping :: "byte list" where
  "ex_ping = [2, 0, 0, 0, 0, 1, 2, 0, 0, 0, 0, 2, 8, 0, 0x45, 0, 0, 28, 0, 0, 0, 0, 64, 1, 0, 0, 10, 0, 0, 2, 10, 0, 0, 1]
     @ replicate 26 0"

lemma ex_ping_short: "short_ping_reply ex_nicsA ex_ping"
proof -
  have "Ntohs (rd16 ex_ping 12) = 0x0800" "length (ip_part ex_ping) = 42" "Sl2ip (drop 30 ex_ping) = Ok 0x0a000001" by code_simp+
  moreover have "length ex_ping = 60" "ex_ping ! 14 = 0x45" "ex_ping ! 23 = 1" "ex_ping ! 34 = 0" by (simp_all add: ex_ping_def)
  ultimately show ?thesis using ex_macs(1) by (auto simp: short_ping_reply_def)
qed

theorem Net_start_panics_iff_witness:
  "\<exists>m. Net_start MkSysLimit (\<lambda>ks. ks) ex_nicsA (\<lambda>p n s. Ok s) 0 [ex_ping] (int (length ex_ping))
     \<lparr>ns_arp = arp_init, ns_echos = [], ns_tcp = ()\<rparr> = Panic m"
proof -
  have "ex_ping ! 23 \<noteq> 6" by (simp add: ex_ping_def)
  from Net_start_panics_iff [OF this] ex_ping_short show ?thesis by blast
qed

end
