(* ===== verification/Tcpcons.thy ===== *)
theory Tcpcons
  imports Inet
begin

unbundle bit_operations_syntax

text \<open>
  \<^verbatim>\<open>biscuit/src/bnet/net.go\<close>, the table of TCP connections, listeners and reserved ports.  A connection is a
  value with its addresses (\<open>Tcptcb_t\<close> here is only what the table reads of it), a listener any value.
  \<open>ports\<close> counts the users of a pair of address and port; a key that a Go map does not have reads as
  0.  Every operation runs under the table's lock.
\<close>

record tcpkey_t =
  k_lip :: Ip4_t
  k_rip :: Ip4_t
  k_lport :: "16 word"
  k_rport :: "16 word"

record tcplkey_t =
  lk_lip :: Ip4_t
  lk_lport :: "16 word"

record ('c, 'l) tcpcons_t =
  econns :: "tcpkey_t \<Rightarrow> 'c option"
  listns :: "tcplkey_t \<Rightarrow> 'l option"
  ports :: "tcplkey_t \<Rightarrow> int"

definition INADDR_ANY :: Ip4_t where "INADDR_ANY = 0"

abbreviation (input) lkey :: "Ip4_t \<Rightarrow> 16 word \<Rightarrow> tcplkey_t" where
  "lkey ip p \<equiv> \<lparr>lk_lip = ip, lk_lport = p\<rparr>"

definition tcpcons_init :: "('c, 'l) tcpcons_t" where
  "tcpcons_init = \<lparr>econns = (\<lambda>_. None), listns = (\<lambda>_. None), ports = (\<lambda>_. 0)\<rparr>"

definition reserve :: "('c, 'l) tcpcons_t \<Rightarrow> Ip4_t \<Rightarrow> 16 word \<Rightarrow> bool \<times> ('c, 'l) tcpcons_t" where
  "reserve tc lip lport =
     (let k = lkey lip lport; anyk = lkey INADDR_ANY lport in
      if ports tc k \<noteq> 0 \<or> ports tc anyk \<noteq> 0 then (False, tc)
      else (True, tc\<lparr>ports := (ports tc)(k := 1)\<rparr>))"

text \<open>The condition of the search loop: the port is in use, on this address or on all of them.\<close>

definition port_used :: "('c, 'l) tcpcons_t \<Rightarrow> Ip4_t \<Rightarrow> 16 word \<Rightarrow> bool" where
  "port_used tc lip p \<longleftrightarrow> ports tc (lkey lip p) OR ports tc (lkey INADDR_ANY p) > 0"

text \<open>The loop with \<open>n\<close> turns left; it stops at a port that is free.\<close>

fun eph_loop :: "('c, 'l) tcpcons_t \<Rightarrow> Ip4_t \<Rightarrow> nat \<Rightarrow> 16 word \<Rightarrow> 16 word \<times> bool" where
  "eph_loop tc lip 0 p = (p, port_used tc lip p)"
| "eph_loop tc lip (Suc n) p = (if port_used tc lip p then eph_loop tc lip n (p + 1) else (p, False))"

text \<open>\<open>rnd\<close> is the random number.\<close>

definition reserve_ephemeral :: "32 word \<Rightarrow> ('c, 'l) tcpcons_t \<Rightarrow> Ip4_t \<Rightarrow> 16 word \<times> bool \<times> ('c, 'l) tcpcons_t" where
  "reserve_ephemeral rnd tc lip =
     (let p0 = ucast rnd; p0 = (if p0 = 0 then p0 + 1 else p0);
          (p, used) = eph_loop tc lip 65536 p0 in
      if used then (0, False, tc)
      else (p, True, tc\<lparr>ports := (ports tc)(lkey lip p := 1)\<rparr>))"

definition unreserve :: "('c, 'l) tcpcons_t \<Rightarrow> Ip4_t \<Rightarrow> 16 word \<Rightarrow> ('c, 'l) tcpcons_t go" where
  "unreserve tc lip lport =
     (if ports tc (lkey lip lport) = 0 then Panic ''must be reserved''
      else Ok (tc\<lparr>ports := (ports tc)(lkey lip lport := 0)\<rparr>))"

definition tcb_insert_ports :: "('c, 'l) tcpcons_t \<Rightarrow> tcpkey_t \<Rightarrow> bool \<Rightarrow> bool \<Rightarrow> ('c, 'l) tcpcons_t go" where
  "tcb_insert_ports tc k wasany fromlisten =
     (let lk = lkey (k_lip k) (k_lport k); anyk = lkey INADDR_ANY (k_lport k) in
      if wasany then
        if ports tc anyk = 0 then Panic ''no such reservation''
        else Ok (tc\<lparr>ports := (ports tc)(anyk := 0, lk := 1)\<rparr>)
      else if fromlisten then
        let n = ports tc anyk in
        if n = 0 then Panic ''listen reservation must exist''
        else Ok (tc\<lparr>ports := (ports tc)(anyk := n + 1)\<rparr>)
      else Ok tc)"

definition tcb_insert0 :: "('c, 'l) tcpcons_t \<Rightarrow> tcpkey_t \<Rightarrow> 'c \<Rightarrow> bool \<Rightarrow> bool \<Rightarrow> ('c, 'l) tcpcons_t go" where
  "tcb_insert0 tc k tcb wasany fromlisten =
     (if wasany \<and> fromlisten then Panic ''impossible args''
      else gbind (tcb_insert_ports tc k wasany fromlisten) (\<lambda>tc.
        if ports tc (lkey (k_lip k) (k_lport k)) = 0 \<and> ports tc (lkey INADDR_ANY (k_lport k)) = 0
        then Panic ''port must be reserved''
        else if econns tc k \<noteq> None then Panic ''entry exists''
        else Ok (tc\<lparr>econns := (econns tc)(k \<mapsto> tcb)\<rparr>)))"

definition tcb_insert :: "('c, 'l) tcpcons_t \<Rightarrow> tcpkey_t \<Rightarrow> 'c \<Rightarrow> bool \<Rightarrow> ('c, 'l) tcpcons_t go" where
  "tcb_insert tc k tcb wasany = tcb_insert0 tc k tcb wasany False"

definition tcb_linsert :: "('c, 'l) tcpcons_t \<Rightarrow> tcpkey_t \<Rightarrow> 'c \<Rightarrow> ('c, 'l) tcpcons_t go" where
  "tcb_linsert tc k tcb = tcb_insert0 tc k tcb False True"

definition tcb_lookup :: "('c, 'l) tcpcons_t \<Rightarrow> tcpkey_t \<Rightarrow> ('c option \<times> 'l option) go" where
  "tcb_lookup tc tk =
     (if k_lip tk = INADDR_ANY then Panic ''localip must be known''
      else Ok (econns tc tk, case listns tc (lkey (k_lip tk) (k_lport tk)) of
          Some l \<Rightarrow> Some l | None \<Rightarrow> listns tc (lkey INADDR_ANY (k_lport tk))))"

definition tcb_del :: "('c, 'l) tcpcons_t \<Rightarrow> tcpkey_t \<Rightarrow> ('c, 'l) tcpcons_t go" where
  "tcb_del tc k =
     (if econns tc k = None then Panic ''k doesn't exist''
      else
        let tc = tc\<lparr>econns := (econns tc)(k := None)\<rparr>;
            lk = lkey (k_lip k) (k_lport k); n = ports tc lk in
        if n = 0 then
          let anyk = lkey INADDR_ANY (k_lport k); ln = ports tc anyk in
          if ln = 0 then Panic ''lk doesn't exist''
          else if ln = 1 then Ok (tc\<lparr>ports := (ports tc)(anyk := 0)\<rparr>)
          else Ok (tc\<lparr>ports := (ports tc)(anyk := ln - 1)\<rparr>)
        else if n \<noteq> 1 then Panic ''must be active connect but not 1''
        else Ok (tc\<lparr>ports := (ports tc)(lk := 0)\<rparr>))"

definition listen_insert :: "('c, 'l) tcpcons_t \<Rightarrow> Ip4_t \<Rightarrow> 16 word \<Rightarrow> 'l \<Rightarrow> ('c, 'l) tcpcons_t go" where
  "listen_insert tc lip lport tcl =
     (if lport = 0 then Panic ''address must be known''
      else if ports tc (lkey lip lport) = 0 then Panic ''must be reserved''
      else Ok (tc\<lparr>listns := (listns tc)(lkey lip lport \<mapsto> tcl)\<rparr>))"

definition listen_del :: "('c, 'l) tcpcons_t \<Rightarrow> Ip4_t \<Rightarrow> 16 word \<Rightarrow> ('c, 'l) tcpcons_t go" where
  "listen_del tc lip lport =
     (let lk = lkey lip lport; n = ports tc lk in
      if n = 0 then Panic ''must be reserved''
      else
        let tc = tc\<lparr>ports := (ports tc)(lk := if n = 1 then 0 else n - 1)\<rparr> in
        if listns tc lk = None then Panic ''no such listener''
        else Ok (tc\<lparr>listns := (listns tc)(lk := None)\<rparr>))"

subsection \<open>The search for a free port\<close>

lemma eph_loop_spec:
  "eph_loop tc lip n p = (q, u) \<Longrightarrow>
   \<exists>i \<le> n. q = p + of_nat i \<and> (\<forall>j < i. port_used tc lip (p + of_nat j)) \<and> u = port_used tc lip q \<and> (u \<longrightarrow> i = n)"
proof (induction n arbitrary: p)
  case (Suc n)
  show ?case
  proof (cases "port_used tc lip p")
    case True
    then have "eph_loop tc lip n (p + 1) = (q, u)" using Suc.prems by simp
    from Suc.IH [OF this] obtain i where i: "i \<le> n" "q = p + 1 + of_nat i" "\<forall>j < i. port_used tc lip (p + 1 + of_nat j)"
      "u = port_used tc lip q" "u \<longrightarrow> i = n" by blast
    have "port_used tc lip (p + of_nat j)" if "j < Suc i" for j
      using that i(3) True by (cases j) (simp_all add: ac_simps)
    then show ?thesis using i by (intro exI [of _ "Suc i"]) (simp add: ac_simps)
  next
    case False
    then show ?thesis using Suc.prems by (intro exI [of _ 0]) auto
  qed
qed simp

lemma all_ports: "(\<forall>j < 65536. P (p + of_nat j)) \<Longrightarrow> P (q :: 16 word)"
proof -
  assume a: "\<forall>j < 65536. P (p + of_nat j)"
  have "unat (q - p) < 65536" using unsigned_less [where 'a = nat, of "q - p"] by simp
  then have "P (p + of_nat (unat (q - p)))" using a by blast
  then show ?thesis by simp
qed

text \<open>The port the search starts at.\<close>

definition eph_start :: "32 word \<Rightarrow> 16 word" where
  "eph_start rnd = (if ucast rnd = (0 :: 16 word) then 1 else ucast rnd)"

lemma eph_result:
  assumes "eph_loop tc lip n p0 = (q, u)" "n = 65536"
  shows "if \<not> u then \<not> port_used tc lip q \<and> (\<exists>i. q = p0 + of_nat i \<and> (\<forall>j < i. port_used tc lip (p0 + of_nat j)))
    else \<forall>q. port_used tc lip q"
proof -
  from eph_loop_spec [OF assms(1)] obtain i where
    i: "q = p0 + of_nat i" "\<forall>j < i. port_used tc lip (p0 + of_nat j)" "u = port_used tc lip q" "u \<longrightarrow> i = n" by blast
  show ?thesis
  proof (cases u)
    case True
    then have "\<forall>j < 65536. port_used tc lip (p0 + of_nat j)" using i(2,4) assms(2) by metis
    then have "\<forall>q. port_used tc lip q" using all_ports by blast
    then show ?thesis using True by simp
  next
    case False
    then show ?thesis using i(1-3) by auto
  qed
qed

lemma reserve_ephemeral_spec:
  assumes "reserve_ephemeral rnd tc lip = (p, ok, tc')"
  shows "if ok then \<not> port_used tc lip p \<and> tc' = tc\<lparr>ports := (ports tc)(lkey lip p := 1)\<rparr> \<and>
      (\<exists>i. p = eph_start rnd + of_nat i \<and> (\<forall>j < i. port_used tc lip (eph_start rnd + of_nat j)))
    else p = 0 \<and> tc' = tc \<and> (\<forall>q. port_used tc lip q)"
proof -
  define n :: nat where "n = 65536"
  have s: "(if ucast rnd = (0 :: 16 word) then ucast rnd + 1 else ucast rnd) = eph_start rnd" by (simp add: eph_start_def)
  obtain q u where l: "eph_loop tc lip n (eph_start rnd) = (q, u)" by (cases "eph_loop tc lip n (eph_start rnd)")
  note r = assms [unfolded reserve_ephemeral_def Let_def s, folded n_def, unfolded l]
  then show ?thesis using eph_result [OF l n_def] by (cases u) auto
qed

subsection \<open>Properties\<close>


text \<open>Port 65535 is used and the search starts there: the port that is returned is 0.\<close>

definition ex_ports :: "(nat, nat) tcpcons_t" where
  "ex_ports = tcpcons_init\<lparr>ports := (\<lambda>_. 0)(lkey INADDR_ANY 0xffff := 1)\<rparr>"

lemma ex_ports_used: "port_used ex_ports 0x0a000001 q \<longleftrightarrow> q = 0xffff"
  by (simp add: port_used_def ex_ports_def INADDR_ANY_def)


text \<open>
  C37: A listener on one local address, which \<open>Bind\<close> allows, panics the kernel.  Its reservation is stored
  for that address, but when a connection to it is established \<open>tcb_linsert\<close> looks for the
  reservation on all addresses and does not find it.
\<close>

theorem tcb_linsert_panics:
  assumes "reserve tc lip lport = (True, tc1)" "lip \<noteq> INADDR_ANY" "listen_insert tc1 lip lport l = Ok tc2"
  shows "tcb_lookup tc2 \<lparr>k_lip = lip, k_rip = rip, k_lport = lport, k_rport = rport\<rparr> = Ok (econns tc \<lparr>k_lip = lip, k_rip = rip, k_lport = lport, k_rport = rport\<rparr>, Some l) \<and>
    tcb_linsert tc2 \<lparr>k_lip = lip, k_rip = rip, k_lport = lport, k_rport = rport\<rparr> tcb = Panic ''listen reservation must exist''"
  using assms
  by (auto simp: reserve_def listen_insert_def tcb_lookup_def tcb_linsert_def tcb_insert0_def tcb_insert_ports_def Let_def split: if_splits)

lemma ex_reserve: "reserve (tcpcons_init :: (nat, nat) tcpcons_t) 0x0a000001 80 =
    (True, tcpcons_init\<lparr>ports := (\<lambda>_. 0)(lkey 0x0a000001 80 := 1)\<rparr>)"
  by (simp add: reserve_def tcpcons_init_def)

theorem tcb_linsert_panics_witness:
  "\<exists>tc2. listen_insert (snd (reserve (tcpcons_init :: (nat, nat) tcpcons_t) 0x0a000001 80)) 0x0a000001 80 5 = Ok tc2 \<and>
     tcb_linsert tc2 \<lparr>k_lip = 0x0a000001, k_rip = 0x0a000002, k_lport = 80, k_rport = 4000\<rparr> 9 = Panic ''listen reservation must exist''"
proof -
  obtain tc2 where t: "listen_insert (tcpcons_init\<lparr>ports := (\<lambda>_. 0)(lkey 0x0a000001 80 := 1)\<rparr> :: (nat, nat) tcpcons_t) 0x0a000001 80 5 = Ok tc2"
    by (simp add: listen_insert_def)
  have "(0x0a000001 :: Ip4_t) \<noteq> INADDR_ANY" by (simp add: INADDR_ANY_def)
  from tcb_linsert_panics [OF ex_reserve this t, of "0x0a000002" 4000 9] show ?thesis using t ex_reserve by simp
qed

text \<open>
  C38: Closing two connections can panic the kernel.  \<open>reserve\<close> on all addresses does not look at
  reservations on one address, so a socket bound to all addresses can connect from the address and
  port of another connection; the two then share one reservation, the first close drops it and the
  second one panics.
\<close>

theorem shared_port_panics:
  assumes "lip \<noteq> INADDR_ANY" "rip1 \<noteq> rip2" "reserve tc lip p = (True, tc1)"
    and "k1 = \<lparr>k_lip = lip, k_rip = rip1, k_lport = p, k_rport = rp\<rparr>" "k2 = \<lparr>k_lip = lip, k_rip = rip2, k_lport = p, k_rport = rp\<rparr>"
    and "econns tc k1 = None" "econns tc k2 = None"
  shows "\<exists>tc2 tc3 tc4 tc5. tcb_insert tc1 k1 c1 False = Ok tc2 \<and> reserve tc2 INADDR_ANY p = (True, tc3) \<and>
    tcb_insert tc3 k2 c2 True = Ok tc4 \<and> tcb_del tc4 k1 = Ok tc5 \<and> tcb_del tc5 k2 = Panic ''lk doesn't exist''"
  using assms
  by (auto simp: reserve_def tcb_insert_def tcb_insert0_def tcb_insert_ports_def tcb_del_def Let_def split: if_splits)

theorem shared_port_panics_witness:
  "\<exists>tc2 tc3 tc4 tc5. tcb_insert (snd (reserve (tcpcons_init :: (nat, nat) tcpcons_t) 0x0a000001 80))
       \<lparr>k_lip = 0x0a000001, k_rip = 2, k_lport = 80, k_rport = 4000\<rparr> 7 False = Ok tc2 \<and>
     reserve tc2 INADDR_ANY 80 = (True, tc3) \<and> tcb_insert tc3 \<lparr>k_lip = 0x0a000001, k_rip = 3, k_lport = 80, k_rport = 4000\<rparr> 8 True = Ok tc4 \<and>
     tcb_del tc4 \<lparr>k_lip = 0x0a000001, k_rip = 2, k_lport = 80, k_rport = 4000\<rparr> = Ok tc5 \<and>
     tcb_del tc5 \<lparr>k_lip = 0x0a000001, k_rip = 3, k_lport = 80, k_rport = 4000\<rparr> = Panic ''lk doesn't exist''"
proof -
  have "(0x0a000001 :: Ip4_t) \<noteq> INADDR_ANY" "(2 :: Ip4_t) \<noteq> 3" by (simp_all add: INADDR_ANY_def)
  from shared_port_panics [OF this ex_reserve refl refl, of 4000 7 8] show ?thesis
    unfolding ex_reserve snd_conv by (simp add: tcpcons_init_def)
qed

end
