(* ===== verification/Spec2Isabelle.thy ===== *)
theory Spec2Isabelle
  imports Util_Model Defs_Model Paths Limits_Model Hashtable Ondisk Inode Userio Circbuf Bitmap Blockdev Log Recovery Commit Crash Inet Tcpopt Tcpsegs Tcprx Tcpstream Physmem Cbpage Routes Arp Netrx Tcpcons
begin

text \<open>
  \<^bold>\<open>Verification of parts of the Biscuit kernel\<close>

  Biscuit is a POSIX kernel in Go.  Its own code is under \<^verbatim>\<open>src/biscuit/src\<close>; the rest of the tree is the Go
  toolchain whose runtime boots it, and C programs that run on it.  The paths below are relative to
  \<^verbatim>\<open>src/biscuit/src\<close>.

  \<^bold>\<open>The program's parts and how they interact.\<close>  User programs enter through system calls (\<^verbatim>\<open>kernel\<close>, \<^verbatim>\<open>proc\<close>),
  which work on files (\<^verbatim>\<open>fs\<close>), sockets (\<^verbatim>\<open>bnet\<close>) and memory (\<^verbatim>\<open>vm\<close>, \<^verbatim>\<open>mem\<close>).  The file system stores inodes and
  directories in blocks, allocates them from bitmaps and changes them only through the journal, which
  writes to a disk driver (\<^verbatim>\<open>ahci\<close>, or the file-backed \<^verbatim>\<open>ufs\<close> driver that the tests use).  The network stack
  parses frames (\<^verbatim>\<open>inet\<close>), resolves addresses, looks up routes and connections and keeps each connection's
  bytes in circular buffers (\<^verbatim>\<open>circbuf\<close>), whose pages come from the physical page allocator (\<^verbatim>\<open>mem\<close>).  Hash
  tables, limits, path strings and little-endian accessors are shared by all of them.

  \<^bold>\<open>Conventions\<close> (theory \<open>Prelude\<close>).  A call that may panic returns \<open>'a go\<close>, which is \<open>Ok\<close> of the result or \<open>Panic\<close>
  with the message; index and slice bounds that Go checks are such panics.  Error codes are integers,
  negated as in the code.  A Go \<open>int\<close> is an \<open>int\<close>, wrapped to 64 bits (\<open>i64\<close>) where it can overflow; sized
  integers are words.  A struct is a record, a slice a list, and methods take and return the
  receiver.  Code outside the repository (the Go runtime's \<open>CPUHint\<close>, \<open>Get_phys\<close>, clock and random numbers,
  the order in which \<open>range\<close> visits a map) is an argument of the definitions that use it.

  \<^bold>\<open>Basics.\<close>
  \<^item> \<open>Util_Model\<close> (\<^verbatim>\<open>util/util.go\<close>): \<open>Readn\<close>, \<open>Writen\<close>, rounding; values written read back truncated.
  \<^item> \<open>Defs_Model\<close> (\<^verbatim>\<open>defs/errno.go\<close>, \<^verbatim>\<open>defs/device.go\<close>): error numbers, device numbers.
  \<^item> \<open>Paths\<close> (\<^verbatim>\<open>ustr/ustr.go\<close>, \<^verbatim>\<open>bpath/bpath.go\<close>): path iteration yields the components, \<open>Sdirname\<close> splits,
    \<open>Canonicalize\<close> is right on plain paths and wrong on some with dots.
  \<^item> \<open>Limits_Model\<close> (\<^verbatim>\<open>limits/limits.go\<close>): the counters, also as interleaved atomic steps (\<open>lim_step\<close>): no more is
    held than the limit.
  \<^item> \<open>Hashtable\<close> (\<^verbatim>\<open>hashtable/hashtable.go\<close>): the contract of a map is the locale \<open>kv_table\<close>; the table with its
    buckets sorted by hash is an interpretation of it, so any sequence of calls refines a partial map.
  \<^item> \<open>Userio\<close> (\<^verbatim>\<open>fdops/fdops.go\<close>, \<^verbatim>\<open>vm/userbuf.go\<close>): the user-memory interface as the locale \<open>userio\<close>,
    interpreted by \<open>Fakeubuf_t\<close>.
  \<^item> \<open>Circbuf\<close> (\<^verbatim>\<open>circbuf/circbuf.go\<close>): the buffer holds a queue of bytes (\<open>cb_data\<close>); copying in and out, for every
    implementation of \<open>userio\<close>, appends and removes, and the raw accessors give the right index ranges.

  \<^bold>\<open>Memory.\<close>
  \<^item> \<open>Physmem\<close> (\<^verbatim>\<open>mem/mem.go\<close>): page descriptors with reference counts, the free lists threaded through them, and
    \<open>pm_step\<close>, the atomic steps of the CPUs in any interleaving.  The invariant \<open>pm_inv\<close> names the pages on
    each list, those handed out and those being returned; it holds after \<open>Phys_init\<close> and after every step,
    so no page is handed out twice and none is lost.
  \<^item> \<open>Cbpage\<close>: the contract \<open>page_provider\<close> of \<open>mem.Page_i\<close>, discharged by \<open>Physmem\<close>, and the life of the page of
    a circular buffer on it.

  \<^bold>\<open>File system.\<close>
  \<^item> \<open>Ondisk\<close> (\<^verbatim>\<open>fs/super.go\<close>, accessors of \<^verbatim>\<open>fs/log.go\<close> and \<^verbatim>\<open>fs/inode.go\<close>): the locale \<open>field_store\<close> for arrays of 64-bit
    fields.
  \<^item> \<open>Inode\<close> (\<^verbatim>\<open>fs/inode.go\<close>): inode slots are a \<open>field_store\<close>; what \<open>flushto\<close> stores \<open>fill\<close> loads, and other inodes
    of the block are unchanged; the change test of \<open>flushto\<close> misses one field.
  \<^item> \<open>Bitmap\<close> (\<^verbatim>\<open>fs/bitmap.go\<close>): the allocator as the locale \<open>bit_allocator\<close>; exclusive allocation over every
    sequence of operations, when an allocation succeeds, the bulk update, and two defects.
  \<^item> \<open>Blockdev\<close> (\<^verbatim>\<open>fs/blk.go\<close>, \<^verbatim>\<open>fs/bdev.go\<close>, \<^verbatim>\<open>ufs/driver.go\<close>, \<^verbatim>\<open>ufs/trace.go\<close>): block lists with their iterator, the
    file-backed disk with its trace, requests coalesced into runs write what single requests write.
  \<^item> \<open>Log\<close> (\<^verbatim>\<open>fs/log.go\<close>): transactions, revocation, commit, application and recovery.  \<open>Recovery\<close>, \<open>Commit\<close> and
    \<open>Crash\<close> prove that recovery installs the last committed write of every block that was not revoked,
    that a commit is atomic for every crash image (any selection and order of the writes since the last
    flush, as \<^verbatim>\<open>ufs\<close> replays traces), and that recovery may itself be interrupted.

  \<^bold>\<open>Network.\<close>
  \<^item> \<open>Inet\<close> and \<open>Tcpopt\<close> (\<^verbatim>\<open>inet/inet.go\<close>): headers, checksums and parsers; a segment with known options parses to
    what it was built from, and an unknown option makes the parser loop forever.
  \<^item> \<open>Routes\<close> (\<^verbatim>\<open>bnet/net.go\<close>, \<open>routes_t\<close> and \<open>routetbl_t\<close>): the table refines a list of prefixes with
    longest-prefix lookup.
  \<^item> \<open>Arp\<close> (\<open>arptbl\<close>, \<open>Arp_resolve\<close>, \<open>net_arp\<close>): \<open>Arp_resolve\<close> is the two steps around its blocking \<open>select\<close>.  Tables
    stay well formed under every interleaving (\<open>arp_step\<close>), and two hosts resolve each other.
  \<^item> \<open>Netrx\<close> (\<open>Net_start\<close>, \<open>net_icmp\<close>): which received frames panic.
  \<^item> \<open>Tcpcons\<close> (\<open>tcpcons_t\<close>): port reservations, connections and listeners.
  \<^item> \<open>Tcpsegs\<close>, \<open>Tcprx\<close> and \<open>Tcpstream\<close> (\<open>tcpsegs_t\<close>, \<open>tcprsegs_t\<close>, \<open>tcpbuf_t\<close>, \<open>data_in\<close> of \<open>Tcptcb_t\<close>): whatever the order and
    overlap of received segments, the bytes the user reads are a prefix of the sender's stream.

  \<^bold>\<open>Loops and bounds.\<close>  Recursion over lists and counters is structural, and \<open>fold_sum\<close> has a termination proof.
  \<open>sl2tcpopt_loop\<close> may run forever and is a partial function, with \<open>None\<close> for no result; both that it returns
  on known options and that it does not on others are proved.  \<open>im_loop\<close>, the scan of the log, has as much
  fuel as the log has positions, since every turn consumes at least the commit block, and
  \<open>recover_replays\<close> shows that it returns.  \<open>FindFreeMap\<close> has fuel of twice the size of the map plus two,
  which \<open>FindAndMark_returns\<close> shows to be enough.  The page allocator is treated up to the 512 GB of its
  direct map, and log positions below \<open>2 ^ 63\<close>.

  \<^bold>\<open>Not modelled.\<close>
  \<^item> Device drivers (\<^verbatim>\<open>ahci\<close>, \<^verbatim>\<open>ixgbe\<close>, \<^verbatim>\<open>pci\<close>, \<^verbatim>\<open>apic\<close>, \<^verbatim>\<open>msi\<close>): reads and writes of device registers and DMA memory, whose
    behaviour is the hardware's.
  \<^item> \<^verbatim>\<open>kernel\<close>, \<^verbatim>\<open>proc\<close>, \<^verbatim>\<open>tinfo\<close>, \<^verbatim>\<open>fd\<close>, \<^verbatim>\<open>res\<close>, \<^verbatim>\<open>bounds\<close>, \<^verbatim>\<open>accnt\<close>: system calls, scheduling and resource accounting, which rest on
    the modified Go runtime and on traps.
  \<^item> \<^verbatim>\<open>vm\<close>: page tables and address spaces, which are pointers into physical memory.
  \<^item> The file layer of \<^verbatim>\<open>fs\<close> (\<^verbatim>\<open>fs.go\<close>, \<^verbatim>\<open>dir.go\<close>, \<^verbatim>\<open>cache.go\<close> and the operations of \<^verbatim>\<open>inode.go\<close> above slots): it needs a model of
    the shared inode and block caches with their locks and reference counts.
  \<^item> The rest of \<^verbatim>\<open>bnet/net.go\<close>: timers, the connection state machine, retransmission, packet construction
    and the socket operations.
  \<^item> \<^verbatim>\<open>mkfs\<close>, \<^verbatim>\<open>ufs\<close> apart from the driver, \<^verbatim>\<open>unet\<close>, \<^verbatim>\<open>caller\<close>, \<^verbatim>\<open>oommsg\<close>, \<^verbatim>\<open>stat\<close>, \<^verbatim>\<open>stats\<close>: tools, tests, printing and plain
    structures.
  \<^item> The Go toolchain and runtime, and the C programs.
\<close>

end
